(* ===== verification/Prelude.thy ===== *)
theory Prelude
  imports Main "HOL-Library.Word" "HOL-Library.Monad_Syntax"
begin

unbundle bit_operations_syntax

text \<open>
  Shared vocabulary of the GikView end-device development: the machine types of the ESP8266
  (an ILP32 target: \<open>size_t\<close>, \<open>int\<close>, \<open>long\<close> and \<open>unsigned long\<close> all have 32 bits),
  conversions between C characters and bytes, and the memory discipline of the model.

  A result of type \<open>'a option\<close> of a function that works on fixed-size C arrays reads
  \<open>None\<close> as undefined behaviour: a write past the end of an array, a read past the end of
  an array, or a signed overflow. Memory safety of such a function is therefore the theorem
  that it returns \<open>Some\<close>.
\<close>

section \<open>Machine types\<close>

type_synonym byte = "8 word"
type_synonym bytes = "byte list"
type_synonym u32 = "32 word"

named_theorems mem_simps \<open>simplification of the buffer discipline\<close>
named_theorems len_simps \<open>lengths of encoded data\<close>

section \<open>Characters and bytes\<close>

definition byte_of :: "char \<Rightarrow> byte" where
  "byte_of c = of_nat (of_char c)"

definition chr_of :: "byte \<Rightarrow> char" where
  "chr_of b = char_of (unat b)"

lemma chr_of_byte_of [simp]: "chr_of (byte_of c) = c"
  by (simp add: chr_of_def byte_of_def unat_of_nat take_bit_eq_mod)

lemma unat_byte_less [simp]: "unat (b :: byte) < 256"
  using unsigned_less [of b, where ?'a = nat] by simp

lemma byte_of_chr_of [simp]: "byte_of (chr_of b) = b"
  by (simp add: chr_of_def byte_of_def)

lemma map_chr_byte [simp]: "map (chr_of \<circ> byte_of) xs = xs" "map (byte_of \<circ> chr_of) bs = bs"
  by (simp_all add: comp_def)

lemma byte_of_inj [simp]: "byte_of c = byte_of d \<longleftrightarrow> c = d"
  by (metis chr_of_byte_of)

abbreviation NUL :: char where "NUL \<equiv> CHR 0x00"
abbreviation LF :: char where "LF \<equiv> CHR 0x0A"
abbreviation CR :: char where "CR \<equiv> CHR 0x0D"
abbreviation TAB :: char where "TAB \<equiv> CHR 0x09"
abbreviation QUOTE :: char where "QUOTE \<equiv> CHR 0x22"
abbreviation BSLASH :: char where "BSLASH \<equiv> CHR 0x5C"

section \<open>Bytes as eight bits\<close>

lemma byte_bit_high [simp]: "8 \<le> n \<Longrightarrow> \<not> bit (x :: byte) n"
  using bit_imp_le_length [of x n] by auto

lemma byte_eq_bits:
  "(a :: byte) = b \<longleftrightarrow> bit a 0 = bit b 0 \<and> bit a 1 = bit b 1 \<and> bit a 2 = bit b 2 \<and> bit a 3 = bit b 3 \<and>
     bit a 4 = bit b 4 \<and> bit a 5 = bit b 5 \<and> bit a 6 = bit b 6 \<and> bit a 7 = bit b 7"
proof
  assume eq: "bit a 0 = bit b 0 \<and> bit a 1 = bit b 1 \<and> bit a 2 = bit b 2 \<and> bit a 3 = bit b 3 \<and>
     bit a 4 = bit b 4 \<and> bit a 5 = bit b 5 \<and> bit a 6 = bit b 6 \<and> bit a 7 = bit b 7"
  show "a = b"
  proof (rule bit_word_eqI)
    fix n :: nat
    assume "n < LENGTH(8)"
    then consider "n = 0" | "n = 1" | "n = 2" | "n = 3" | "n = 4" | "n = 5" | "n = 6" | "n = 7"
      by fastforce
    then show "bit a n = bit b n" by cases (use eq in simp_all)
  qed
qed simp

section \<open>Fixed-size arrays\<close>

text \<open>\<open>put_buf cap xs\<close>: \<open>xs\<close> is written from the start of an array of \<open>cap\<close> cells.\<close>

definition put_buf :: "nat \<Rightarrow> 'a list \<Rightarrow> 'a list option" where
  "put_buf cap xs = (if length xs \<le> cap then Some xs else None)"

text \<open>\<open>rd buf i\<close> reads one cell, \<open>rd_n n buf\<close> the first \<open>n\<close> cells.\<close>

definition rd :: "'a list \<Rightarrow> nat \<Rightarrow> 'a option" where
  "rd buf i = (if i < length buf then Some (buf ! i) else None)"

definition rd_n :: "nat \<Rightarrow> 'a list \<Rightarrow> 'a list option" where
  "rd_n n buf = (if n \<le> length buf then Some (take n buf) else None)"

text \<open>\<open>wr buf i x\<close> stores into one cell.\<close>

definition wr :: "'a list \<Rightarrow> nat \<Rightarrow> 'a \<Rightarrow> 'a list option" where
  "wr buf i x = (if i < length buf then Some (buf[i := x]) else None)"

lemma wr_Some [mem_simps]: "i < length buf \<Longrightarrow> wr buf i x = Some (buf[i := x])"
  by (simp add: wr_def)

lemma put_buf_Some [mem_simps]: "length xs \<le> cap \<Longrightarrow> put_buf cap xs = Some xs"
  by (simp add: put_buf_def)

lemma put_buf_eq_Some [mem_simps]: "put_buf cap xs = Some ys \<longleftrightarrow> ys = xs \<and> length xs \<le> cap"
  by (auto simp: put_buf_def)

lemma put_buf_eq_None [mem_simps]: "put_buf cap xs = None \<longleftrightarrow> cap < length xs"
  by (auto simp: put_buf_def)

lemma rd_Some [mem_simps]: "i < length buf \<Longrightarrow> rd buf i = Some (buf ! i)"
  by (simp add: rd_def)

lemma rd_eq_Some [mem_simps]: "rd buf i = Some x \<longleftrightarrow> i < length buf \<and> x = buf ! i"
  by (auto simp: rd_def)

lemma rd_n_Some [mem_simps]: "n \<le> length buf \<Longrightarrow> rd_n n buf = Some (take n buf)"
  by (simp add: rd_n_def)

lemma rd_n_exact [mem_simps]: "length buf = n \<Longrightarrow> rd_n n buf = Some buf"
  by (simp add: rd_n_def)

section \<open>Splitting a list into lines of at most n cells\<close>

text \<open>
  The PEM writers copy the base64 text in pieces of 64 characters; the last piece is
  shorter.
\<close>

fun chunks :: "nat \<Rightarrow> 'a list \<Rightarrow> 'a list list" where
  "chunks n xs = (if xs = [] \<or> n = 0 then [] else take n xs # chunks n (drop n xs))"

declare chunks.simps [simp del]

lemma chunks_Nil [simp]: "chunks n [] = []"
  by (simp add: chunks.simps)

lemma chunks_step: "xs \<noteq> [] \<Longrightarrow> 0 < n \<Longrightarrow> chunks n xs = take n xs # chunks n (drop n xs)"
  by (simp add: chunks.simps [of n xs])

lemma concat_chunks [simp]: "0 < n \<Longrightarrow> concat (chunks n xs) = xs"
  by (induction n xs rule: chunks.induct) (simp add: chunks.simps)

lemma chunks_length_le: "c \<in> set (chunks n xs) \<Longrightarrow> length c \<le> n"
proof (induction n xs rule: chunks.induct)
  case (1 n xs)
  then show ?case
    by (cases "xs = [] \<or> n = 0") (auto simp: chunks.simps [of n xs])
qed

lemma chunks_set: "0 < n \<Longrightarrow> c \<in> set (chunks n xs) \<Longrightarrow> set c \<subseteq> set xs"
  by (metis concat_chunks set_concat UN_upper)

section \<open>Small list facts\<close>

lemma takeWhile_all: "(\<forall>x\<in>set xs. P x) \<Longrightarrow> takeWhile P xs = xs"
  by simp

lemma takeWhile_stop: "(\<forall>x\<in>set xs. P x) \<Longrightarrow> \<not> P y \<Longrightarrow> takeWhile P (xs @ y # ys) = xs"
  by (simp add: takeWhile_append)

lemma drop_eq_ConsD: "drop n xs = y # ys \<Longrightarrow> n < length xs \<and> xs ! n = y \<and> drop (Suc n) xs = ys"
  by (metis Cons_nth_drop_Suc drop_eq_Nil leI list.distinct(1) list.inject)

section \<open>Polling loops\<close>

text \<open>
  A loop \<open>while (cond()) { ... }\<close> whose condition samples the outside world (a clock, a link
  state, a serial port): the samples are the input, one per evaluation of the condition. The
  result is the samples for which the body ran and those left over; \<open>None\<close> says that the loop
  has not ended within the given samples.
\<close>

fun poll_while :: "('a \<Rightarrow> bool) \<Rightarrow> 'a list \<Rightarrow> ('a list \<times> 'a list) option" where
  "poll_while P [] = None"
| "poll_while P (x # xs) =
     (if P x then map_option (\<lambda>(body, rest). (x # body, rest)) (poll_while P xs) else Some ([], xs))"

lemma poll_while_Some:
  "poll_while P xs = Some (body, rest) \<longleftrightarrow> (\<exists>y. xs = body @ y # rest \<and> (\<forall>x\<in>set body. P x) \<and> \<not> P y)"
proof (induction xs arbitrary: body)
  case (Cons x xs)
  show ?case by (cases "P x"; cases body) (auto simp: Cons)
qed simp

lemma poll_while_ends: "x \<in> set xs \<Longrightarrow> \<not> P x \<Longrightarrow> \<exists>body rest. poll_while P xs = Some (body, rest)"
  by (induction xs) auto

section \<open>Outcomes of code that works on arrays and also waits\<close>

text \<open>
  A function that both uses fixed-size arrays and waits for the outside has three outcomes: undefined
  behaviour, not returned within the observed input, or a result. \<open>checked\<close> takes over the outcome of a
  function whose \<open>None\<close> is undefined behaviour, \<open>awaited\<close> that of one whose \<open>None\<close> says that it still
  waits, and \<open>exec_then\<close> goes on with a result.
\<close>

datatype 'a exec = Undefined | Pending | Done 'a

definition checked :: "'a option \<Rightarrow> 'a exec" where
  "checked r = (case r of None \<Rightarrow> Undefined | Some a \<Rightarrow> Done a)"

definition awaited :: "'a option \<Rightarrow> 'a exec" where
  "awaited r = (case r of None \<Rightarrow> Pending | Some a \<Rightarrow> Done a)"

primrec exec_then :: "'a exec \<Rightarrow> ('a \<Rightarrow> 'b exec) \<Rightarrow> 'b exec" where
  "exec_then Undefined k = Undefined"
| "exec_then Pending k = Pending"
| "exec_then (Done a) k = k a"

lemma checked_simps [simp]: "checked None = Undefined" "checked (Some a) = Done a"
  by (simp_all add: checked_def)

lemma awaited_simps [simp]: "awaited None = Pending" "awaited (Some a) = Done a"
  by (simp_all add: awaited_def)

lemma checked_iff [simp]:
  "checked r = Undefined \<longleftrightarrow> r = None" "checked r \<noteq> Pending" "checked r = Done a \<longleftrightarrow> r = Some a"
  by (cases r; simp)+

lemma awaited_iff [simp]:
  "awaited r = Pending \<longleftrightarrow> r = None" "awaited r \<noteq> Undefined" "awaited r = Done a \<longleftrightarrow> r = Some a"
  by (cases r; simp)+

lemma exec_then_Done: "exec_then m k = Done b \<longleftrightarrow> (\<exists>a. m = Done a \<and> k a = Done b)"
  by (cases m) simp_all

lemma exec_then_Undefined: "exec_then m k = Undefined \<longleftrightarrow> m = Undefined \<or> (\<exists>a. m = Done a \<and> k a = Undefined)"
  by (cases m) simp_all

lemma exec_then_Pending: "exec_then m k = Pending \<longleftrightarrow> m = Pending \<or> (\<exists>a. m = Done a \<and> k a = Pending)"
  by (cases m) simp_all

lemmas exec_then_iff = exec_then_Done exec_then_Undefined exec_then_Pending

lemma exec_DoneI: "r \<noteq> Undefined \<Longrightarrow> r \<noteq> Pending \<Longrightarrow> \<exists>a. r = Done a"
  by (cases r) simp_all

text \<open>
  \<open>exec_ok fin Q m\<close>: \<open>m\<close> is free of undefined behaviour, its result satisfies \<open>Q\<close>, and it has returned if \<open>fin\<close>
  holds. The rules follow the code from call to call.
\<close>

definition exec_ok :: "bool \<Rightarrow> ('a \<Rightarrow> bool) \<Rightarrow> 'a exec \<Rightarrow> bool" where
  "exec_ok fin Q m = (case m of Undefined \<Rightarrow> False | Pending \<Rightarrow> \<not> fin | Done a \<Rightarrow> Q a)"

lemma exec_ok_simps [simp]: "exec_ok fin Q Undefined = False" "exec_ok fin Q Pending = (\<not> fin)" "exec_ok fin Q (Done a) = Q a"
  by (simp_all add: exec_ok_def)

lemma exec_ok_then: "exec_ok fin Q m \<Longrightarrow> (\<And>a. Q a \<Longrightarrow> exec_ok fin R (k a)) \<Longrightarrow> exec_ok fin R (exec_then m k)"
  by (cases m) simp_all

lemma exec_ok_mono: "exec_ok fin Q m \<Longrightarrow> (\<And>a. Q a \<Longrightarrow> R a) \<Longrightarrow> exec_ok fin R m"
  by (cases m) simp_all

lemma exec_ok_checked: "\<exists>a. r = Some a \<and> Q a \<Longrightarrow> exec_ok fin Q (checked r)"
  by auto

lemma exec_ok_awaited: "(fin \<Longrightarrow> r \<noteq> None) \<Longrightarrow> (\<And>a. r = Some a \<Longrightarrow> Q a) \<Longrightarrow> exec_ok fin Q (awaited r)"
  by (cases r) auto

lemma exec_okD:
  "exec_ok fin Q m \<Longrightarrow> m \<noteq> Undefined" "exec_ok True Q m \<Longrightarrow> m \<noteq> Pending" "exec_ok fin Q m \<Longrightarrow> m = Done a \<Longrightarrow> Q a"
  by auto

section \<open>Sequences of steps and their abstraction\<close>

text \<open>
  A component whose operation \<open>step\<close> may be undefined is driven by a list of inputs. The contract
  \<open>step_refinement\<close> asks that each step from a state with the invariant is defined, keeps the
  invariant and does on the abstract state what \<open>astep\<close> says; then every run does.
\<close>

primrec run_steps :: "('s \<Rightarrow> 'i \<Rightarrow> 's option) \<Rightarrow> 's \<Rightarrow> 'i list \<Rightarrow> 's option" where
  "run_steps step s [] = Some s"
| "run_steps step s (i # is) = do { s' \<leftarrow> step s i; run_steps step s' is }"

lemma run_steps_append:
  "run_steps step s (is @ js) = do { s' \<leftarrow> run_steps step s is; run_steps step s' js }"
  by (induction "is" arbitrary: s) (auto split: Option.bind_splits)

locale step_refinement =
  fixes step :: "'s \<Rightarrow> 'i \<Rightarrow> 's option" and inv :: "'s \<Rightarrow> bool" and abs :: "'s \<Rightarrow> 'a" and astep :: "'a \<Rightarrow> 'i \<Rightarrow> 'a"
  assumes step_sim: "inv s \<Longrightarrow> \<exists>s'. step s i = Some s' \<and> inv s' \<and> abs s' = astep (abs s) i"
begin

lemma run_sim: "inv s \<Longrightarrow> \<exists>s'. run_steps step s is = Some s' \<and> inv s' \<and> abs s' = foldl astep (abs s) is"
proof (induction "is" arbitrary: s)
  case (Cons i "is")
  then obtain s' where "step s i = Some s'" "inv s'" "abs s' = astep (abs s) i" using step_sim by blast
  with Cons.IH [of s'] show ?case by simp
qed simp

end

end
