(* ===== verification/C_Library.thy ===== *)
theory C_Library
  imports Prelude
begin

text \<open>
  What the firmware uses of the C and C++ standard libraries and of the Arduino string class:
  searching in strings, the \<open>printf\<close> conversions that occur in format strings, \<open>snprintf\<close>
  with its truncation, \<open>strtoul\<close> and \<open>atol\<close>, \<open>gmtime_r\<close> and \<open>strftime\<close>. A C string
  is the list of its characters before the terminating NUL; a pointer into a string is the
  suffix it points to.
\<close>

section \<open>C strings\<close>

text \<open>The C string that starts at the beginning of a character array.\<close>

definition cstr :: "char list \<Rightarrow> string" where
  "cstr buf = takeWhile (\<lambda>c. c \<noteq> NUL) buf"

fun strchr :: "string \<Rightarrow> char \<Rightarrow> string option" where
  "strchr [] c = None"
| "strchr (x # xs) c = (if x = c then Some (x # xs) else strchr xs c)"

fun prefix_of :: "string \<Rightarrow> string \<Rightarrow> bool" where
  "prefix_of [] ys = True"
| "prefix_of (x # xs) [] = False"
| "prefix_of (x # xs) (y # ys) = (x = y \<and> prefix_of xs ys)"

fun strstr :: "string \<Rightarrow> string \<Rightarrow> string option" where
  "strstr [] sub = (if sub = [] then Some [] else None)"
| "strstr (x # xs) sub = (if prefix_of sub (x # xs) then Some (x # xs) else strstr xs sub)"

text \<open>\<open>strncmp(s, lit, n) == 0\<close> for a literal of length \<open>n\<close>.\<close>

definition strncmp_eq :: "string \<Rightarrow> string \<Rightarrow> nat \<Rightarrow> bool" where
  "strncmp_eq s lit n \<longleftrightarrow> take n s = take n lit"

lemma prefix_of_append [simp]: "prefix_of xs (xs @ ys)"
  by (induction xs) auto

lemma prefix_of_iff: "prefix_of xs ys \<longleftrightarrow> (\<exists>zs. ys = xs @ zs)"
  by (induction xs ys rule: prefix_of.induct) auto

lemma strchr_skip: "c \<notin> set xs \<Longrightarrow> strchr (xs @ c # ys) c = Some (c # ys)"
  by (induction xs) auto

lemma strchr_None: "strchr xs c = None \<longleftrightarrow> c \<notin> set xs"
  by (induction xs) auto

lemma strchr_SomeD: "strchr xs c = Some ys \<Longrightarrow> \<exists>zs. xs = zs @ ys \<and> c \<notin> set zs \<and> hd ys = c \<and> ys \<noteq> []"
proof (induction xs)
  case (Cons x xs)
  show ?case
  proof (cases "x = c")
    case False
    with Cons obtain zs where "xs = zs @ ys" "c \<notin> set zs" "hd ys = c" "ys \<noteq> []" by auto
    with False have "x # xs = (x # zs) @ ys \<and> c \<notin> set (x # zs) \<and> hd ys = c \<and> ys \<noteq> []" by simp
    then show ?thesis by blast
  qed (use Cons in auto)
qed simp

lemma strstr_suffix: "strstr xs sub = Some ys \<Longrightarrow> \<exists>zs. xs = zs @ ys"
  by (induction xs) (auto split: if_splits intro: exI [of _ "_ # _"])

lemma strstr_here: "strstr (sub @ ys) sub = Some (sub @ ys)"
proof (cases sub)
  case Nil
  then show ?thesis by (cases ys) auto
qed auto

text \<open>A pattern whose first character does not occur before it is found where it starts.\<close>

lemma strstr_skip:
  assumes "a \<notin> set xs"
  shows "strstr (xs @ (a # sub) @ ys) (a # sub) = Some ((a # sub) @ ys)"
  using assms by (induction xs) auto

section \<open>Formatted output\<close>

definition digit_chr :: "nat \<Rightarrow> char" where
  "digit_chr d = char_of (if d < 10 then 48 + d else 87 + d)"

fun radix_str :: "nat \<Rightarrow> nat \<Rightarrow> string" where
  "radix_str b n = (if n < b \<or> b < 2 then [digit_chr n] else radix_str b (n div b) @ [digit_chr (n mod b)])"

declare radix_str.simps [simp del]

text \<open>The conversions \<open>%u\<close>/\<open>%lu\<close>, \<open>%d\<close>/\<open>%ld\<close>, and the zero-padded ones (\<open>%02x\<close>, \<open>%08lx\<close>,
  and the two-digit fields of \<open>strftime\<close>).\<close>

definition fmt_u :: "nat \<Rightarrow> string" where
  "fmt_u n = radix_str 10 n"

definition fmt_d :: "int \<Rightarrow> string" where
  "fmt_d i = (if i < 0 then CHR ''-'' # fmt_u (nat (- i)) else fmt_u (nat i))"

definition pad0 :: "nat \<Rightarrow> string \<Rightarrow> string" where
  "pad0 w s = replicate (w - length s) (CHR ''0'') @ s"

definition fmt_0x :: "nat \<Rightarrow> nat \<Rightarrow> string" where
  "fmt_0x w n = pad0 w (radix_str 16 n)"

text \<open>
  \<open>snprintf(buf, cap, ...)\<close> with the formatted text \<open>s\<close>: the array then starts with the
  text cut to \<open>cap - 1\<close> characters and a NUL; the return value is the untruncated length.
\<close>

definition snprintf_buf :: "nat \<Rightarrow> string \<Rightarrow> char list" where
  "snprintf_buf cap s = take (cap - 1) s @ [NUL]"

definition snprintf_str :: "nat \<Rightarrow> string \<Rightarrow> string" where
  "snprintf_str cap s = cstr (snprintf_buf cap s)"

lemma radix_str_small: "n < b \<Longrightarrow> radix_str b n = [digit_chr n]"
  by (simp add: radix_str.simps)

lemma radix_str_step: "\<not> n < b \<Longrightarrow> 2 \<le> b \<Longrightarrow> radix_str b n = radix_str b (n div b) @ [digit_chr (n mod b)]"
  by (simp add: radix_str.simps [of b n])

lemma radix_str_length_bound: "2 \<le> b \<Longrightarrow> n < b ^ k \<Longrightarrow> 0 < k \<Longrightarrow> length (radix_str b n) \<le> k"
proof (induction b n arbitrary: k rule: radix_str.induct)
  case (1 b n)
  show ?case
  proof (cases "n < b")
    case True
    with 1 show ?thesis by (simp add: radix_str.simps [of b n])
  next
    case False
    with 1 have k: "1 < k" by (cases k; cases "k - 1") auto
    then obtain j where j: "k = Suc j" "0 < j" by (cases k) auto
    with 1 have "n div b < b ^ j" by (simp add: less_mult_imp_div_less mult.commute)
    with 1 False j have "length (radix_str b (n div b)) \<le> j" by simp
    with False 1 j show ?thesis by (simp add: radix_str.simps [of b n])
  qed
qed

lemma digit_chr_not_NUL: "d < 16 \<Longrightarrow> digit_chr d \<noteq> NUL"
proof
  assume d: "d < 16" and "digit_chr d = NUL"
  then have "of_char (digit_chr d) = (0 :: nat)" by simp
  with d show False by (simp add: digit_chr_def split: if_splits)
qed

lemma radix_str_no_NUL: "2 \<le> b \<Longrightarrow> b \<le> 16 \<Longrightarrow> NUL \<notin> set (radix_str b n)"
proof (induction b n rule: radix_str.induct)
  case (1 b n)
  have "n mod b < 16" using 1 by (intro less_le_trans [OF mod_less_divisor]) auto
  with 1 show ?case
    using digit_chr_not_NUL [of n] digit_chr_not_NUL [of "n mod b"]
    by (cases "n < b") (auto simp: radix_str.simps [of b n])
qed

lemma cstr_no_NUL [simp]: "NUL \<notin> set s \<Longrightarrow> cstr s = s"
  unfolding cstr_def by (rule takeWhile_all) auto

lemma cstr_terminated: "NUL \<notin> set s \<Longrightarrow> cstr (s @ NUL # t) = s"
  unfolding cstr_def by (rule takeWhile_stop) auto

lemma snprintf_str_fits: "NUL \<notin> set s \<Longrightarrow> length s < cap \<Longrightarrow> snprintf_str cap s = s"
  by (simp add: snprintf_str_def snprintf_buf_def cstr_terminated)

lemma snprintf_str_length: "0 < cap \<Longrightarrow> length (snprintf_str cap s) < cap"
proof -
  assume "0 < cap"
  have "takeWhile (\<lambda>c. c \<noteq> NUL) (t @ [NUL]) = takeWhile (\<lambda>c. c \<noteq> NUL) t" for t
    by (induction t) auto
  then have "length (snprintf_str cap s) \<le> length (take (cap - 1) s)"
    by (simp only: snprintf_str_def snprintf_buf_def cstr_def length_takeWhile_le)
  with \<open>0 < cap\<close> show ?thesis by (cases cap) auto
qed

section \<open>Reading numbers\<close>

definition is_space :: "char \<Rightarrow> bool" where
  "is_space c \<longleftrightarrow> c \<in> {CHR '' '', TAB, LF, CHR 0x0B, CHR 0x0C, CR}"

definition is_digit :: "char \<Rightarrow> bool" where
  "is_digit c \<longleftrightarrow> 48 \<le> (of_char c :: nat) \<and> of_char c \<le> (57 :: nat)"

definition digits_val :: "string \<Rightarrow> nat" where
  "digits_val s = foldl (\<lambda>n c. 10 * n + (of_char c - 48)) 0 (takeWhile is_digit s)"

definition ULONG_MAX :: nat where "ULONG_MAX = 2 ^ 32 - 1"

text \<open>\<open>strtoul(s, nullptr, 10)\<close>: blanks, an optional sign, digits; saturates at \<open>ULONG_MAX\<close>.\<close>

definition strtoul10 :: "string \<Rightarrow> nat" where
  "strtoul10 s =
     (let t = dropWhile is_space s;
          neg = (t \<noteq> [] \<and> hd t = CHR ''-'');
          u = (if t \<noteq> [] \<and> (hd t = CHR ''-'' \<or> hd t = CHR ''+'') then tl t else t);
          v = digits_val u
      in if ULONG_MAX < v then ULONG_MAX
         else if neg then (2 ^ 32 - v) mod 2 ^ 32 else v)"

text \<open>\<open>String::toInt\<close> is \<open>atol\<close> on the text: saturates at the ends of a 32-bit \<open>long\<close>.\<close>

definition atol :: "string \<Rightarrow> int" where
  "atol s =
     (let t = dropWhile is_space s;
          neg = (t \<noteq> [] \<and> hd t = CHR ''-'');
          u = (if t \<noteq> [] \<and> (hd t = CHR ''-'' \<or> hd t = CHR ''+'') then tl t else t);
          v = int (digits_val u)
      in if neg then max (- (2 ^ 31)) (- v) else min (2 ^ 31 - 1) v)"

lemma of_char_digit_chr: "d < 10 \<Longrightarrow> of_char (digit_chr d) = 48 + d"
  by (simp add: digit_chr_def)

lemma is_digit_digit_chr: "d < 10 \<Longrightarrow> is_digit (digit_chr d)"
  by (simp add: is_digit_def of_char_digit_chr)

lemma radix10_digits: "c \<in> set (radix_str 10 n) \<Longrightarrow> is_digit c"
proof (induction "10 :: nat" n rule: radix_str.induct)
  case (1 n)
  then show ?case
    by (cases "n < 10") (auto simp: radix_str.simps [of 10 n] is_digit_digit_chr)
qed

lemma radix10_not_Nil: "radix_str 10 n \<noteq> []"
  by (subst radix_str.simps) simp

lemma radix10_val: "foldl (\<lambda>n c. 10 * n + (of_char c - 48)) 0 (radix_str 10 n) = n"
proof (induction "10 :: nat" n rule: radix_str.induct)
  case (1 n)
  then show ?case
    by (cases "n < 10") (auto simp: radix_str.simps [of 10 n] of_char_digit_chr)
qed

lemma digits_val_fmt_u: "digits_val (fmt_u n) = n"
proof -
  have "takeWhile is_digit (radix_str 10 n) = radix_str 10 n"
    by (rule takeWhile_all) (blast dest: radix10_digits)
  then show ?thesis unfolding digits_val_def fmt_u_def by (simp only: radix10_val)
qed

lemma is_digit_imp: "is_digit c \<Longrightarrow> \<not> is_space c \<and> c \<noteq> CHR ''-'' \<and> c \<noteq> CHR ''+'' \<and> c \<noteq> NUL"
  by (auto simp: is_digit_def is_space_def)

lemma fmt_u_hd: "is_digit (hd (fmt_u n))"
  using radix10_digits [of "hd (fmt_u n)" n] radix10_not_Nil [of n] by (simp add: fmt_u_def)

lemma fmt_u_no_NUL: "NUL \<notin> set (fmt_u n)"
  unfolding fmt_u_def by (rule radix_str_no_NUL) auto

lemma dropWhile_fmt_u: "dropWhile is_space (fmt_u n) = fmt_u n"
  using fmt_u_hd [of n] is_digit_imp [of "hd (fmt_u n)"] by (cases "fmt_u n") auto

text \<open>Printing an unsigned long and reading it back is the identity.\<close>

lemma strtoul10_fmt_u: "n < 2 ^ 32 \<Longrightarrow> strtoul10 (fmt_u n) = n"
  using fmt_u_hd [of n] is_digit_imp [of "hd (fmt_u n)"]
  by (simp add: strtoul10_def dropWhile_fmt_u digits_val_fmt_u Let_def ULONG_MAX_def)

text \<open>The cast \<open>(unsigned long)t\<close> of a \<open>time_t\<close>.\<close>

definition ulong :: "int \<Rightarrow> nat" where
  "ulong t = nat (t mod 2 ^ 32)"

lemma ulong_less: "ulong t < 2 ^ 32"
  by (simp add: ulong_def nat_less_iff)

lemma fmt_u_length: "n < 10 ^ k \<Longrightarrow> 0 < k \<Longrightarrow> length (fmt_u n) \<le> k"
  unfolding fmt_u_def by (rule radix_str_length_bound) auto

lemma fmt_ulong_length: "length (fmt_u (ulong t)) \<le> 10"
proof -
  have "t mod 4294967296 < 4294967296" "0 \<le> t mod 4294967296" by simp_all
  then have "t mod 4294967296 < 10000000000" by linarith
  then have "ulong t < 10 ^ 10" by (simp add: ulong_def nat_less_iff)
  then show ?thesis by (rule fmt_u_length) simp
qed

text \<open>\<open>indexOf\<close> and \<open>trim\<close> of the Arduino \<open>String\<close> class, as its reference documents them.\<close>

definition indexOf :: "string \<Rightarrow> string \<Rightarrow> nat option" where
  "indexOf s needle = map_option (\<lambda>rest. length (cstr s) - length rest) (strstr (cstr s) needle)"

definition trim :: "string \<Rightarrow> string" where
  "trim s = rev (dropWhile is_space (rev (dropWhile is_space s)))"

section \<open>Calendar time\<close>

record tm =
  tm_year :: int
  tm_mon :: int
  tm_mday :: int
  tm_hour :: int
  tm_min :: int
  tm_sec :: int

definition leap_year :: "int \<Rightarrow> bool" where
  "leap_year y \<longleftrightarrow> (y mod 4 = 0 \<and> y mod 100 \<noteq> 0) \<or> y mod 400 = 0"

definition year_len :: "int \<Rightarrow> int" where
  "year_len y = (if leap_year y then 366 else 365)"

definition month_len :: "int \<Rightarrow> nat \<Rightarrow> int" where
  "month_len y m = [31, if leap_year y then 29 else 28, 31, 30, 31, 30, 31, 31, 30, 31, 30, 31] ! m"

text \<open>\<open>gmtime_r\<close> for times from the epoch on: the year, the month and the day are found by
  taking whole years and whole months off the day number.\<close>

function split_year :: "int \<Rightarrow> int \<Rightarrow> int \<times> int" where
  "split_year y d = (if d < year_len y then (y, d) else split_year (y + 1) (d - year_len y))"
  by pat_completeness auto
termination
  by (relation "measure (\<lambda>(y, d). nat d)") (auto simp: year_len_def split: if_splits)

declare split_year.simps [simp del]

fun split_month :: "int \<Rightarrow> nat list \<Rightarrow> int \<Rightarrow> nat \<times> int" where
  "split_month y [] d = (11, d)"
| "split_month y (m # ms) d =
     (if d < month_len y m \<or> ms = [] then (m, d) else split_month y ms (d - month_len y m))"

definition gmtime :: "int \<Rightarrow> tm" where
  "gmtime t =
     (let (y, yd) = split_year 1970 (t div 86400);
          (m, md) = split_month y [0..<12] yd;
          s = t mod 86400
      in \<lparr> tm_year = y - 1900, tm_mon = int m, tm_mday = md + 1,
           tm_hour = s div 3600, tm_min = s mod 3600 div 60, tm_sec = s mod 60 \<rparr>)"

text \<open>\<open>strftime\<close> with the format \<open>%Y-%m-%dT%H:%M:%SZ\<close>.\<close>

definition fmt_02 :: "int \<Rightarrow> string" where
  "fmt_02 i = pad0 2 (fmt_d i)"

definition strftime_rfc3339 :: "tm \<Rightarrow> string" where
  "strftime_rfc3339 t =
     fmt_d (tm_year t + 1900) @ ''-'' @ fmt_02 (tm_mon t + 1) @ ''-'' @ fmt_02 (tm_mday t) @ ''T'' @
     fmt_02 (tm_hour t) @ '':'' @ fmt_02 (tm_min t) @ '':'' @ fmt_02 (tm_sec t) @ ''Z''"

end
