(* ===== verification/Crypto_Asn1.thy ===== *)
theory Crypto_Asn1
  imports C_Library
begin

text \<open>
  The low-level codec layer, \<open>crypto_asn1.cpp\<close>: the DER length, SEQUENCE, SET and INTEGER
  writers, the bounded element reader \<open>asn1_walk_next\<close>, base64 in its standard and its
  url-safe form, and the PEM reader. A writer returns the bytes it stores in \<open>out\<close>; the
  \<open>size_t\<close> the code returns is their number. The reader works on positions of a byte array,
  as the code works on pointers.
\<close>

section \<open>DER writers\<close>

definition OID_EC_PUBKEY :: bytes where
  "OID_EC_PUBKEY = [0x06, 0x07, 0x2A, 0x86, 0x48, 0xCE, 0x3D, 0x02, 0x01]"

definition OID_P256 :: bytes where
  "OID_P256 = [0x06, 0x08, 0x2A, 0x86, 0x48, 0xCE, 0x3D, 0x03, 0x01, 0x07]"

definition OID_CN :: bytes where
  "OID_CN = [0x06, 0x03, 0x55, 0x04, 0x03]"

definition OID_ECDSA_SHA256 :: bytes where
  "OID_ECDSA_SHA256 = [0x06, 0x08, 0x2A, 0x86, 0x48, 0xCE, 0x3D, 0x04, 0x03, 0x02]"

definition asn1_len :: "nat \<Rightarrow> bytes" where
  "asn1_len len =
     (if len < 128 then [of_nat len]
      else if len < 256 then [0x81, of_nat len]
      else [0x82, of_nat (drop_bit 8 len), of_nat (len AND 0xFF)])"

definition asn1_seq :: "bytes \<Rightarrow> bytes" where
  "asn1_seq c = 0x30 # asn1_len (length c) @ c"

definition asn1_set :: "bytes \<Rightarrow> bytes" where
  "asn1_set c = 0x31 # asn1_len (length c) @ c"

text \<open>The INTEGER writer reads \<open>val[0]\<close>, which an empty value does not have.\<close>

definition asn1_int :: "bytes \<Rightarrow> bytes option" where
  "asn1_int val = do {
     v0 \<leftarrow> rd val 0;
     let nz = (v0 AND 0x80 \<noteq> 0);
     let il = length val + (if nz then 1 else 0);
     Some (0x02 # asn1_len il @ (if nz then 0x00 # val else val))
   }"

section \<open>The DER reader\<close>

datatype walk =
    Null
  | Elem (el_tag: byte) (el_len: nat) (el_val: nat) (el_next: nat)

definition asn1_walk_finish :: "byte \<Rightarrow> nat \<Rightarrow> nat \<Rightarrow> nat \<Rightarrow> walk option" where
  "asn1_walk_finish tag len p e = (if p + len > e then Some Null else Some (Elem tag len p (p + len)))"

definition asn1_walk_next :: "bytes \<Rightarrow> nat \<Rightarrow> nat \<Rightarrow> walk option" where
  "asn1_walk_next buf p e =
     (if p \<ge> e then Some Null else do {
        tag \<leftarrow> rd buf p;
        let p = p + 1;
        if p \<ge> e then Some Null else do {
          l0 \<leftarrow> rd buf p;
          let p = p + 1;
          if l0 AND 0x80 = 0 then asn1_walk_finish tag (unat l0) p e
          else if l0 = 0x81 then
            (if p \<ge> e then Some Null else do {
               b \<leftarrow> rd buf p;
               asn1_walk_finish tag (unat b) (p + 1) e
             })
          else if l0 = 0x82 then
            (if p + 1 \<ge> e then Some Null else do {
               b0 \<leftarrow> rd buf p;
               b1 \<leftarrow> rd buf (p + 1);
               asn1_walk_finish tag (push_bit 8 (unat b0) OR unat b1) (p + 2) e
             })
          else Some Null
        }
      })"

section \<open>Base64\<close>

definition B64_STD :: string where
  "B64_STD = ''ABCDEFGHIJKLMNOPQRSTUVWXYZabcdefghijklmnopqrstuvwxyz0123456789+/''"

definition B64_URL :: string where
  "B64_URL = ''ABCDEFGHIJKLMNOPQRSTUVWXYZabcdefghijklmnopqrstuvwxyz0123456789-_''"

text \<open>\<open>sextet abc v k\<close> is \<open>abc[(v >> k) & 0x3F]\<close>.\<close>

definition sextet :: "string \<Rightarrow> u32 \<Rightarrow> nat \<Rightarrow> char" where
  "sextet abc v k = abc ! unat (drop_bit k v AND 0x3F)"

text \<open>One round of the loop takes up to three bytes; \<open>i + 1 < in_len\<close> and \<open>i + 2 < in_len\<close>
  say that a second and a third byte are left.\<close>

fun b64_encode_impl :: "string \<Rightarrow> bool \<Rightarrow> bytes \<Rightarrow> string" where
  "b64_encode_impl abc pad [] = []"
| "b64_encode_impl abc pad (x # rest) =
     (let v = push_bit 16 (ucast x :: u32);
          v = (if 0 < length rest then v OR push_bit 8 (ucast (rest ! 0)) else v);
          v = (if 1 < length rest then v OR ucast (rest ! 1) else v)
      in [sextet abc v 18, sextet abc v 12]
         @ (if 0 < length rest then [sextet abc v 6] else if pad then ''='' else [])
         @ (if 1 < length rest then [sextet abc v 0] else if pad then ''='' else [])
         @ b64_encode_impl abc pad (drop 2 rest))"

definition base64_encode :: "bytes \<Rightarrow> string" where
  "base64_encode inp = b64_encode_impl B64_STD True inp"

definition base64url_encode :: "bytes \<Rightarrow> string" where
  "base64url_encode inp = b64_encode_impl B64_URL False inp"

definition b64_val :: "char \<Rightarrow> int" where
  "b64_val ch =
     (let c = (of_char ch :: int) in
      if 65 \<le> c \<and> c \<le> 90 then c - 65
      else if 97 \<le> c \<and> c \<le> 122 then c - 97 + 26
      else if 48 \<le> c \<and> c \<le> 57 then c - 48 + 52
      else if ch = CHR ''+'' \<or> ch = CHR ''-'' then 62
      else if ch = CHR ''/'' \<or> ch = CHR ''_'' then 63
      else -1)"

text \<open>
  The decoder's loop with its locals: the 32-bit shift register \<open>buf\<close>, the number \<open>bits\<close>
  of bits it still holds, and the bytes written so far. A full output array makes the
  function return 0.
\<close>

fun b64_decode_loop :: "nat \<Rightarrow> u32 \<Rightarrow> nat \<Rightarrow> bytes \<Rightarrow> string \<Rightarrow> bytes" where
  "b64_decode_loop out_max buf bits out [] = out"
| "b64_decode_loop out_max buf bits out (c # cs) =
     (let v = b64_val c in
      if v < 0 then b64_decode_loop out_max buf bits out cs
      else
        let buf = push_bit 6 buf OR word_of_int v;
            bits = bits + 6
        in if 8 \<le> bits then
             let bits = bits - 8 in
             if length out \<ge> out_max then []
             else b64_decode_loop out_max buf bits (out @ [ucast (drop_bit bits buf AND 0xFF)]) cs
           else b64_decode_loop out_max buf bits out cs)"

definition base64_decode :: "string \<Rightarrow> nat \<Rightarrow> bytes" where
  "base64_decode inp out_max = b64_decode_loop out_max 0 0 [] inp"

section \<open>PEM to DER\<close>

definition PEM_B64_CAP :: nat where "PEM_B64_CAP = 1024"

definition pem_blank :: "char \<Rightarrow> bool" where
  "pem_blank c \<longleftrightarrow> c = LF \<or> c = CR \<or> c = CHR '' '' \<or> c = TAB"

text \<open>The copy loop: stops at the end marker or when the text array is full but one cell.\<close>

fun pem_collect :: "string \<Rightarrow> string \<Rightarrow> string" where
  "pem_collect b64 [] = b64"
| "pem_collect b64 (c # cs) =
     (if length b64 < PEM_B64_CAP - 1
      then pem_collect (if pem_blank c then b64 else b64 @ [c]) cs
      else b64)"

definition pem_to_der :: "string \<Rightarrow> nat \<Rightarrow> bytes" where
  "pem_to_der pem out_max =
     (case strstr (cstr pem) ''-----BEGIN'' of
        None \<Rightarrow> []
      | Some begin_p \<Rightarrow>
          (case strchr begin_p LF of
             None \<Rightarrow> []
           | Some nl0 \<Rightarrow>
               let nl = tl nl0 in
               (case strstr nl ''-----END'' of
                  None \<Rightarrow> []
                | Some end_p \<Rightarrow>
                    base64_decode (pem_collect [] (take (length nl - length end_p) nl)) out_max)))"

section \<open>Base64: one alphabet contract for both encoders\<close>

text \<open>The 24-bit group of three bytes and its four six-bit digits.\<close>

definition b64_group :: "byte \<Rightarrow> byte \<Rightarrow> byte \<Rightarrow> u32" where
  "b64_group x y z = push_bit 16 (ucast x) OR push_bit 8 (ucast y) OR ucast z"

definition b64_digit :: "u32 \<Rightarrow> nat \<Rightarrow> u32" where
  "b64_digit v k = drop_bit k v AND 0x3F"

definition b64_shift :: "u32 \<Rightarrow> u32 \<Rightarrow> u32" where
  "b64_shift buf d = push_bit 6 buf OR d"

text \<open>Whatever the shift register held before, the group's bytes come out again.\<close>

lemma b64_group_out:
  fixes buf :: u32 and x y z :: byte
  defines "v \<equiv> b64_group x y z"
  defines "b2 \<equiv> b64_shift (b64_shift buf (b64_digit v 18)) (b64_digit v 12)"
  defines "b3 \<equiv> b64_shift b2 (b64_digit v 6)"
  shows "ucast (drop_bit 4 b2 AND 0xFF) = x"
    and "ucast (drop_bit 2 b3 AND 0xFF) = y"
    and "ucast (b64_shift b3 (b64_digit v 0) AND 0xFF) = z"
  by (simp_all add: byte_eq_bits v_def b2_def b3_def b64_group_def b64_digit_def b64_shift_def bit_simps)

lemma b64_digit_less: "unat (b64_digit v k) < 64"
proof -
  have "b64_digit v k \<le> 63"
    unfolding b64_digit_def by (rule word_and_le1)
  then have "unat (b64_digit v k) \<le> unat (63 :: u32)" by (rule word_le_nat_alt [THEN iffD1])
  then show ?thesis by simp
qed

lemma b64_induct [case_names Nil One Two Three]:
  assumes "P []" and "\<And>x. P [x]" and "\<And>x y. P [x, y]" and "\<And>x y z r. P r \<Longrightarrow> P (x # y # z # r)"
  shows "P xs"
proof (induction xs rule: length_induct)
  case (1 xs)
  show ?case
  proof (cases "length xs < 3")
    case True
    then consider "xs = []" | x where "xs = [x]" | x y where "xs = [x, y]"
      by (cases xs; cases "tl xs"; cases "tl (tl xs)") auto
    then show ?thesis using assms by cases auto
  next
    case False
    then obtain x y z r where "xs = x # y # z # r"
      by (cases xs; cases "tl xs"; cases "tl (tl xs)") auto
    then show ?thesis using 1 assms(4) by simp
  qed
qed

lemma b64_encode_groups:
  "b64_encode_impl abc pad [x] = sextet abc (b64_group x 0 0) 18 # sextet abc (b64_group x 0 0) 12 #
     (if pad then ''=='' else [])"
  "b64_encode_impl abc pad [x, y] = sextet abc (b64_group x y 0) 18 # sextet abc (b64_group x y 0) 12 #
     sextet abc (b64_group x y 0) 6 # (if pad then ''='' else [])"
  "b64_encode_impl abc pad (x # y # z # r) =
     sextet abc (b64_group x y z) 18 # sextet abc (b64_group x y z) 12 #
     sextet abc (b64_group x y z) 6 # sextet abc (b64_group x y z) 0 # b64_encode_impl abc pad r"
  by (simp_all add: b64_group_def Let_def or.assoc)

lemma b64_encode_length:
  "length (b64_encode_impl abc False xs) = (4 * length xs + 2) div 3"
  "length (b64_encode_impl abc True xs) = 4 * ((length xs + 2) div 3)"
proof (induction xs rule: b64_induct)
  case (Three x y z r)
  have "(4 * Suc (Suc (Suc (length r))) + 2) div 3 = Suc (Suc (Suc (Suc ((4 * length r + 2) div 3))))"
    "(Suc (Suc (Suc (length r))) + 2) div 3 = Suc ((length r + 2) div 3)"
    by presburger+
  then show "length (b64_encode_impl abc False (x # y # z # r)) = (4 * length (x # y # z # r) + 2) div 3"
    and "length (b64_encode_impl abc True (x # y # z # r)) = 4 * ((length (x # y # z # r) + 2) div 3)"
    unfolding b64_encode_groups list.size add_0_right add_Suc_right Three by simp_all
qed (simp_all only: b64_encode_groups, simp_all)

lemma b64_encode_pad:
  "\<exists>ps. b64_encode_impl abc True xs = b64_encode_impl abc False xs @ ps \<and> set ps \<subseteq> {CHR ''=''}"
proof (induction xs rule: b64_induct)
  case (Three x y z r)
  then show ?case unfolding b64_encode_groups by auto
qed (simp_all only: b64_encode_groups, simp_all)

lemma b64_decode_skip: "\<forall>c\<in>set ps. b64_val c < 0 \<Longrightarrow>
  b64_decode_loop om buf bits out (cs @ ps) = b64_decode_loop om buf bits out cs"
proof (induction cs arbitrary: buf bits out)
  case Nil
  then show ?case by (induction ps) (auto simp: Let_def)
next
  case (Cons c cs)
  then show ?case by (simp add: Let_def)
qed

lemma b64_decode_length: "length out \<le> om \<Longrightarrow> length (b64_decode_loop om buf bits out cs) \<le> om"
proof (induction cs arbitrary: buf bits out)
  case (Cons c cs)
  then show ?case by (simp add: Let_def not_le)
qed simp

locale b64_alphabet =
  fixes abc :: string
  assumes digit_val: "i < 64 \<Longrightarrow> b64_val (abc ! i) = int i"
begin

lemma decode_step:
  "b64_decode_loop om buf bits out (sextet abc v k # cs) =
     (let buf' = b64_shift buf (b64_digit v k) in
      if 2 \<le> bits then
        if om \<le> length out then []
        else b64_decode_loop om buf' (bits - 2) (out @ [ucast (drop_bit (bits - 2) buf' AND 0xFF)]) cs
      else b64_decode_loop om buf' (bits + 6) out cs)"
proof -
  have "b64_val (sextet abc v k) = int (unat (b64_digit v k))"
    using b64_digit_less [of v k] by (simp add: sextet_def b64_digit_def digit_val)
  then show ?thesis by (simp add: Let_def b64_shift_def not_less)
qed

text \<open>Decoding the first \<open>n\<close> digits of an encoding gives its first \<open>6 * n div 8\<close> bytes.\<close>

lemma decode_prefix:
  "n \<le> length (b64_encode_impl abc False xs) \<Longrightarrow> length out \<le> om \<Longrightarrow>
   b64_decode_loop om buf 0 out (take n (b64_encode_impl abc False xs)) =
     (if length out + 6 * n div 8 \<le> om then out @ take (6 * n div 8) xs else [])"
proof (induction xs arbitrary: n buf out rule: b64_induct)
  case (Three x y z r)
  show ?case
  proof (cases "n < 4")
    case True
    then consider "n = 0" | "n = 1" | "n = 2" | "n = 3" by linarith
    then show ?thesis using Three.prems
      by cases (simp_all add: b64_encode_groups decode_step Let_def b64_group_out del: b64_encode_impl.simps b64_decode_loop.simps(2))
  next
    case False
    then have n: "n = Suc (Suc (Suc (Suc (n - 4))))" by simp
    define m where "m = n - 4"
    with n have n: "n = Suc (Suc (Suc (Suc m)))" by simp
    have d: "6 * n div 8 = Suc (Suc (Suc (6 * m div 8)))" unfolding n by simp
    show ?thesis using Three.prems unfolding d unfolding n
      by (simp add: b64_encode_groups decode_step Let_def b64_group_out Three.IH del: b64_encode_impl.simps b64_decode_loop.simps(2))
  qed
next
  case (One x)
  then consider "n = 0" | "n = 1" | "n = 2" by (fastforce simp: b64_encode_groups simp del: b64_encode_impl.simps b64_decode_loop.simps(2))
  then show ?case using One
    by cases (simp_all add: b64_encode_groups decode_step Let_def b64_group_out del: b64_encode_impl.simps b64_decode_loop.simps(2))
next
  case (Two x y)
  then consider "n = 0" | "n = 1" | "n = 2" | "n = 3" by (fastforce simp: b64_encode_groups simp del: b64_encode_impl.simps b64_decode_loop.simps(2))
  then show ?case using Two
    by cases (simp_all add: b64_encode_groups decode_step Let_def b64_group_out del: b64_encode_impl.simps b64_decode_loop.simps(2))
qed simp


lemma decode_cut:
  "base64_decode (take k (b64_encode_impl abc pad xs)) om =
     (let n = min k ((4 * length xs + 2) div 3) in if 6 * n div 8 \<le> om then take (6 * n div 8) xs else [])"
proof -
  obtain ps where ps: "b64_encode_impl abc True xs = b64_encode_impl abc False xs @ ps" "set ps \<subseteq> {CHR ''=''}"
    using b64_encode_pad [of abc xs] by blast
  define n where "n = min k ((4 * length xs + 2) div 3)"
  define l where "l = length (b64_encode_impl abc False xs)"
  have n: "take n (b64_encode_impl abc False xs) = take k (b64_encode_impl abc False xs)"
    unfolding n_def b64_encode_length(1) [of abc xs, symmetric] by (simp add: min_def)
  have "take k (b64_encode_impl abc pad xs) =
      take n (b64_encode_impl abc False xs) @ (if pad then take (k - l) ps else [])"
    unfolding n l_def by (cases pad) (simp_all only: ps(1) take_append if_True if_False append_Nil2)
  moreover have "set (if pad then take (k - l) ps else []) \<subseteq> {CHR ''=''}"
    using ps(2) set_take_subset [of "k - l" ps] by auto
  ultimately have "\<exists>qs. take k (b64_encode_impl abc pad xs) = take n (b64_encode_impl abc False xs) @ qs \<and>
      set qs \<subseteq> {CHR ''=''}" by blast
  then obtain qs where qs: "take k (b64_encode_impl abc pad xs) = take n (b64_encode_impl abc False xs) @ qs"
    "set qs \<subseteq> {CHR ''=''}" by blast
  have "b64_val (CHR ''='') < 0" by code_simp
  with qs(2) have neg: "\<forall>c\<in>set qs. b64_val c < 0" by blast
  have "n \<le> length (b64_encode_impl abc False xs)" unfolding b64_encode_length n_def by (rule min.cobounded2)
  from decode_prefix [OF this, of "[]" om 0] show ?thesis
    unfolding base64_decode_def qs(1) b64_decode_skip [OF neg] Let_def n_def [symmetric] by simp
qed

lemma decode_encode:
  "base64_decode (b64_encode_impl abc pad xs) om = (if length xs \<le> om then xs else [])"
proof -
  let ?n = "(4 * length xs + 2) div 3"
  have "6 * ?n div 8 = length xs" by presburger
  moreover have "?n \<le> length (b64_encode_impl abc pad xs)"
    by (cases pad) (simp_all add: b64_encode_length)
  ultimately show ?thesis
    using decode_cut [of "length (b64_encode_impl abc pad xs)" pad xs om] by (simp add: Let_def min_absorb2)
qed

end

interpretation std: b64_alphabet B64_STD
proof
  have "\<forall>i<64. b64_val (B64_STD ! i) = int i" by code_simp
  then show "i < 64 \<Longrightarrow> b64_val (B64_STD ! i) = int i" for i by blast
qed

interpretation url: b64_alphabet B64_URL
proof
  have "\<forall>i<64. b64_val (B64_URL ! i) = int i" by code_simp
  then show "i < 64 \<Longrightarrow> b64_val (B64_URL ! i) = int i" for i by blast
qed

lemma base64_encode_length [len_simps]: "length (base64_encode xs) = 4 * ((length xs + 2) div 3)"
  by (simp add: base64_encode_def b64_encode_length)

lemma base64url_encode_length [len_simps]: "length (base64url_encode xs) = (4 * length xs + 2) div 3"
  by (simp add: base64url_encode_def b64_encode_length)

lemma base64_decode_length: "length (base64_decode cs om) \<le> om"
  by (simp add: base64_decode_def b64_decode_length)

lemma sextet_in: "length abc = 64 \<Longrightarrow> sextet abc v k \<in> set abc"
  using b64_digit_less [of v k] by (simp add: sextet_def b64_digit_def)

lemma b64_encode_set:
  "length abc = 64 \<Longrightarrow> set (b64_encode_impl abc pad xs) \<subseteq> set abc \<union> (if pad then {CHR ''=''} else {})"
  by (induction xs rule: b64_induct) (auto simp: b64_encode_groups sextet_in simp del: b64_encode_impl.simps(2))

lemma base64_encode_chars:
  "c \<in> set (base64_encode xs) \<Longrightarrow> \<not> pem_blank c \<and> c \<noteq> CHR ''-'' \<and> c \<noteq> NUL \<and> c \<noteq> QUOTE \<and> c \<noteq> BSLASH"
proof -
  have "\<forall>c\<in>set B64_STD \<union> {CHR ''=''}. \<not> pem_blank c \<and> c \<noteq> CHR ''-'' \<and> c \<noteq> NUL \<and> c \<noteq> QUOTE \<and> c \<noteq> BSLASH"
    by code_simp
  then show "c \<in> set (base64_encode xs) \<Longrightarrow> ?thesis"
    using b64_encode_set [of B64_STD True xs] by (auto simp: base64_encode_def B64_STD_def)
qed

section \<open>PEM text\<close>

text \<open>The text both PEM writers of the firmware produce.\<close>

definition pem_block :: "string \<Rightarrow> bytes \<Rightarrow> string" where
  "pem_block label der =
     ''-----BEGIN '' @ label @ ''-----'' @ [LF]
     @ concat (map (\<lambda>l. l @ [LF]) (chunks 64 (base64_encode der)))
     @ ''-----END '' @ label @ ''-----'' @ [LF]"

lemma pem_collect_eq:
  "length b64 \<le> PEM_B64_CAP - 1 \<Longrightarrow>
   pem_collect b64 cs = b64 @ take (PEM_B64_CAP - 1 - length b64) (filter (\<lambda>c. \<not> pem_blank c) cs)"
proof (induction cs arbitrary: b64)
  case (Cons c cs)
  show ?case
  proof (cases "length b64 < PEM_B64_CAP - 1")
    case True
    then have "PEM_B64_CAP - 1 - length b64 = Suc (PEM_B64_CAP - 1 - length (b64 @ [c]))" by simp
    with True Cons.IH [of "b64 @ [c]"] Cons.IH [of b64] show ?thesis by simp
  qed (use Cons in simp)
qed simp

lemma filter_lines:
  "0 < n \<Longrightarrow> \<forall>c\<in>set xs. \<not> pem_blank c \<Longrightarrow>
   filter (\<lambda>c. \<not> pem_blank c) (concat (map (\<lambda>l. l @ [LF]) (chunks n xs))) = xs"
proof (induction n xs rule: chunks.induct)
  case (1 n xs)
  have "pem_blank LF" by (simp add: pem_blank_def)
  moreover have "\<forall>c\<in>set (take n xs). \<not> pem_blank c" "\<forall>c\<in>set (drop n xs). \<not> pem_blank c"
    using "1.prems"(2) by (auto dest: in_set_takeD in_set_dropD)
  ultimately show ?case
    using 1 by (cases "xs = []") (auto simp: chunks_step filter_id_conv)
qed

lemma b64_cut_arith: "6 * min 1023 ((4 * n + 2) div 3) div 8 = min 767 (n :: nat)"
proof (cases "767 \<le> n")
  case True
  then have "1023 \<le> (4 * n + 2) div 3" by presburger
  with True show ?thesis by (simp add: min_absorb1)
next
  case False
  then have "(4 * n + 2) div 3 \<le> 1023" by presburger
  then have "min 1023 ((4 * n + 2) div 3) = (4 * n + 2) div 3" by (rule min_absorb2)
  moreover have "6 * ((4 * n + 2) div 3) div 8 = n" by presburger
  ultimately show ?thesis using False by simp
qed

lemma pem_to_der_block_gen:
  assumes "NUL \<notin> set label" and "LF \<notin> set label"
  shows "pem_to_der (pem_block label der) om =
     (if min 767 (length der) \<le> om then take 767 der else [])"
proof -
  let ?b = "base64_encode der"
  let ?body = "concat (map (\<lambda>l. l @ [LF]) (chunks 64 ?b))"
  let ?tail = "'' '' @ label @ ''-----'' @ [LF]"
  have chars: "c \<in> set ?body \<Longrightarrow> c \<noteq> CHR ''-'' \<and> c \<noteq> NUL" for c
    using base64_encode_chars [of c der] chunks_set [of 64 _ ?b] by (auto split: if_splits)
  then have "NUL \<notin> set ?body" by blast
  with assms have "NUL \<notin> set (pem_block label der)"
    by (simp only: pem_block_def set_append) simp
  then have begin_p: "strstr (cstr (pem_block label der)) ''-----BEGIN'' = Some (pem_block label der)"
    using strstr_here [of "''-----BEGIN''" "drop 10 (pem_block label der)"] by (simp add: pem_block_def)
  have nl: "strchr (pem_block label der) LF = Some (LF # ?body @ ''-----END'' @ ?tail)"
    using strchr_skip [of LF "''-----BEGIN '' @ label @ ''-----''"] assms by (simp add: pem_block_def)
  have end_p: "strstr (?body @ ''-----END'' @ ?tail) ''-----END'' = Some (''-----END'' @ ?tail)"
    using strstr_skip [of "CHR ''-''" ?body "''----END''" ?tail] chars by auto
  have collect: "pem_collect [] ?body = take 1023 ?b"
    using pem_collect_eq [of "[]" ?body] filter_lines [of 64 ?b] base64_encode_chars [of _ der]
    by (simp add: PEM_B64_CAP_def)
  have "pem_to_der (pem_block label der) om = base64_decode (take 1023 ?b) om"
    unfolding pem_to_der_def begin_p option.case nl Let_def list.sel end_p by (simp add: collect)
  also have "\<dots> = (if min 767 (length der) \<le> om then take 767 der else [])"
    unfolding base64_encode_def std.decode_cut Let_def b64_cut_arith by (simp add: min_def)
  finally show ?thesis .
qed

section \<open>DER: reading back what was written\<close>

definition tlv :: "byte \<Rightarrow> bytes \<Rightarrow> bytes" where
  "tlv tag c = tag # asn1_len (length c) @ c"

lemma asn1_len_length [len_simps]:
  "length (asn1_len n) = (if n < 128 then 1 else if n < 256 then 2 else 3)"
  by (simp add: asn1_len_def)

lemma tlv_length [len_simps]: "length (tlv tag c) = 1 + length (asn1_len (length c)) + length c"
  by (simp add: tlv_def)

lemma asn1_seq_tlv: "asn1_seq c = tlv 0x30 c" and asn1_set_tlv: "asn1_set c = tlv 0x31 c"
  by (simp_all add: asn1_seq_def asn1_set_def tlv_def)

lemma asn1_walk_safe:
  assumes "e \<le> length buf"
  shows "\<exists>w. asn1_walk_next buf p e = Some w \<and>
    (case w of Null \<Rightarrow> True | Elem tag len v n \<Rightarrow> p < v \<and> n = v + len \<and> n \<le> e \<and> tag = buf ! p)"
  using assms by (auto simp: asn1_walk_next_def asn1_walk_finish_def Let_def mem_simps)

lemma asn1_walk_ElemD:
  assumes "e \<le> length buf" and "asn1_walk_next buf p e = Some (Elem tag len v n)"
  shows "p < v" and "n = v + len" and "n \<le> e"
  using asn1_walk_safe [OF assms(1), of p] assms(2) by auto

lemma high_bit_clear: "n < 128 \<Longrightarrow> (of_nat n :: byte) AND 0x80 = 0"
proof -
  assume n: "n < 128"
  have "bit n 7 \<longleftrightarrow> False" using n by (simp add: bit_iff_odd)
  then show ?thesis
    by (simp add: byte_eq_bits bit_simps)
qed


lemma rd_at: "drop p buf = x # xs \<Longrightarrow> rd buf p = Some x"
  by (auto simp: rd_def dest: drop_eq_ConsD)

lemma two_byte_len:
  assumes "n < 65536"
  shows "push_bit 8 (unat (of_nat (drop_bit 8 n) :: byte)) OR unat (of_nat (n AND 0xFF) :: byte) = n"
proof -
  have "n AND 0xFF = take_bit 8 n" by (simp add: take_bit_eq_mask mask_eq_exp_minus_1)
  moreover have "unat (of_nat (drop_bit 8 n) :: byte) = drop_bit 8 n"
    using assms by (simp add: unat_of_nat take_bit_eq_mod drop_bit_eq_div less_mult_imp_div_less)
  moreover have "unat (of_nat (take_bit 8 n) :: byte) = take_bit 8 n"
    by (simp add: unat_of_nat take_bit_eq_mod)
  moreover have "push_bit 8 (drop_bit 8 n) OR take_bit 8 n = n"
    by (rule bit_eqI) (auto simp: bit_simps)
  ultimately show ?thesis by simp
qed

lemma asn1_walk_tlv:
  assumes at: "drop p buf = tlv tag c @ rest"
    and fits: "p + length (tlv tag c) \<le> e" and small: "length c < 65536"
  shows "asn1_walk_next buf p e =
    Some (Elem tag (length c) (p + 1 + length (asn1_len (length c))) (p + length (tlv tag c)))"
proof -
  let ?n = "length c"
  from at have tag: "rd buf p = Some tag" by (simp add: tlv_def rd_at)
  from at have at1: "drop (Suc p) buf = asn1_len ?n @ c @ rest"
    by (metis append_assoc append_Cons drop_eq_ConsD tlv_def)
  consider "?n < 128" | "128 \<le> ?n" "?n < 256" | "256 \<le> ?n" by linarith
  then show ?thesis
  proof cases
    case 1
    then have "rd buf (Suc p) = Some (of_nat ?n)" using at1 by (simp add: asn1_len_def rd_at)
    moreover have "unat (of_nat ?n :: byte) = ?n" using 1 by (simp add: unat_of_nat take_bit_eq_mod)
    ultimately show ?thesis
      using 1 tag fits by (simp add: asn1_walk_next_def asn1_walk_finish_def high_bit_clear tlv_length asn1_len_length)
  next
    case 2
    then have l: "drop (Suc p) buf = 0x81 # of_nat ?n # c @ rest" using at1 by (simp add: asn1_len_def)
    then have "rd buf (Suc p) = Some 0x81" "rd buf (Suc (Suc p)) = Some (of_nat ?n)"
      by (simp_all add: rd_at drop_eq_ConsD [OF l] )
    moreover have "unat (of_nat ?n :: byte) = ?n" using 2 by (simp add: unat_of_nat take_bit_eq_mod)
    ultimately show ?thesis
      using 2 tag fits by (simp add: asn1_walk_next_def asn1_walk_finish_def tlv_length asn1_len_length)
  next
    case 3
    then have l: "drop (Suc p) buf = 0x82 # of_nat (drop_bit 8 ?n) # of_nat (?n AND 0xFF) # c @ rest"
      using at1 by (simp add: asn1_len_def)
    have l2: "drop (Suc (Suc p)) buf = of_nat (drop_bit 8 ?n) # of_nat (?n AND 0xFF) # c @ rest"
      using drop_eq_ConsD [OF l] by simp
    have "rd buf (Suc p) = Some 0x82" "rd buf (Suc (Suc p)) = Some (of_nat (drop_bit 8 ?n))"
      "rd buf (Suc (Suc (Suc p))) = Some (of_nat (?n AND 0xFF))"
      using rd_at [OF l] rd_at [OF l2] drop_eq_ConsD [OF l2] rd_at by auto
    then show ?thesis
      using 3 tag fits small
      by (simp add: asn1_walk_next_def asn1_walk_finish_def tlv_length asn1_len_length two_byte_len)
  qed
qed

lemma asn1_walk_slice:
  assumes "drop p buf = tlv tag c @ rest"
  shows "drop (p + 1 + length (asn1_len (length c))) buf = c @ rest"
    and "drop (p + length (tlv tag c)) buf = rest"
proof -
  have "drop (p + 1 + length (asn1_len (length c))) buf = drop (1 + length (asn1_len (length c))) (drop p buf)"
    by (simp add: add.commute)
  then show "drop (p + 1 + length (asn1_len (length c))) buf = c @ rest"
    using assms by (simp add: tlv_def)
  have "drop (p + length (tlv tag c)) buf = drop (length (tlv tag c)) (drop p buf)"
    by (simp add: add.commute)
  then show "drop (p + length (tlv tag c)) buf = rest" using assms by simp
qed


subsection \<open>A sequence of elements\<close>

lemma asn1_walk_progress:
  "asn1_walk_next buf p e = Some (Elem tag len v n) \<Longrightarrow> p < n \<and> n \<le> e"
  by (auto simp: asn1_walk_next_def asn1_walk_finish_def Let_def split: if_splits Option.bind_splits)

text \<open>The elements of a region, found by calling the reader until the region is used up.\<close>

function der_items :: "bytes \<Rightarrow> nat \<Rightarrow> nat \<Rightarrow> (byte \<times> bytes) list option" where
  "der_items buf p e =
     (if p = e then Some []
      else case asn1_walk_next buf p e of
          Some (Elem tag len v n) \<Rightarrow> map_option ((#) (tag, take len (drop v buf))) (der_items buf n e)
        | _ \<Rightarrow> None)"
  by pat_completeness auto
termination
  by (relation "measure (\<lambda>(buf, p, e). e - p)") (auto dest: asn1_walk_progress)

declare der_items.simps [simp del]

lemma der_items_tlvs:
  assumes "drop p buf = concat (map (\<lambda>(t, c). tlv t c) xs) @ rest"
    and "e = p + length (concat (map (\<lambda>(t, c). tlv t c) xs))"
    and "\<forall>(t, c) \<in> set xs. length c < 65536"
  shows "der_items buf p e = Some xs"
  using assms
proof (induction xs arbitrary: p)
  case Nil
  then show ?case by (simp add: der_items.simps)
next
  case (Cons x xs)
  obtain t c where x: "x = (t, c)" by (cases x)
  let ?more = "concat (map (\<lambda>(t, c). tlv t c) xs) @ rest"
  have at: "drop p buf = tlv t c @ ?more" using Cons.prems x by simp
  have walk: "asn1_walk_next buf p e =
      Some (Elem t (length c) (p + 1 + length (asn1_len (length c))) (p + length (tlv t c)))"
    using Cons.prems x by (intro asn1_walk_tlv [OF at]) auto
  have "der_items buf (p + length (tlv t c)) e = Some xs"
    using Cons.prems x asn1_walk_slice(2) [OF at] by (intro Cons.IH) auto
  moreover have "p \<noteq> e" using asn1_walk_progress [OF walk] by linarith
  ultimately show ?case
    using walk asn1_walk_slice(1) [OF at] x by (simp add: der_items.simps [of buf p e])
qed

subsection \<open>The contract of a DER writer\<close>

text \<open>
  What the certificate code relies on: a value written anywhere in an array and read there
  gives the tag and the content, and the reader stops right behind it. The laws are what
  \<open>asn1_seq\<close> and \<open>asn1_set\<close> promise; the client lemmas hold for both.
\<close>

locale der_writer =
  fixes wr :: "bytes \<Rightarrow> bytes" and tag :: byte
  assumes reads_back:
      "drop p buf = wr c @ rest \<Longrightarrow> p + length (wr c) \<le> e \<Longrightarrow> length c < 65536 \<Longrightarrow>
       \<exists>v. asn1_walk_next buf p e = Some (Elem tag (length c) v (p + length (wr c))) \<and> drop v buf = c @ rest"
    and overhead: "length (wr c) \<le> length c + 4"
begin

lemma reads_whole:
  "length c < 65536 \<Longrightarrow> \<exists>v. asn1_walk_next (wr c) 0 (length (wr c)) =
     Some (Elem tag (length c) v (length (wr c))) \<and> drop v (wr c) = c"
  using reads_back [of 0 "wr c" c "[]" "length (wr c)"] by simp

lemma reads_nested:
  assumes "length c < 65532"
  shows "\<exists>v w. asn1_walk_next (wr (wr c)) 0 (length (wr (wr c))) =
        Some (Elem tag (length (wr c)) v (length (wr (wr c)))) \<and>
      asn1_walk_next (wr (wr c)) v (length (wr (wr c))) =
        Some (Elem tag (length c) w (length (wr (wr c)))) \<and> drop w (wr (wr c)) = c"
proof -
  have l: "length (wr c) < 65536" using overhead [of c] assms by simp
  from reads_whole [OF l] obtain v where v:
    "asn1_walk_next (wr (wr c)) 0 (length (wr (wr c))) = Some (Elem tag (length (wr c)) v (length (wr (wr c))))"
    "drop v (wr (wr c)) = wr c" by blast
  have "length (wr (wr c)) = v + length (wr c)"
    using asn1_walk_ElemD(2) [OF _ v(1)] by simp
  with reads_back [of v "wr (wr c)" c "[]" "length (wr (wr c))"] v(2) assms
  show ?thesis using v(1) by auto
qed

end

interpretation seq_writer: der_writer asn1_seq "0x30"
proof
  fix p buf c rest e
  assume at: "drop p buf = asn1_seq c @ rest" and "p + length (asn1_seq c) \<le> e" "length c < 65536"
  then show "\<exists>v. asn1_walk_next buf p e = Some (Elem 0x30 (length c) v (p + length (asn1_seq c))) \<and> drop v buf = c @ rest"
    using asn1_walk_tlv [of p buf "0x30" c rest e] asn1_walk_slice(1) [of p buf "0x30" c rest]
    by (simp add: asn1_seq_tlv)
qed (simp add: asn1_seq_tlv tlv_length asn1_len_length)

interpretation set_writer: der_writer asn1_set "0x31"
proof
  fix p buf c rest e
  assume at: "drop p buf = asn1_set c @ rest" and "p + length (asn1_set c) \<le> e" "length c < 65536"
  then show "\<exists>v. asn1_walk_next buf p e = Some (Elem 0x31 (length c) v (p + length (asn1_set c))) \<and> drop v buf = c @ rest"
    using asn1_walk_tlv [of p buf "0x31" c rest e] asn1_walk_slice(1) [of p buf "0x31" c rest]
    by (simp add: asn1_set_tlv)
qed (simp add: asn1_set_tlv tlv_length asn1_len_length)

subsection \<open>INTEGER\<close>

text \<open>The value of big-endian bytes, unsigned and as the two's complement a DER INTEGER holds.\<close>

definition be_val :: "bytes \<Rightarrow> int" where
  "be_val bs = foldl (\<lambda>n b. 256 * n + int (unat b)) 0 bs"

definition der_int_val :: "bytes \<Rightarrow> int" where
  "der_int_val bs = (if bs \<noteq> [] \<and> hd bs AND 0x80 \<noteq> 0 then be_val bs - 256 ^ length bs else be_val bs)"

text \<open>X.690: the first nine bits of an INTEGER are not all equal.\<close>

definition der_int_minimal :: "bytes \<Rightarrow> bool" where
  "der_int_minimal bs \<longleftrightarrow> bs \<noteq> [] \<and>
     (2 \<le> length bs \<longrightarrow> \<not> (bs ! 0 = 0 \<and> bs ! 1 AND 0x80 = 0) \<and> \<not> (bs ! 0 = 0xFF \<and> bs ! 1 AND 0x80 \<noteq> 0))"

lemma asn1_int_tlv:
  assumes "val \<noteq> []"
  shows "asn1_int val = Some (tlv 0x02 (if hd val AND 0x80 \<noteq> 0 then 0x00 # val else val))"
  using assms by (cases val) (simp_all add: asn1_int_def rd_def tlv_def)

lemma be_val_zero: "be_val (0 # bs) = be_val bs"
  by (simp add: be_val_def)

section \<open>Properties of the codec layer\<close>

text \<open>(C27) Reading a DER value back: a SEQUENCE or a SET of any content below 64 KiB, written
  anywhere in an array, is read by \<open>asn1_walk_next\<close> with its tag, its length, a value position
  that holds exactly the content, and the position right behind it.\<close>

theorem der_write_then_walk:
  assumes "length c < 65536"
  shows "(\<exists>v. asn1_walk_next (pre @ asn1_seq c @ rest) (length pre) (length (pre @ asn1_seq c)) =
             Some (Elem 0x30 (length c) v (length (pre @ asn1_seq c))) \<and>
           take (length c) (drop v (pre @ asn1_seq c @ rest)) = c) \<and>
         (\<exists>v. asn1_walk_next (pre @ asn1_set c @ rest) (length pre) (length (pre @ asn1_set c)) =
             Some (Elem 0x31 (length c) v (length (pre @ asn1_set c))) \<and>
           take (length c) (drop v (pre @ asn1_set c @ rest)) = c)"
  using assms seq_writer.reads_back [of "length pre" "pre @ asn1_seq c @ rest" c rest "length (pre @ asn1_seq c)"]
    set_writer.reads_back [of "length pre" "pre @ asn1_set c @ rest" c rest "length (pre @ asn1_set c)"]
  by fastforce

theorem der_write_then_walk_witness:
  "\<exists>v. asn1_walk_next ([7] @ asn1_seq [1, 2, 3] @ [9]) (length [7 :: byte]) (length ([7] @ asn1_seq [1, 2, 3])) =
         Some (Elem 0x30 (length [1 :: byte, 2, 3]) v (length ([7] @ asn1_seq [1, 2, 3]))) \<and>
       take (length [1 :: byte, 2, 3]) (drop v ([7] @ asn1_seq [1, 2, 3] @ [9])) = [1, 2, 3]"
proof -
  have "length [1 :: byte, 2, 3] < 65536" by simp
  from der_write_then_walk [OF this, of "[7]" "[9]"] show ?thesis by (rule conjunct1)
qed

text \<open>(C28) The DER reader is memory safe on every input, well-formed or hostile: as long as the
  end it is given lies inside the array, it never reads outside the array, and when it returns an
  element, the value starts behind the start position, ends at the returned position, and that
  position is not behind the end.\<close>

theorem asn1_walk_in_bounds:
  assumes "e \<le> length buf"
  shows "asn1_walk_next buf p e = Some Null \<or>
    (\<exists>tag len v. asn1_walk_next buf p e = Some (Elem tag len v (v + len)) \<and> p < v \<and> v + len \<le> e)"
proof -
  obtain w where w: "asn1_walk_next buf p e = Some w"
    and ok: "case w of Null \<Rightarrow> True | Elem tag len v n \<Rightarrow> p < v \<and> n = v + len \<and> n \<le> e \<and> tag = buf ! p"
    using asn1_walk_safe [OF assms, of p] by blast
  then show ?thesis by (cases w) auto
qed

theorem asn1_walk_in_bounds_witness:
  "\<exists>tag len v. asn1_walk_next [0x30, 0x81, 0x02, 0x05, 0x06, 0xFF] 0 6 = Some (Elem tag len v (v + len)) \<and> 0 < v \<and> v + len \<le> 6"
proof -
  have "6 \<le> length [0x30 :: byte, 0x81, 0x02, 0x05, 0x06, 0xFF]" by simp
  moreover have "asn1_walk_next [0x30, 0x81, 0x02, 0x05, 0x06, 0xFF] 0 6 \<noteq> Some Null" by code_simp
  ultimately show ?thesis using asn1_walk_in_bounds [of 6 "[0x30, 0x81, 0x02, 0x05, 0x06, 0xFF]" 0] by blast
qed

text \<open>(C15) Base64 round trip for both alphabets: decoding what \<open>base64_encode\<close> (padded) or
  \<open>base64url_encode\<close> (unpadded) wrote gives the bytes back, and gives nothing exactly when they do
  not fit in the output array. The decoder's 32-bit register loses its high bits on the way; the
  theorem shows that this never matters.\<close>

theorem base64_roundtrip:
  "base64_decode (base64_encode xs) out_max = (if length xs \<le> out_max then xs else []) \<and>
   base64_decode (base64url_encode xs) out_max = (if length xs \<le> out_max then xs else [])"
  by (simp add: base64_encode_def base64url_encode_def std.decode_encode url.decode_encode)

text \<open>Sizes: the exact number of characters each encoder writes before its terminating NUL, and
  for every input text, valid or not, the decoder stores at most \<open>out_max\<close> bytes.\<close>

lemma base64_sizes:
  "length (base64_encode xs) = 4 * ((length xs + 2) div 3) \<and>
   length (base64url_encode xs) = (4 * length xs + 2) div 3 \<and>
   length (base64_decode cs out_max) \<le> out_max"
  by (simp add: base64_encode_length base64url_encode_length base64_decode_length)

text \<open>(C37) The INTEGER writer on a non-empty magnitude: the element read back has tag 2 and a content
  whose two's complement value is the unsigned value of the input, so no signature component turns
  negative. The content is the shortest one, as DER demands, exactly when the input does not start
  with a zero byte followed by a byte below 0x80.\<close>

theorem asn1_int_value:
  assumes "val \<noteq> []" and "length val < 65535"
  shows "\<exists>out c. asn1_int val = Some out \<and>
    der_items out 0 (length out) = Some [(0x02, c)] \<and> der_int_val c = be_val val \<and>
    (der_int_minimal c \<longleftrightarrow> \<not> (2 \<le> length val \<and> val ! 0 = 0 \<and> val ! 1 AND 0x80 = 0))"
proof -
  let ?c = "if hd val AND 0x80 \<noteq> 0 then 0x00 # val else val"
  have "der_items (tlv 0x02 ?c) 0 (length (tlv 0x02 ?c)) = Some [(0x02, ?c)]"
    using assms by (intro der_items_tlvs [of _ _ "[(0x02, ?c)]" "[]"]) auto
  moreover have "der_int_val ?c = be_val val"
    by (simp add: der_int_val_def be_val_zero)
  moreover have "der_int_minimal ?c \<longleftrightarrow> \<not> (2 \<le> length val \<and> val ! 0 = 0 \<and> val ! 1 AND 0x80 = 0)"
    using assms by (cases val) (auto simp: der_int_minimal_def)
  ultimately show ?thesis using asn1_int_tlv [OF assms(1)] by blast
qed

theorem asn1_int_value_witness:
  "\<exists>out c. asn1_int [0x00, 0x12, 0x34] = Some out \<and>
    der_items out 0 (length out) = Some [(0x02, c)] \<and> der_int_val c = be_val [0x00, 0x12, 0x34] \<and>
    \<not> der_int_minimal c"
proof -
  have "[0x00, 0x12, 0x34 :: byte] \<noteq> []" "length [0x00, 0x12, 0x34 :: byte] < 65535" by simp_all
  from asn1_int_value [OF this] show ?thesis by auto
qed

end
