(* ===== verification/Config.thy ===== *)
theory Config
  imports C_Library
begin

text \<open>
  The compile-time configuration, \<open>config.example.h\<close>. The values an operator fills in for one
  site or one device (credentials, addresses, the CN override, the sensor parameters, the
  diagnostic and test switches) are the fields of the record \<open>config\<close>, a parameter of the model;
  the other constants have the template's values. \<open>config_example\<close> is the template as committed.
\<close>

record emqx_endpoint =
  ep_ip :: string
  ep_port :: int

record config =
  WIFI_SSID :: string
  WIFI_PASS :: string
  STEP_CA_HOST_IP :: string
  STEP_CA_PORT :: int
  EMQX_ENDPOINTS :: "emqx_endpoint list"
  DEVICE_CN_OVERRIDE :: "string option"
  LIFETIME_MODE_TEST_EXPLICIT :: bool
  TEST_FOREIGN_TOPIC :: bool
  ENABLE_DIAG_STEPCA_PROBE :: bool
  ENABLE_DIAG_TLS_PROBE :: bool
  SENSOR_KEEP_SENS :: string
  SENSOR_TRIG_SENS :: string
  SENSOR_LATENCY_ON :: string
  SENSOR_LATENCY_OFF :: string
  SENSOR_RANGE_MIN :: string
  SENSOR_RANGE_MAX :: string
  SENSOR_TRIG_RANGE :: string

definition EMQX_ENDPOINT_COUNT :: "config \<Rightarrow> nat" where
  "EMQX_ENDPOINT_COUNT cfg = length (EMQX_ENDPOINTS cfg)"

definition config_example :: config where
  "config_example = \<lparr>
     WIFI_SSID = '''', WIFI_PASS = '''',
     STEP_CA_HOST_IP = '''', STEP_CA_PORT = 0,
     EMQX_ENDPOINTS = [\<lparr> ep_ip = '''', ep_port = 0 \<rparr>, \<lparr> ep_ip = '''', ep_port = 0 \<rparr>],
     DEVICE_CN_OVERRIDE = None,
     LIFETIME_MODE_TEST_EXPLICIT = False,
     TEST_FOREIGN_TOPIC = False,
     ENABLE_DIAG_STEPCA_PROBE = False,
     ENABLE_DIAG_TLS_PROBE = False,
     SENSOR_KEEP_SENS = ''2'', SENSOR_TRIG_SENS = ''3'',
     SENSOR_LATENCY_ON = ''0.1'', SENSOR_LATENCY_OFF = ''1.0'',
     SENSOR_RANGE_MIN = ''0.3'', SENSOR_RANGE_MAX = ''15.0'',
     SENSOR_TRIG_RANGE = ''15.0'' \<rparr>"

section \<open>step-ca\<close>

definition STEP_CA_SIGN_PATH :: string where "STEP_CA_SIGN_PATH = ''/1.0/sign''"
definition STEP_CA_REKEY_PATH :: string where "STEP_CA_REKEY_PATH = ''/1.0/rekey''"
definition STEP_CA_HEALTH_PATH :: string where "STEP_CA_HEALTH_PATH = ''/health''"
definition STEP_CA_AUDIENCE_BASE :: string where
  "STEP_CA_AUDIENCE_BASE = ''https://step-ca.gikview.svc.cluster.local/1.0/sign''"
definition PROV_BOOTSTRAP :: string where "PROV_BOOTSTRAP = ''device-bootstrap''"
definition PROV_RENEWAL :: string where "PROV_RENEWAL = ''device-renewal''"

section \<open>Lifetimes and intervals\<close>

definition CERT_LIFETIME_TEST_SEC :: int where "CERT_LIFETIME_TEST_SEC = 600"
definition RENEW_BEFORE_SEC :: int where "RENEW_BEFORE_SEC = 604800"
definition PUBLISH_INTERVAL_MS :: u32 where "PUBLISH_INTERVAL_MS = 5000"
definition RENEW_CHECK_INTV_MS :: u32 where "RENEW_CHECK_INTV_MS = 3600000"
definition WIFI_ASSOC_TIMEOUT_MS :: u32 where "WIFI_ASSOC_TIMEOUT_MS = 8000"
definition WIFI_BACKOFF_REBOOT_MS :: nat where "WIFI_BACKOFF_REBOOT_MS = 30000"
definition MQTT_DOWN_REBOOT_MS :: u32 where "MQTT_DOWN_REBOOT_MS = 300000"
definition WIFI_REBOOT_JITTER_MS :: nat where "WIFI_REBOOT_JITTER_MS = 15000"

section \<open>Topics and paths\<close>

definition FOREIGN_DEVICE_ID :: string where "FOREIGN_DEVICE_ID = ''device-ffffff''"

text \<open>\<open>MQTT_TOPIC_FMT\<close> is \<open>sensors/%s/occupancy\<close>.\<close>

definition MQTT_TOPIC_FMT :: "string \<Rightarrow> string" where
  "MQTT_TOPIC_FMT cn = ''sensors/'' @ cn @ ''/occupancy''"

type_synonym path = string

definition PATH_CA_CERT :: path where "PATH_CA_CERT = ''/ca-cert.pem''"
definition PATH_BS_CERT :: path where "PATH_BS_CERT = ''/bootstrap-cert.pem''"
definition PATH_BS_KEY :: path where "PATH_BS_KEY = ''/bootstrap-key.pem''"
definition PATH_DEV_CERT :: path where "PATH_DEV_CERT = ''/device-cert.pem''"
definition PATH_DEV_CHAIN :: path where "PATH_DEV_CHAIN = ''/device-chain.pem''"
definition PATH_DEV_KEY :: path where "PATH_DEV_KEY = ''/device-key.pem''"
definition PATH_DEV_EXP :: path where "PATH_DEV_EXP = ''/device-cert-exp''"

lemmas path_defs = PATH_CA_CERT_def PATH_BS_CERT_def PATH_BS_KEY_def PATH_DEV_CERT_def
  PATH_DEV_CHAIN_def PATH_DEV_KEY_def PATH_DEV_EXP_def

section \<open>Device name\<close>

text \<open>\<open>DEVICE_CN_OVERRIDE && DEVICE_CN_OVERRIDE[0]\<close>; the other name comes from the MAC
  address. \<open>derive_cn\<close> and \<open>gen_keypair_and_csr\<close> format the name the same way.\<close>

definition cn_override :: "config \<Rightarrow> string option" where
  "cn_override cfg =
     (case DEVICE_CN_OVERRIDE cfg of None \<Rightarrow> None
      | Some s \<Rightarrow> if s \<noteq> [] \<and> hd s \<noteq> NUL then Some s else None)"

definition cn_from_mac :: "bytes \<Rightarrow> string option" where
  "cn_from_mac m = do {
     a \<leftarrow> rd m 3; b \<leftarrow> rd m 4; c \<leftarrow> rd m 5;
     Some (''device-'' @ fmt_0x 2 (unat a) @ fmt_0x 2 (unat b) @ fmt_0x 2 (unat c))
   }"

definition cn_text :: "config \<Rightarrow> bytes \<Rightarrow> string option" where
  "cn_text cfg m = (case cn_override cfg of Some s \<Rightarrow> Some s | None \<Rightarrow> cn_from_mac m)"

lemma cn_text_ok:
  assumes "6 \<le> length m"
  shows "\<exists>t. cn_text cfg m = Some t \<and> t \<noteq> [] \<and> hd t \<noteq> NUL"
  using assms by (auto simp: cn_text_def cn_override_def cn_from_mac_def mem_simps split: option.splits if_splits)

lemma snprintf_str_not_Nil: "t \<noteq> [] \<Longrightarrow> hd t \<noteq> NUL \<Longrightarrow> 1 < cap \<Longrightarrow> snprintf_str cap t \<noteq> []"
  by (cases t; cases cap; cases "cap - 1") (auto simp: snprintf_str_def snprintf_buf_def cstr_def)

end
