(* ===== verification/Json_Text.thy ===== *)
theory Json_Text
  imports C_Library
begin

text \<open>
  A reader for JSON texts after RFC 8259, independent of the firmware: it is the other side's view of
  the requests, token segments and payloads the firmware formats by hand. It is strict: a control
  character inside a string, an unknown escape, a number with a leading zero or anything behind the
  value is refused. It knows no blanks between tokens, no fractions, no \<open>null\<close> and no numeric escapes,
  which the firmware never writes; a text it accepts is a JSON text with that meaning. The writer
  \<open>render\<close> only serves the proofs: what it writes the reader reads back.
\<close>

section \<open>Values and the reader\<close>

datatype json =
    JBool bool
  | JInt int
  | JStr string
  | JArr "json list"
  | JObj "(string \<times> json) list"

definition is_control :: "char \<Rightarrow> bool" where
  "is_control c \<longleftrightarrow> (of_char c :: nat) < 32"

definition unescape :: "char \<Rightarrow> char option" where
  "unescape e =
     (if e = QUOTE \<or> e = BSLASH \<or> e = CHR ''/'' then Some e
      else if e = CHR ''n'' then Some LF
      else if e = CHR ''r'' then Some CR
      else if e = CHR ''t'' then Some TAB
      else if e = CHR ''b'' then Some (CHR 0x08)
      else if e = CHR ''f'' then Some (CHR 0x0C)
      else None)"

text \<open>The characters of a string behind its opening quote, and the text behind the closing one.\<close>

fun read_chars :: "string \<Rightarrow> (string \<times> string) option" where
  "read_chars [] = None"
| "read_chars (c # cs) =
     (if c = QUOTE then Some ([], cs)
      else if c = BSLASH then
        (case cs of
           [] \<Rightarrow> None
         | e # ds \<Rightarrow>
             (case unescape e of
                None \<Rightarrow> None
              | Some x \<Rightarrow> map_option (\<lambda>(s, r). (x # s, r)) (read_chars ds)))
      else if is_control c then None
      else map_option (\<lambda>(s, r). (c # s, r)) (read_chars cs))"

definition read_number :: "string \<Rightarrow> (nat \<times> string) option" where
  "read_number s =
     (let ds = takeWhile is_digit s in
      if ds = [] \<or> hd ds = CHR ''0'' \<and> tl ds \<noteq> [] then None
      else Some (digits_val ds, dropWhile is_digit s))"

text \<open>Every call behind a bracket has consumed a character, so the length of the text is enough fuel.\<close>

fun read_value :: "nat \<Rightarrow> string \<Rightarrow> (json \<times> string) option"
and read_elems :: "nat \<Rightarrow> string \<Rightarrow> (json list \<times> string) option"
and read_fields :: "nat \<Rightarrow> string \<Rightarrow> ((string \<times> json) list \<times> string) option" where
  "read_value 0 s = None"
| "read_value (Suc n) s =
     (case s of
        [] \<Rightarrow> None
      | c # cs \<Rightarrow>
          if c = QUOTE then map_option (\<lambda>(x, r). (JStr x, r)) (read_chars cs)
          else if c = CHR ''{'' then
            if prefix_of ''}'' cs then Some (JObj [], tl cs)
            else map_option (\<lambda>(fs, r). (JObj fs, r)) (read_fields n cs)
          else if c = CHR ''['' then
            if prefix_of '']'' cs then Some (JArr [], tl cs)
            else map_option (\<lambda>(js, r). (JArr js, r)) (read_elems n cs)
          else if prefix_of ''true'' s then Some (JBool True, drop 4 s)
          else if prefix_of ''false'' s then Some (JBool False, drop 5 s)
          else if c = CHR ''-'' then map_option (\<lambda>(k, r). (JInt (- int k), r)) (read_number cs)
          else map_option (\<lambda>(k, r). (JInt (int k), r)) (read_number s))"
| "read_elems 0 s = None"
| "read_elems (Suc n) s = do {
     (j, r) \<leftarrow> read_value n s;
     if prefix_of '','' r then map_option (\<lambda>(js, r). (j # js, r)) (read_elems n (tl r))
     else if prefix_of '']'' r then Some ([j], tl r)
     else None
   }"
| "read_fields 0 s = None"
| "read_fields (Suc n) s =
     (if prefix_of [QUOTE] s then do {
        (k, r) \<leftarrow> read_chars (tl s);
        if prefix_of '':'' r then do {
          (j, r) \<leftarrow> read_value n (tl r);
          if prefix_of '','' r then map_option (\<lambda>(fs, r). ((k, j) # fs, r)) (read_fields n (tl r))
          else if prefix_of ''}'' r then Some ([(k, j)], tl r)
          else None
        } else None
      } else None)"

definition json_of :: "string \<Rightarrow> json option" where
  "json_of s = (case read_value (length s) s of Some (j, []) \<Rightarrow> Some j | _ \<Rightarrow> None)"

section \<open>The writer\<close>

definition escape :: "char \<Rightarrow> string" where
  "escape c =
     (if c = QUOTE \<or> c = BSLASH then [BSLASH, c]
      else if c = LF then [BSLASH, CHR ''n'']
      else if c = CR then [BSLASH, CHR ''r'']
      else if c = TAB then [BSLASH, CHR ''t'']
      else [c])"

definition render_str :: "string \<Rightarrow> string" where
  "render_str s = QUOTE # concat (map escape s) @ [QUOTE]"

fun commas :: "string list \<Rightarrow> string" where
  "commas [] = []"
| "commas [x] = x"
| "commas (x # y # zs) = x @ '','' @ commas (y # zs)"

fun render :: "json \<Rightarrow> string" where
  "render (JBool b) = (if b then ''true'' else ''false'')"
| "render (JInt i) = fmt_d i"
| "render (JStr s) = render_str s"
| "render (JArr js) = ''['' @ commas (map render js) @ '']''"
| "render (JObj fs) = ''{'' @ commas (map (\<lambda>(k, j). render_str k @ '':'' @ render j) fs) @ ''}''"

definition text_ok :: "string \<Rightarrow> bool" where
  "text_ok s \<longleftrightarrow> (\<forall>c \<in> set s. \<not> is_control c \<or> c \<in> {LF, CR, TAB})"

fun json_ok :: "json \<Rightarrow> bool" where
  "json_ok (JStr s) = text_ok s"
| "json_ok (JArr js) = (\<forall>j \<in> set js. json_ok j)"
| "json_ok (JObj fs) = (\<forall>f \<in> set fs. text_ok (fst f) \<and> json_ok (snd f))"
| "json_ok _ = True"

section \<open>Reading back\<close>

lemma read_chars_one:
  "\<not> is_control c \<or> c \<in> {LF, CR, TAB} \<Longrightarrow> read_chars (escape c @ r) = map_option (\<lambda>(s, r). (c # s, r)) (read_chars r)"
  by (auto simp: escape_def unescape_def is_control_def)

lemma read_chars_escape:
  "text_ok s \<Longrightarrow> read_chars (concat (map escape s) @ QUOTE # rest) = Some (s, rest)"
proof (induction s)
  case (Cons c s)
  then have "read_chars (concat (map escape s) @ QUOTE # rest) = Some (s, rest)" "\<not> is_control c \<or> c \<in> {LF, CR, TAB}"
    by (simp_all add: text_ok_def)
  then show ?case by (simp add: read_chars_one)
qed simp

lemma fmt_u_no_leading_zero: "hd (fmt_u n) = CHR ''0'' \<Longrightarrow> tl (fmt_u n) = []"
  unfolding fmt_u_def
proof (induction "10 :: nat" n rule: radix_str.induct)
  case (1 n)
  show ?case
  proof (cases "n < 10")
    case False
    have ne: "radix_str 10 (n div 10) \<noteq> []" by (rule radix10_not_Nil)
    have r: "radix_str 10 n = radix_str 10 (n div 10) @ [digit_chr (n mod 10)]" using False by (simp add: radix_str_step)
    then have h: "hd (radix_str 10 (n div 10)) = CHR ''0''" using 1(2) ne by simp
    then have "tl (radix_str 10 (n div 10)) = []" using 1(1) False by simp
    then have "radix_str 10 (n div 10) = [CHR ''0'']" using h ne by (metis list.collapse)
    then have "n div 10 = 0" using radix10_val [of "n div 10"] by simp
    then show ?thesis using False by simp
  qed (simp add: radix_str_small)
qed

lemma read_number_fmt_u:
  assumes "rest = [] \<or> \<not> is_digit (hd rest)"
  shows "read_number (fmt_u n @ rest) = Some (n, rest)"
proof -
  have d: "\<forall>c \<in> set (fmt_u n). is_digit c" using radix10_digits by (simp add: fmt_u_def)
  have t: "takeWhile is_digit (fmt_u n @ rest) = fmt_u n" "dropWhile is_digit (fmt_u n @ rest) = rest"
    using d assms by (cases rest; simp)+
  show ?thesis
    using fmt_u_no_leading_zero [of n] radix10_not_Nil [of n]
    by (simp add: read_number_def t digits_val_fmt_u Let_def) (simp add: fmt_u_def)
qed

lemma render_not_Nil: "render j \<noteq> []"
  by (cases j) (auto simp: fmt_d_def fmt_u_def radix10_not_Nil render_str_def)

lemma is_digit_not: "is_digit c \<Longrightarrow> c \<noteq> QUOTE \<and> c \<noteq> CHR ''{'' \<and> c \<noteq> CHR ''['' \<and> c \<noteq> CHR ''t'' \<and> c \<noteq> CHR ''f'' \<and> c \<noteq> CHR ''-''"
  by (auto simp: is_digit_def)

lemma read_value_int:
  assumes "rest = [] \<or> \<not> is_digit (hd rest)"
  shows "read_value (Suc n) (fmt_d i @ rest) = Some (JInt i, rest)"
proof (cases "i < 0")
  case True
  then show ?thesis using read_number_fmt_u [OF assms, of "nat (- i)"] by (simp add: fmt_d_def)
next
  case False
  then obtain c cs where c: "fmt_d i = c # cs" "is_digit c"
    using fmt_u_hd [of "nat i"] radix10_not_Nil [of "nat i"] by (cases "fmt_u (nat i)") (auto simp: fmt_d_def fmt_u_def)
  then show ?thesis
    using False is_digit_not [OF c(2)] read_number_fmt_u [OF assms, of "nat i"] by (auto simp: fmt_d_def)
qed

text \<open>What the induction needs of one value.\<close>

definition reads :: "json \<Rightarrow> bool" where
  "reads j \<longleftrightarrow> (\<forall>n rest. length (render j) \<le> n \<longrightarrow> rest = [] \<or> \<not> is_digit (hd rest) \<longrightarrow>
     read_value n (render j @ rest) = Some (j, rest))"

lemma readsI:
  "(\<And>n rest. length (render j) \<le> n \<Longrightarrow> rest = [] \<or> \<not> is_digit (hd rest) \<Longrightarrow> read_value n (render j @ rest) = Some (j, rest)) \<Longrightarrow> reads j"
  unfolding reads_def by (intro allI impI) simp

lemma readsD: "reads j \<Longrightarrow> length (render j) \<le> n \<Longrightarrow> \<not> is_digit d \<Longrightarrow> read_value n (render j @ d # rest) = Some (j, d # rest)"
  by (simp add: reads_def)

lemma not_digit: "\<not> is_digit (CHR '','')" "\<not> is_digit (CHR '']'')" "\<not> is_digit (CHR ''}'')"
  by (simp_all add: is_digit_def)

lemma read_elems_render:
  "js \<noteq> [] \<Longrightarrow> \<forall>j \<in> set js. reads j \<Longrightarrow> length (commas (map render js)) < n \<Longrightarrow>
   read_elems n (commas (map render js) @ CHR '']'' # rest) = Some (js, rest)"
proof (induction js arbitrary: n)
  case (Cons j js)
  obtain m where n: "n = Suc m" using Cons.prems(3) by (cases n) auto
  have j: "reads j" using Cons.prems(2) by simp
  show ?case
  proof (cases js)
    case Nil
    then show ?thesis using readsD [OF j _ not_digit(2)] Cons.prems(3) n by simp
  next
    case js: (Cons k ks)
    have "0 < length (render j)" using render_not_Nil by simp
    then have "length (commas (map render js)) < m" "length (render j) \<le> m" using Cons.prems(3) n js by auto
    then show ?thesis using readsD [OF j _ not_digit(1)] Cons.IH [of m] Cons.prems(2) n js by simp
  qed
qed simp

lemma read_fields_render:
  "fs \<noteq> [] \<Longrightarrow> \<forall>f \<in> set fs. text_ok (fst f) \<and> reads (snd f) \<Longrightarrow>
   length (commas (map (\<lambda>(k, j). render_str k @ '':'' @ render j) fs)) < n \<Longrightarrow>
   read_fields n (commas (map (\<lambda>(k, j). render_str k @ '':'' @ render j) fs) @ CHR ''}'' # rest) = Some (fs, rest)"
proof (induction fs arbitrary: n)
  case (Cons f fs)
  obtain m where n: "n = Suc m" using Cons.prems(3) by (cases n) auto
  obtain k j where f: "f = (k, j)" by (cases f)
  have j: "reads j" and k: "text_ok k" using Cons.prems(2) f by auto
  note rk = read_chars_escape [OF k]
  show ?case
  proof (cases fs)
    case Nil
    then show ?thesis using readsD [OF j _ not_digit(3)] Cons.prems(3) n f by (simp add: render_str_def rk)
  next
    case fs: (Cons g gs)
    have "length (commas (map (\<lambda>(k, j). render_str k @ '':'' @ render j) fs)) < m" "length (render j) \<le> m"
      using Cons.prems(3) n fs f by (auto simp: render_str_def)
    then show ?thesis
      using readsD [OF j _ not_digit(1)] Cons.IH [of m] Cons.prems(2) n fs f by (simp add: render_str_def rk)
  qed
qed simp

lemma commas_Cons: "commas (x # xs) = x @ (if xs = [] then [] else '','' @ commas xs)"
  by (cases xs) simp_all

lemma render_hd: "\<exists>c cs. render j = c # cs \<and> c \<noteq> CHR '']''"
proof (cases j)
  case (JInt i)
  obtain c cs where "render j = c # cs" using render_not_Nil [of j] by (cases "render j") auto
  moreover have "is_digit (hd (fmt_u n))" for n by (rule fmt_u_hd)
  then have "hd (fmt_u n) \<noteq> CHR '']''" for n using not_digit(2) by metis
  ultimately show ?thesis using JInt by (auto simp: fmt_d_def split: if_splits) (metis list.sel(1))
qed (auto simp: render_str_def)

lemma reads_JBool: "reads (JBool b)"
proof (rule readsI)
  fix n and rest :: string
  assume "length (render (JBool b)) \<le> n"
  then show "read_value n (render (JBool b) @ rest) = Some (JBool b, rest)" by (cases n; cases b) simp_all
qed

lemma reads_JInt: "reads (JInt i)"
proof (rule readsI)
  fix n and rest :: string
  assume n: "length (render (JInt i)) \<le> n" and rest: "rest = [] \<or> \<not> is_digit (hd rest)"
  have "0 < length (render (JInt i))" using render_not_Nil [of "JInt i"] by (simp only: length_greater_0_conv not_False_eq_True)
  then obtain m where "n = Suc m" using n by (cases n) simp_all
  then show "read_value n (render (JInt i) @ rest) = Some (JInt i, rest)"
    using read_value_int [OF rest, of m i] by (simp only: render.simps)
qed

lemma reads_JStr: "text_ok s \<Longrightarrow> reads (JStr s)"
proof (rule readsI)
  fix n rest
  assume "text_ok s" "length (render (JStr s)) \<le> n"
  then show "read_value n (render (JStr s) @ rest) = Some (JStr s, rest)"
    by (cases n) (simp_all add: render_str_def read_chars_escape)
qed

lemma reads_JArr:
  assumes "\<forall>j \<in> set js. reads j"
  shows "reads (JArr js)"
proof (rule readsI)
  fix n rest
  assume n: "length (render (JArr js)) \<le> n"
  obtain m where m: "n = Suc m" using n by (cases n) simp_all
  show "read_value n (render (JArr js) @ rest) = Some (JArr js, rest)"
  proof (cases js)
    case Nil
    then show ?thesis using m by simp
  next
    case (Cons k ks)
    have "length (commas (map render js)) < m" using n m by simp
    then have r: "read_elems m (commas (map render js) @ CHR '']'' # rest) = Some (js, rest)"
      using read_elems_render [OF _ assms, of m rest] Cons by simp
    obtain c cs where c: "render k = c # cs" "c \<noteq> CHR '']''" using render_hd by blast
    obtain t where "commas (map render js) @ CHR '']'' # rest = c # t" using c(1) Cons by (simp add: commas_Cons)
    then show ?thesis using r c(2) m by simp
  qed
qed

lemma reads_JObj:
  assumes "\<forall>f \<in> set fs. text_ok (fst f) \<and> reads (snd f)"
  shows "reads (JObj fs)"
proof (rule readsI)
  fix n rest
  let ?g = "\<lambda>(k, j). render_str k @ '':'' @ render j"
  assume n: "length (render (JObj fs)) \<le> n"
  obtain m where m: "n = Suc m" using n by (cases n) simp_all
  show "read_value n (render (JObj fs) @ rest) = Some (JObj fs, rest)"
  proof (cases fs)
    case Nil
    then show ?thesis using m by simp
  next
    case (Cons f gs)
    have "length (commas (map ?g fs)) < m" using n m by simp
    then have r: "read_fields m (commas (map ?g fs) @ CHR ''}'' # rest) = Some (fs, rest)"
      using read_fields_render [OF _ assms, of m rest] Cons by simp
    obtain t where "commas (map ?g fs) @ CHR ''}'' # rest = QUOTE # t"
      using Cons by (cases f) (simp add: commas_Cons render_str_def)
    then show ?thesis using r m by simp
  qed
qed

lemma reads_render: "json_ok j \<Longrightarrow> reads j"
proof (induction j)
  case (JObj fs)
  then show ?case by (intro reads_JObj) (auto simp: snds.simps)
qed (simp_all add: reads_JBool reads_JInt reads_JStr reads_JArr)

text \<open>What the writer writes is read as the value it wrote.\<close>

lemma json_of_render: "json_ok j \<Longrightarrow> json_of (render j) = Some j"
proof -
  assume "json_ok j"
  then have "reads j" by (rule reads_render)
  then have "read_value (length (render j)) (render j @ []) = Some (j, [])" unfolding reads_def by blast
  then show ?thesis by (simp add: json_of_def del: read_value.simps)
qed

section \<open>Text that needs no escape\<close>

definition bare :: "string \<Rightarrow> bool" where
  "bare s \<longleftrightarrow> (\<forall>c \<in> set s. \<not> is_control c \<and> c \<noteq> QUOTE \<and> c \<noteq> BSLASH)"

lemma bare_text_ok: "bare s \<Longrightarrow> text_ok s"
  by (simp add: bare_def text_ok_def)

lemma escape_bare: "\<not> is_control c \<Longrightarrow> c \<noteq> QUOTE \<Longrightarrow> c \<noteq> BSLASH \<Longrightarrow> escape c = [c]"
proof -
  have "is_control LF" "is_control CR" "is_control TAB" by (simp_all add: is_control_def)
  moreover assume "\<not> is_control c" "c \<noteq> QUOTE" "c \<noteq> BSLASH"
  ultimately have "c \<noteq> LF" "c \<noteq> CR" "c \<noteq> TAB" by blast+
  then show ?thesis using \<open>c \<noteq> QUOTE\<close> \<open>c \<noteq> BSLASH\<close> by (simp only: escape_def if_False simp_thms)
qed

lemma render_str_bare: "bare s \<Longrightarrow> render_str s = [QUOTE] @ s @ [QUOTE]"
proof -
  assume b: "bare s"
  have e: "escape c = [c]" if "c \<in> set s" for c using b that by (intro escape_bare) (simp_all add: bare_def)
  have m: "map escape s = map (\<lambda>c. [c]) s" by (rule map_cong [OF refl e])
  show ?thesis unfolding render_str_def m by simp
qed

lemma bare_append [simp]: "bare (s @ t) \<longleftrightarrow> bare s \<and> bare t"
  by (auto simp: bare_def)

lemma bare_subset: "set s \<subseteq> set t \<Longrightarrow> bare t \<Longrightarrow> bare s"
  by (auto simp: bare_def)

lemma bare_digits: "2 \<le> b \<Longrightarrow> b \<le> 16 \<Longrightarrow> bare (radix_str b n)"
proof (induction b n rule: radix_str.induct)
  case (1 b n)
  have d: "bare [digit_chr d]" if "d < 16" for d
  proof -
    have "(of_char (digit_chr d) :: nat) = (if d < 10 then 48 + d else 87 + d)" using that by (simp add: digit_chr_def)
    then have "48 \<le> (of_char (digit_chr d) :: nat)" "(of_char (digit_chr d) :: nat) \<noteq> 92" using that by (auto split: if_splits)
    then show ?thesis by (auto simp: bare_def is_control_def)
  qed
  have "n mod b < 16" using 1 by (intro less_le_trans [OF mod_less_divisor]) auto
  with 1 d show ?case by (cases "n < b") (auto simp: radix_str.simps [of b n])
qed

end
