(* ===== verification/Crypto_Pki.thy ===== *)
theory Crypto_Pki
  imports Crypto_Asn1 Config Json_Text
begin

unbundle bit_operations_syntax

text \<open>
  The X.509 layer, \<open>crypto_pki.cpp\<close>: the certificate signing request, the EC private key file,
  the X5C token, and the expiry time of an issued certificate. Every static array of the code is
  a \<open>put_buf\<close> with its size, so undefined behaviour is \<open>None\<close>. SHA-256 (BearSSL) and ECDSA
  signing (uECC) are not part of the repository: they are the fields of the record \<open>crypto\<close>.
\<close>

record crypto =
  sha256 :: "bytes \<Rightarrow> bytes"
  uECC_sign :: "bytes \<Rightarrow> bytes \<Rightarrow> bytes option"

text \<open>The documented size of a P-256 signature: two 32-byte numbers.\<close>

definition crypto_ok :: "crypto \<Rightarrow> bool" where
  "crypto_ok cr \<longleftrightarrow> (\<forall>d h s. uECC_sign cr d h = Some s \<longrightarrow> length s = 64)"

section \<open>Random bytes\<close>

text \<open>\<open>rng i\<close> is the \<open>i\<close>-th value read from \<open>RANDOM_REG32\<close>; the core is little-endian.\<close>

definition le_bytes :: "u32 \<Rightarrow> bytes" where
  "le_bytes r = [ucast r, ucast (drop_bit 8 r), ucast (drop_bit 16 r), ucast (drop_bit 24 r)]"

fun rng_loop :: "(nat \<Rightarrow> u32) \<Rightarrow> nat \<Rightarrow> nat \<Rightarrow> bytes" where
  "rng_loop rng i sz =
     (if sz = 0 then []
      else let n = (if sz < 4 then sz else 4)
           in take n (le_bytes (rng i)) @ rng_loop rng (Suc i) (sz - n))"

declare rng_loop.simps [simp del]

definition rng_func :: "(nat \<Rightarrow> u32) \<Rightarrow> nat \<Rightarrow> bytes" where
  "rng_func rng sz = rng_loop rng 0 sz"

section \<open>Certificate signing request\<close>

definition build_cri :: "nat \<Rightarrow> string \<Rightarrow> bytes \<Rightarrow> bytes option" where
  "build_cri out_cap cn pub_xy = do {
     let version = [0x02, 0x01, 0x00];
     inner \<leftarrow> put_buf 64 (OID_CN @ [0x0C] @ asn1_len (length cn) @ map byte_of cn);
     seq_buf \<leftarrow> put_buf 80 (asn1_seq inner);
     set_buf \<leftarrow> put_buf 80 (asn1_set seq_buf);
     algo \<leftarrow> put_buf 32 (OID_EC_PUBKEY @ OID_P256);
     algo_seq \<leftarrow> put_buf 40 (asn1_seq algo);
     xy \<leftarrow> rd_n 64 pub_xy;
     bs \<leftarrow> put_buf 68 ([0x00, 0x04] @ xy);
     bitstring \<leftarrow> put_buf 80 ([0x03] @ asn1_len 66 @ bs);
     spki \<leftarrow> put_buf 128 (algo_seq @ bitstring);
     buf \<leftarrow> put_buf 512 (version @ asn1_seq set_buf @ asn1_seq spki @ [0xA0, 0x00]);
     put_buf out_cap (asn1_seq buf)
   }"

text \<open>A failed signature makes the code return length 0, here the empty list.\<close>

definition build_csr :: "crypto \<Rightarrow> nat \<Rightarrow> string \<Rightarrow> bytes \<Rightarrow> bytes \<Rightarrow> bytes option" where
  "build_csr cr out_cap cn pub_xy priv_d = do {
     cri \<leftarrow> build_cri 512 cn pub_xy;
     let hash = sha256 cr cri;
     case uECC_sign cr priv_d hash of
       None \<Rightarrow> Some []
     | Some sig_raw \<Rightarrow> do {
         r \<leftarrow> rd_n 32 sig_raw;
         s \<leftarrow> rd_n 32 (drop 32 sig_raw);
         r_enc \<leftarrow> asn1_int r;
         r_int \<leftarrow> put_buf 40 r_enc;
         s_enc \<leftarrow> asn1_int s;
         s_int \<leftarrow> put_buf 40 s_enc;
         rs \<leftarrow> put_buf 80 (r_int @ s_int);
         sig_seq \<leftarrow> put_buf 100 (asn1_seq rs);
         sig_bs \<leftarrow> put_buf 110 (0x00 # sig_seq);
         sig_bitstring \<leftarrow> put_buf 120 ([0x03] @ asn1_len (length sig_seq + 1) @ sig_bs);
         algo_seq \<leftarrow> put_buf 20 (asn1_seq OID_ECDSA_SHA256);
         fi \<leftarrow> put_buf 700 (cri @ algo_seq @ sig_bitstring);
         put_buf out_cap (asn1_seq fi)
       }
   }"

section \<open>EC private key\<close>

definition build_ec_priv_der :: "nat \<Rightarrow> bytes \<Rightarrow> bytes \<Rightarrow> bytes option" where
  "build_ec_priv_der out_cap priv_d pub_xy = do {
     d \<leftarrow> rd_n 32 priv_d;
     xy \<leftarrow> rd_n 64 pub_xy;
     buf \<leftarrow> put_buf 200 ([0x02, 0x01, 0x01] @ [0x04, 0x20] @ d
              @ [0xA0, of_nat (length OID_P256)] @ OID_P256
              @ [0xA1, 68] @ [0x03, 66] @ [0x00, 0x04] @ xy);
     put_buf out_cap (asn1_seq buf)
   }"

text \<open>The search loop: \<open>i + 33 < der_len\<close> says that more than 33 bytes are left.\<close>

fun ec_priv_from_der :: "bytes \<Rightarrow> bytes option" where
  "ec_priv_from_der d =
     (if 33 < length d
      then if d ! 0 = 0x04 \<and> d ! 1 = 0x20 then Some (take 32 (drop 2 d)) else ec_priv_from_der (tl d)
      else None)"

declare ec_priv_from_der.simps [simp del]

section \<open>X5C token\<close>

definition x5c_header :: "string \<Rightarrow> string" where
  "x5c_header cert_b64 =
     ''{'' @ [QUOTE] @ ''alg'' @ [QUOTE] @ '':'' @ [QUOTE] @ ''ES256'' @ [QUOTE] @ '','' @ [QUOTE] @ ''typ'' @ [QUOTE]
     @ '':'' @ [QUOTE] @ ''JWT'' @ [QUOTE] @ '','' @ [QUOTE] @ ''x5c'' @ [QUOTE] @ '':['' @ [QUOTE] @ cert_b64
     @ [QUOTE] @ '']}''"

text \<open>\<open>now\<close> is cast to a 32-bit \<open>unsigned long\<close> before it is printed, \<open>now + 300\<close> after the
  addition.\<close>

definition jfield :: "string \<Rightarrow> string \<Rightarrow> string" where
  "jfield key val = [QUOTE] @ key @ [QUOTE] @ '':'' @ val"

definition jstr :: "string \<Rightarrow> string" where
  "jstr s = [QUOTE] @ s @ [QUOTE]"

definition x5c_payload :: "string \<Rightarrow> string \<Rightarrow> string \<Rightarrow> int \<Rightarrow> u32 \<Rightarrow> u32 \<Rightarrow> string" where
  "x5c_payload provisioner cn aud now r0 r1 =
     ''{'' @ jfield ''iss'' (jstr provisioner) @ '','' @ jfield ''sub'' (jstr cn) @ '',''
     @ jfield ''aud'' (jstr aud) @ '','' @ jfield ''sans'' (''['' @ jstr cn @ '']'') @ '',''
     @ jfield ''iat'' (fmt_u (ulong now)) @ '','' @ jfield ''nbf'' (fmt_u (ulong now)) @ '',''
     @ jfield ''exp'' (fmt_u (ulong (now + 300))) @ '',''
     @ jfield ''jti'' (jstr (fmt_0x 8 (unat r0) @ fmt_0x 8 (unat r1))) @ ''}''"

definition x5c_audience :: "string \<Rightarrow> string" where
  "x5c_audience provisioner = STEP_CA_AUDIENCE_BASE @ ''#x5c/'' @ provisioner"

text \<open>
  The outer option is undefined behaviour, the inner one the \<open>bool\<close> the code returns together
  with \<open>out_jwt\<close>. Each encoder also stores a terminating NUL.
\<close>

definition build_x5c_jwt ::
    "crypto \<Rightarrow> int \<Rightarrow> u32 \<Rightarrow> u32 \<Rightarrow> string \<Rightarrow> string \<Rightarrow> bytes \<Rightarrow> bytes \<Rightarrow> string option option" where
  "build_x5c_jwt cr now r0 r1 cn provisioner signer_cert_der signer_priv_d = do {
     cert_b64 \<leftarrow> put_buf 800 (base64_encode signer_cert_der @ [NUL]);
     let header_txt = x5c_header (cstr cert_b64);
     let header = snprintf_buf 1024 header_txt;
     let hlen = length header_txt;
     if hlen \<le> 0 then Some None else do {
       let aud = snprintf_str 160 (x5c_audience provisioner);
       let payload_txt = x5c_payload provisioner cn aud now r0 r1;
       let payload = snprintf_buf 512 payload_txt;
       let plen = length payload_txt;
       if plen \<le> 0 then Some None else do {
         h \<leftarrow> rd_n hlen header;
         hdr_b64 \<leftarrow> put_buf 1400 (base64url_encode (map byte_of h) @ [NUL]);
         p \<leftarrow> rd_n plen payload;
         pl_b64 \<leftarrow> put_buf 700 (base64url_encode (map byte_of p) @ [NUL]);
         let hash = sha256 cr (map byte_of (cstr hdr_b64 @ ''.'' @ cstr pl_b64));
         case uECC_sign cr signer_priv_d hash of
           None \<Rightarrow> Some None
         | Some sig_raw \<Rightarrow> do {
             s \<leftarrow> rd_n 64 sig_raw;
             sig_b64 \<leftarrow> put_buf 100 (base64url_encode s @ [NUL]);
             Some (Some (cstr hdr_b64 @ ''.'' @ cstr pl_b64 @ ''.'' @ cstr sig_b64))
           }
       }
     }
   }"

section \<open>Expiry time of a certificate\<close>

definition two_digits :: "bytes \<Rightarrow> nat \<Rightarrow> int" where
  "two_digits v i =
     (let p0 = int (unat (v ! i)); p1 = int (unat (v ! (i + 1))) in
      if p0 < 48 \<or> p0 > 57 \<or> p1 < 48 \<or> p1 > 57 then -1 else (p0 - 48) * 10 + (p1 - 48))"

text \<open>\<open>val\<close> and \<open>len\<close> delimit the value; the model passes the bytes between them.\<close>

definition parse_x509_time :: "bytes \<Rightarrow> byte \<Rightarrow> tm option" where
  "parse_x509_time v tag =
     (if tag = 0x17 then
        if length v < 13 \<or> v ! 12 \<noteq> byte_of (CHR ''Z'') then None
        else let yy = two_digits v 0 in
          if yy < 0 then None
          else let y = (if yy \<ge> 50 then 1900 + yy else 2000 + yy) - 1900;
                   mo = two_digits v 2; dd = two_digits v 4; hh = two_digits v 6;
                   mi = two_digits v 8; ss = two_digits v 10
               in if mo < 0 \<or> dd < 0 \<or> hh < 0 \<or> mi < 0 \<or> ss < 0 then None
                  else Some \<lparr> tm_year = y, tm_mon = mo - 1, tm_mday = dd, tm_hour = hh, tm_min = mi, tm_sec = ss \<rparr>
      else if tag = 0x18 then
        if length v < 15 \<or> v ! 14 \<noteq> byte_of (CHR ''Z'') then None
        else let y1 = two_digits v 0; y2 = two_digits v 2 in
          if y1 < 0 \<or> y2 < 0 then None
          else let y = (y1 * 100 + y2) - 1900;
                   mo = two_digits v 4; dd = two_digits v 6; hh = two_digits v 8;
                   mi = two_digits v 10; ss = two_digits v 12
               in if mo < 0 \<or> dd < 0 \<or> hh < 0 \<or> mi < 0 \<or> ss < 0 then None
                  else Some \<lparr> tm_year = y, tm_mon = mo - 1, tm_mday = dd, tm_hour = hh, tm_min = mi, tm_sec = ss \<rparr>
      else None)"

text \<open>
  \<open>long\<close> has 32 bits: \<open>ck32\<close> is \<open>None\<close> where a signed result does not fit. \<open>month_days\<close> has
  twelve cells. The day count itself stays small for the four-digit years the parser yields.
\<close>

definition ck32 :: "int \<Rightarrow> int option" where
  "ck32 x = (if - (2 ^ 31) \<le> x \<and> x < 2 ^ 31 then Some x else None)"

definition month_days :: "int list" where
  "month_days = [31, 28, 31, 30, 31, 30, 31, 31, 30, 31, 30, 31]"

function days_of_years :: "int \<Rightarrow> int \<Rightarrow> int" where
  "days_of_years y year =
     (if y < year
      then (365 + (if (y mod 4 = 0 \<and> y mod 100 \<noteq> 0) \<or> y mod 400 = 0 then 1 else 0)) + days_of_years (y + 1) year
      else 0)"
  by pat_completeness auto
termination
  by (relation "measure (\<lambda>(y, year). nat (year - y))") auto

declare days_of_years.simps [simp del]

function days_of_months :: "int \<Rightarrow> nat \<Rightarrow> int \<Rightarrow> int option" where
  "days_of_months year m mon =
     (if int m < mon then do {
        d \<leftarrow> rd month_days m;
        rest \<leftarrow> days_of_months year (Suc m) mon;
        Some (d + (if m = 1 \<and> ((year mod 4 = 0 \<and> year mod 100 \<noteq> 0) \<or> year mod 400 = 0) then 1 else 0) + rest)
      } else Some 0)"
  by pat_completeness auto
termination
  by (relation "measure (\<lambda>(year, m, mon). nat (mon - int m))") auto

declare days_of_months.simps [simp del]

definition tm_to_unix_utc :: "tm \<Rightarrow> int option" where
  "tm_to_unix_utc t = do {
     let year = tm_year t + 1900;
     let days = days_of_years 1970 year;
     dm \<leftarrow> days_of_months year 0 (tm_mon t);
     let days = days + dm + (tm_mday t - 1);
     a \<leftarrow> ck32 (days * 86400);
     b \<leftarrow> ck32 (a + tm_hour t * 3600);
     c \<leftarrow> ck32 (b + tm_min t * 60);
     ck32 (c + tm_sec t)
   }"

text \<open>\<open>walk_then\<close>: one call of the reader followed by \<open>if (!p) return false\<close>.\<close>

definition walk_then ::
    "bytes \<Rightarrow> nat \<Rightarrow> nat \<Rightarrow> (byte \<Rightarrow> nat \<Rightarrow> nat \<Rightarrow> nat \<Rightarrow> 'a option option) \<Rightarrow> 'a option option" where
  "walk_then buf p e k =
     (case asn1_walk_next buf p e of
        None \<Rightarrow> None
      | Some Null \<Rightarrow> Some None
      | Some (Elem tag len val nxt) \<Rightarrow> k tag len val nxt)"

definition parse_validity :: "bytes \<Rightarrow> nat \<Rightarrow> nat \<Rightarrow> int option option" where
  "parse_validity der r v_end =
     walk_then der r v_end (\<lambda>tag len val r.
     walk_then der r v_end (\<lambda>tag len val r.
       case parse_x509_time (take len (drop val der)) tag of
         None \<Rightarrow> Some None
       | Some t \<Rightarrow> map_option Some (tm_to_unix_utc t)))"

definition parse_tbs :: "bytes \<Rightarrow> nat \<Rightarrow> nat \<Rightarrow> int option option" where
  "parse_tbs der q0 tbs_end =
     walk_then der q0 tbs_end (\<lambda>tag len val q_peek.
       let q = (if tag = 0xA0 then q_peek else q0) in
     walk_then der q tbs_end (\<lambda>tag len val q. if tag \<noteq> 0x02 then Some None else
     walk_then der q tbs_end (\<lambda>tag len val q. if tag \<noteq> 0x30 then Some None else
     walk_then der q tbs_end (\<lambda>tag len val q. if tag \<noteq> 0x30 then Some None else
     walk_then der q tbs_end (\<lambda>tag len val q. if tag \<noteq> 0x30 then Some None else
       parse_validity der val (val + len))))))"

definition parse_leaf_not_after :: "string \<Rightarrow> int option option" where
  "parse_leaf_not_after leaf_pem =
     (let der = pem_to_der leaf_pem 1024 in
      if length der = 0 then Some None
      else
        walk_then der 0 (length der) (\<lambda>tag len val p. if tag \<noteq> 0x30 then Some None else
        walk_then der val (val + len) (\<lambda>tag len val p. if tag \<noteq> 0x30 then Some None else
          parse_tbs der val (val + len))))"

section \<open>Lemmas on the calendar\<close>

lemma days_of_years_step: "y < z \<Longrightarrow> days_of_years y z = year_len y + days_of_years (y + 1) z"
  by (subst days_of_years.simps) (simp add: year_len_def leap_year_def)

lemma days_of_years_refl [simp]: "days_of_years y y = 0"
  by (simp add: days_of_years.simps)

lemma split_year_spec:
  assumes "0 \<le> d" and "split_year y d = (z, r)"
  shows "y \<le> z \<and> 0 \<le> r \<and> r < year_len z \<and> d = days_of_years y z + r"
  using assms
proof (induction y d rule: split_year.induct)
  case (1 y d)
  show ?case
  proof (cases "d < year_len y")
    case True
    with 1 show ?thesis by (simp add: split_year.simps [of y d])
  next
    case False
    with "1.prems" have "split_year (y + 1) (d - year_len y) = (z, r)" "0 \<le> d - year_len y"
      by (simp_all add: split_year.simps [of y d])
    from "1.IH" [OF False this(2,1)]
    have "y + 1 \<le> z" "0 \<le> r" "r < year_len z" "d - year_len y = days_of_years (y + 1) z + r" by auto
    then show ?thesis using days_of_years_step [of y z] by simp
  qed
qed

text \<open>The month loop of the code as a sum over the months before.\<close>

lemma days_of_months_step:
  "m < 12 \<Longrightarrow> int m < k \<Longrightarrow>
   days_of_months year m k = map_option (\<lambda>r. month_len year m + r) (days_of_months year (Suc m) k)"
proof -
  assume m: "m < 12" "int m < k"
  then have "m \<in> {0, 1, 2, 3, 4, 5, 6, 7, 8, 9, 10, 11}"
    unfolding insert_iff empty_iff by presburger
  then have "rd month_days m = Some (month_days ! m)"
    "month_len year m = month_days ! m + (if m = 1 \<and> leap_year year then 1 else 0)"
    by (auto simp: rd_def month_days_def month_len_def)
  with m show ?thesis
    by (subst days_of_months.simps) (auto simp: leap_year_def map_option_case split: option.splits)
qed

lemma days_of_months_done [simp]: "days_of_months year m (int m) = Some 0"
  by (simp add: days_of_months.simps)

lemma days_of_months_overrun:
  assumes "12 < k" and "m \<le> 12"
  shows "days_of_months year m k = None"
  using assms
proof (induction "12 - m" arbitrary: m)
  case 0
  then show ?case by (subst days_of_months.simps) (simp add: rd_def month_days_def)
next
  case (Suc n)
  then show ?case by (simp add: days_of_months_step)
qed

lemma split_month_spec:
  assumes "split_month y [m..<12] d = (k, r)" and "m < 12" and "0 \<le> d"
    and "d < (\<Sum>i\<leftarrow>[m..<12]. month_len y i)"
  shows "m \<le> k \<and> k < 12 \<and> 0 \<le> r \<and> r < month_len y k \<and> days_of_months y m (int k) = Some (d - r)"
  using assms
proof (induction "11 - m" arbitrary: m d)
  case 0
  then have "m = 11" by simp
  with 0 show ?case using days_of_months_done [of y 11] by (simp add: upt_rec [of 11] upt_rec [of 12])
next
  case (Suc n)
  then have upt: "[m..<12] = m # [Suc m..<12]" and ne: "[Suc m..<12] \<noteq> []" and m: "Suc m < 12"
    by (auto simp: upt_rec)
  show ?case
  proof (cases "d < month_len y m")
    case True
    with Suc.prems upt ne show ?thesis by auto
  next
    case False
    with Suc.prems upt ne have "split_month y [Suc m..<12] (d - month_len y m) = (k, r)" by simp
    moreover have "d - month_len y m < (\<Sum>i\<leftarrow>[Suc m..<12]. month_len y i)"
      using Suc.prems(4) upt by simp
    ultimately have IH: "Suc m \<le> k \<and> k < 12 \<and> 0 \<le> r \<and> r < month_len y k \<and>
        days_of_months y (Suc m) (int k) = Some (d - month_len y m - r)"
      using Suc.hyps False m by (intro Suc.hyps(1)) auto
    then show ?thesis by (simp add: days_of_months_step)
  qed
qed

lemma year_len_months: "(\<Sum>i\<leftarrow>[0..<12]. month_len y i) = year_len y"
  by (simp add: upt_rec month_len_def year_len_def)

lemma ck32_chain:
  assumes "0 \<le> a" "0 \<le> h" "0 \<le> m" "0 \<le> s"
  shows "do { a \<leftarrow> ck32 a; b \<leftarrow> ck32 (a + h); c \<leftarrow> ck32 (b + m); ck32 (c + s) } =
    (if a + h + m + s < 2 ^ 31 then Some (a + h + m + s) else None)"
  using assms by (simp add: ck32_def)

lemma gmtime_split:
  assumes "0 \<le> t"
  obtains y yd m md where
    "gmtime t = \<lparr> tm_year = y - 1900, tm_mon = int m, tm_mday = md + 1, tm_hour = t mod 86400 div 3600,
       tm_min = t mod 86400 mod 3600 div 60, tm_sec = t mod 86400 mod 60 \<rparr>"
    "1970 \<le> y" "0 \<le> yd" "t div 86400 = days_of_years 1970 y + yd"
    "m < 12" "0 \<le> md" "md < month_len y m" "days_of_months y 0 (int m) = Some (yd - md)"
proof -
  obtain y yd where sy: "split_year 1970 (t div 86400) = (y, yd)" by fastforce
  obtain m md where sm: "split_month y [0..<12] yd = (m, md)" by fastforce
  from split_year_spec [OF _ sy] assms
  have Y: "1970 \<le> y" "0 \<le> yd" "yd < year_len y" "t div 86400 = days_of_years 1970 y + yd" by auto
  from split_month_spec [OF sm] Y have M: "m < 12" "0 \<le> md" "md < month_len y m"
    "days_of_months y 0 (int m) = Some (yd - md)" by (simp_all add: year_len_months)
  show thesis
    by (rule that [OF _ Y(1,2,4) M]) (simp add: gmtime_def sy sm Let_def)
qed

text \<open>The reference calendar and the code's loops agree on every second a 32-bit \<open>long\<close> holds,
  and beyond it the code's arithmetic overflows.\<close>

lemma tm_to_unix_gmtime:
  assumes "0 \<le> t"
  shows "tm_to_unix_utc (gmtime t) = (if t < 2 ^ 31 then Some t else None)"
proof -
  obtain y yd m md where G: "gmtime t = \<lparr> tm_year = y - 1900, tm_mon = int m, tm_mday = md + 1,
       tm_hour = t mod 86400 div 3600, tm_min = t mod 86400 mod 3600 div 60, tm_sec = t mod 86400 mod 60 \<rparr>"
    "t div 86400 = days_of_years 1970 y + yd" "days_of_months y 0 (int m) = Some (yd - md)"
    using gmtime_split [OF assms] by metis
  let ?s = "t mod 86400"
  have "t div 86400 * 86400 + ?s = t" "?s div 3600 * 3600 + ?s mod 3600 = ?s"
    "?s mod 3600 div 60 * 60 + ?s mod 3600 mod 60 = ?s mod 3600"
    by (rule div_mult_mod_eq)+
  moreover have "?s mod 3600 mod 60 = ?s mod 60" by (simp add: mod_mod_cancel)
  ultimately have split:
    "t div 86400 * 86400 + ?s div 3600 * 3600 + ?s mod 3600 div 60 * 60 + ?s mod 60 = t"
    by linarith
  have nonneg: "0 \<le> t div 86400 * 86400" "0 \<le> ?s div 3600 * 3600" "0 \<le> ?s mod 3600 div 60 * 60" "0 \<le> ?s mod 60"
    using assms by (simp_all add: pos_imp_zdiv_nonneg_iff)
  have "tm_to_unix_utc (gmtime t) = do { a \<leftarrow> ck32 (t div 86400 * 86400); b \<leftarrow> ck32 (a + ?s div 3600 * 3600);
      c \<leftarrow> ck32 (b + ?s mod 3600 div 60 * 60); ck32 (c + ?s mod 60) }"
    unfolding tm_to_unix_utc_def G(1) by (simp add: G(2,3) ring_distribs)
  then show ?thesis unfolding ck32_chain [OF nonneg] split .
qed

lemma tm_to_unix_bad_month: "12 < tm_mon t \<Longrightarrow> tm_to_unix_utc t = None"
  by (simp add: tm_to_unix_utc_def days_of_months_overrun)

section \<open>Lemmas on the request\<close>

definition der_all :: "bytes \<Rightarrow> (byte \<times> bytes) list option" where
  "der_all bs = der_items bs 0 (length bs)"

lemma der_all_tlvs:
  "\<forall>(t, c) \<in> set xs. length c < 65536 \<Longrightarrow> der_all (concat (map (\<lambda>(t, c). tlv t c) xs)) = Some xs"
  unfolding der_all_def by (rule der_items_tlvs [where rest = "[]"]) auto

lemma oid_tlvs:
  "OID_EC_PUBKEY = tlv 0x06 (drop 2 OID_EC_PUBKEY)" "OID_P256 = tlv 0x06 (drop 2 OID_P256)"
  "OID_CN = tlv 0x06 (drop 2 OID_CN)" "OID_ECDSA_SHA256 = tlv 0x06 (drop 2 OID_ECDSA_SHA256)"
  by (simp_all add: OID_EC_PUBKEY_def OID_P256_def OID_CN_def OID_ECDSA_SHA256_def tlv_def asn1_len_def)

lemma oid_lengths [len_simps]:
  "length OID_EC_PUBKEY = 9" "length OID_P256 = 10" "length OID_CN = 5" "length OID_ECDSA_SHA256 = 10"
  by (simp_all add: OID_EC_PUBKEY_def OID_P256_def OID_CN_def OID_ECDSA_SHA256_def)

text \<open>The parts of a request, as nested DER elements.\<close>

definition csr_name :: "string \<Rightarrow> bytes" where
  "csr_name cn = tlv 0x06 (drop 2 OID_CN) @ tlv 0x0C (map byte_of cn)"

definition csr_subject :: "string \<Rightarrow> bytes" where
  "csr_subject cn = tlv 0x31 (tlv 0x30 (csr_name cn))"

definition csr_spki :: "bytes \<Rightarrow> bytes" where
  "csr_spki pub = tlv 0x30 (tlv 0x06 (drop 2 OID_EC_PUBKEY) @ tlv 0x06 (drop 2 OID_P256)) @ tlv 0x03 (0x00 # 0x04 # pub)"

definition csr_info :: "string \<Rightarrow> bytes \<Rightarrow> bytes" where
  "csr_info cn pub = tlv 0x02 [0x00] @ tlv 0x30 (csr_subject cn) @ tlv 0x30 (csr_spki pub) @ tlv 0xA0 []"

lemma csr_lengths [len_simps]:
  assumes "length cn \<le> 31" "length pub = 64"
  shows "length (csr_name cn) = length cn + 7" "length (csr_subject cn) = length cn + 11"
    "length (csr_spki pub) = 89" "length (csr_info cn pub) = length cn + 109"
  using assms by (simp_all add: csr_name_def csr_subject_def csr_spki_def csr_info_def len_simps)

lemma build_cri_eq:
  assumes "length cn \<le> 31" "length pub = 64" "length cn + 112 \<le> out_cap"
  shows "build_cri out_cap cn pub = Some (tlv 0x30 (csr_info cn pub))"
  using assms
  by (simp add: build_cri_def put_buf_def rd_n_def asn1_seq_def asn1_set_def tlv_def csr_info_def csr_subject_def
      csr_spki_def csr_name_def OID_EC_PUBKEY_def OID_P256_def OID_CN_def asn1_len_def)

definition pos_int :: "bytes \<Rightarrow> bytes" where
  "pos_int v = (if hd v AND 0x80 \<noteq> 0 then 0x00 # v else v)"

definition csr_sig :: "bytes \<Rightarrow> bytes" where
  "csr_sig sig = tlv 0x30 (tlv 0x02 (pos_int (take 32 sig)) @ tlv 0x02 (pos_int (drop 32 sig)))"

definition csr_body :: "string \<Rightarrow> bytes \<Rightarrow> bytes \<Rightarrow> bytes" where
  "csr_body cn pub sig = tlv 0x30 (csr_info cn pub) @ tlv 0x30 (tlv 0x06 (drop 2 OID_ECDSA_SHA256)) @ tlv 0x03 (0x00 # csr_sig sig)"

lemma pos_int_length: "length (pos_int v) \<in> {length v, length v + 1}"
  by (simp add: pos_int_def)

lemma csr_sig_length: "length sig = 64 \<Longrightarrow> length (csr_sig sig) \<le> 72"
  using pos_int_length [of "take 32 sig"] pos_int_length [of "drop 32 sig"]
  by (auto simp: csr_sig_def len_simps)

lemma csr_body_length:
  assumes "length cn \<le> 31" "length pub = 64" "length sig = 64"
  shows "length (csr_body cn pub sig) \<le> 250"
  using assms csr_sig_length [of sig] csr_lengths(4) [of cn pub]
  by (simp add: csr_body_def len_simps)

lemma build_csr_eq:
  assumes "length cn \<le> 31" "length pub = 64" "254 \<le> out_cap"
    and sign: "uECC_sign cr priv (sha256 cr (tlv 0x30 (csr_info cn pub))) = Some sig" and sig: "length sig = 64"
  shows "build_csr cr out_cap cn pub priv = Some (tlv 0x30 (csr_body cn pub sig))"
proof -
  let ?r = "take 32 sig" and ?s = "drop 32 sig"
  have cri: "build_cri 512 cn pub = Some (tlv 0x30 (csr_info cn pub))"
    using assms by (intro build_cri_eq) auto
  have ne: "?r \<noteq> []" "?s \<noteq> []" using sig by auto
  have i: "asn1_int ?r = Some (tlv 0x02 (pos_int ?r))" "asn1_int ?s = Some (tlv 0x02 (pos_int ?s))"
    using asn1_int_tlv [OF ne(1)] asn1_int_tlv [OF ne(2)] by (simp_all add: pos_int_def)
  have l: "length (tlv 0x02 (pos_int ?r)) \<le> 35" "length (tlv 0x02 (pos_int ?s)) \<le> 35"
    using pos_int_length [of ?r] pos_int_length [of ?s] sig by (auto simp: len_simps)
  have sq: "asn1_seq (tlv 0x02 (pos_int ?r) @ tlv 0x02 (pos_int ?s)) = csr_sig sig"
    by (simp add: csr_sig_def asn1_seq_tlv)
  have al: "asn1_seq OID_ECDSA_SHA256 = tlv 0x30 (tlv 0x06 (drop 2 OID_ECDSA_SHA256))"
    using oid_tlvs(4) by (simp add: asn1_seq_tlv)
  have bs: "0x03 # asn1_len (Suc (length (csr_sig sig))) @ 0x00 # csr_sig sig = tlv 0x03 (0x00 # csr_sig sig)"
    by (simp add: tlv_def)
  have total: "length (csr_body cn pub sig) \<le> 250" using assms by (intro csr_body_length) auto
  have bits: "length (tlv 0x03 (0x00 # csr_sig sig)) \<le> 75" using csr_sig_length [OF sig] by (simp add: len_simps)
  have alg: "length (tlv 0x30 (tlv 0x06 (drop 2 OID_ECDSA_SHA256))) \<le> 20" by (simp add: len_simps)
  have rs: "length (csr_sig sig) \<le> 72" by (rule csr_sig_length [OF sig])
  have body: "tlv 0x30 (csr_info cn pub) @ tlv 0x30 (tlv 0x06 (drop 2 OID_ECDSA_SHA256)) @ tlv 0x03 (0x00 # csr_sig sig) = csr_body cn pub sig"
    by (simp add: csr_body_def)
  have r32: "rd_n 32 sig = Some ?r" "rd_n 32 ?s = Some ?s" using sig by (simp_all add: rd_n_def)
  have out: "length (tlv 0x30 (csr_body cn pub sig)) \<le> out_cap" using total assms(3) by (simp add: len_simps)
  show ?thesis
    using l rs bits alg out total [unfolded csr_body_def length_append]
      asn1_len_length [of "Suc (length (csr_sig sig))"]
    by (simp add: build_csr_def cri sign r32 i sq al bs body put_buf_def asn1_seq_tlv [of "csr_body cn pub sig"])
qed

lemma build_csr_defined:
  assumes "crypto_ok cr" "length cn \<le> 31" "length pub = 64"
  shows "\<exists>csr. build_csr cr 800 cn pub priv = Some csr"
proof (cases "uECC_sign cr priv (sha256 cr (tlv 0x30 (csr_info cn pub)))")
  case None
  then show ?thesis using build_cri_eq [of cn pub 512] assms(2,3) by (simp add: build_csr_def)
next
  case (Some sig)
  then show ?thesis using build_csr_eq [OF assms(2,3), of 800 cr priv sig] assms(1) by (auto simp: crypto_ok_def)
qed

text \<open>What the request says, read level by level with the code's own reader.\<close>

definition csr_reads_as :: "bytes \<Rightarrow> string \<Rightarrow> bytes \<Rightarrow> bytes \<Rightarrow> bytes \<Rightarrow> bool" where
  "csr_reads_as csr cn pub r s \<longleftrightarrow> (\<exists>body info subj rdn atv spki alg sigv rs.
     der_all csr = Some [(0x30, body)] \<and>
     der_all body = Some [(0x30, info), (0x30, OID_ECDSA_SHA256), (0x03, 0x00 # sigv)] \<and>
     der_all info = Some [(0x02, [0x00]), (0x30, subj), (0x30, spki), (0xA0, [])] \<and>
     der_all subj = Some [(0x31, rdn)] \<and> der_all rdn = Some [(0x30, atv)] \<and>
     der_all atv = Some [(0x06, drop 2 OID_CN), (0x0C, map byte_of cn)] \<and>
     der_all spki = Some [(0x30, alg), (0x03, 0x00 # 0x04 # pub)] \<and>
     der_all alg = Some [(0x06, drop 2 OID_EC_PUBKEY), (0x06, drop 2 OID_P256)] \<and>
     der_all sigv = Some [(0x30, rs)] \<and>
     der_all rs = Some [(0x02, pos_int r), (0x02, pos_int s)])"

lemma csr_reads_back:
  assumes "length cn \<le> 31" "length pub = 64" "length sig = 64"
  shows "csr_reads_as (tlv 0x30 (csr_body cn pub sig)) cn pub (take 32 sig) (drop 32 sig)"
proof -
  note L = assms csr_lengths [OF assms(1,2)] csr_body_length [OF assms] csr_sig_length [OF assms(3)]
  have sml: "length (pos_int (take 32 sig)) \<le> 33" "length (pos_int (drop 32 sig)) \<le> 33"
    using pos_int_length [of "take 32 sig"] pos_int_length [of "drop 32 sig"] assms(3) by auto
  note D = der_all_tlvs [of "[(t, c)]" for t c, simplified] der_all_tlvs [of "[(t, c), (u, d)]" for t c u d, simplified]
    der_all_tlvs [of "[(t, c), (u, d), (v, e)]" for t c u d v e, simplified]
    der_all_tlvs [of "[(t, c), (u, d), (v, e), (w, f)]" for t c u d v e w f, simplified]
  let ?rs = "tlv 0x02 (pos_int (take 32 sig)) @ tlv 0x02 (pos_int (drop 32 sig))"
  have "der_all (tlv 0x30 (csr_body cn pub sig)) = Some [(0x30, csr_body cn pub sig)]"
    using L by (intro D) auto
  moreover have "der_all (csr_body cn pub sig) = Some [(0x30, csr_info cn pub), (0x30, OID_ECDSA_SHA256), (0x03, 0x00 # csr_sig sig)]"
    using L oid_tlvs(4) unfolding csr_body_def by (subst D) (auto simp: len_simps)
  moreover have "der_all (csr_info cn pub) = Some [(0x02, [0x00]), (0x30, csr_subject cn), (0x30, csr_spki pub), (0xA0, [])]"
    using L assms unfolding csr_info_def by (intro D) auto
  moreover have "der_all (csr_subject cn) = Some [(0x31, tlv 0x30 (csr_name cn))]"
    using L unfolding csr_subject_def by (intro D) (auto simp: len_simps)
  moreover have "der_all (tlv 0x30 (csr_name cn)) = Some [(0x30, csr_name cn)]"
    using L by (intro D) auto
  moreover have "der_all (csr_name cn) = Some [(0x06, drop 2 OID_CN), (0x0C, map byte_of cn)]"
    using assms unfolding csr_name_def by (intro D) (auto simp: len_simps)
  moreover have "der_all (csr_spki pub) = Some [(0x30, tlv 0x06 (drop 2 OID_EC_PUBKEY) @ tlv 0x06 (drop 2 OID_P256)), (0x03, 0x00 # 0x04 # pub)]"
    using assms unfolding csr_spki_def by (intro D) (auto simp: len_simps)
  moreover have "der_all (tlv 0x06 (drop 2 OID_EC_PUBKEY) @ tlv 0x06 (drop 2 OID_P256)) = Some [(0x06, drop 2 OID_EC_PUBKEY), (0x06, drop 2 OID_P256)]"
    by (intro D) (auto simp: len_simps)
  moreover have "der_all (csr_sig sig) = Some [(0x30, ?rs)]"
    using sml unfolding csr_sig_def by (intro D) (auto simp: len_simps)
  moreover have "der_all ?rs = Some [(0x02, pos_int (take 32 sig)), (0x02, pos_int (drop 32 sig))]"
    using sml by (intro D) auto
  ultimately show ?thesis unfolding csr_reads_as_def by blast
qed


section \<open>Lemmas on keys, tokens and random bytes\<close>

lemma le_bytes_length [simp]: "length (le_bytes r) = 4"
  by (simp add: le_bytes_def)

lemma rng_loop_length: "length (rng_loop rng i n) = n"
  by (induction rng i n rule: rng_loop.induct) (subst rng_loop.simps, simp add: Let_def)

lemma build_ec_priv_der_eq:
  assumes "length d = 32" "length pub = 64" "121 \<le> out_cap"
  shows "\<exists>ts. build_ec_priv_der out_cap d pub = Some ([0x30, 0x77, 0x02, 0x01, 0x01, 0x04, 0x20] @ d @ ts)"
  using assms
  by (simp add: build_ec_priv_der_def rd_n_def put_buf_def asn1_seq_def asn1_len_def OID_P256_def)

lemma ec_priv_from_der_skip:
  assumes "length d = 32"
  shows "ec_priv_from_der ([0x30, 0x77, 0x02, 0x01, 0x01, 0x04, 0x20] @ d @ ts) = Some d"
  using assms by (simp add: ec_priv_from_der.simps)

lemma fmt_08x_length: "length (fmt_0x 8 (unat (r :: u32))) = 8"
proof -
  have "unat r < 16 ^ 8" using unsigned_less [of r, where ?'a = nat] by simp
  then have "length (radix_str 16 (unat r)) \<le> 8" by (intro radix_str_length_bound) auto
  then show ?thesis by (simp add: fmt_0x_def pad0_def)
qed

lemma base64_no_NUL: "NUL \<notin> set (base64_encode xs)" "NUL \<notin> set (base64url_encode xs)"
proof -
  show "NUL \<notin> set (base64_encode xs)" using base64_encode_chars by blast
  have "NUL \<notin> set B64_URL" by code_simp
  then show "NUL \<notin> set (base64url_encode xs)"
    using b64_encode_set [of B64_URL False xs] by (auto simp: base64url_encode_def B64_URL_def)
qed

lemma x5c_header_length: "length (x5c_header b) = length b + 38"
  by (simp add: x5c_header_def)

lemma x5c_payload_length:
  "length (x5c_payload prov cn aud now r0 r1) \<le> length prov + 2 * length cn + length aud + 121"
  using fmt_ulong_length [of now] fmt_ulong_length [of "now + 300"]
  by (simp add: x5c_payload_def jfield_def jstr_def fmt_08x_length)

lemma snprintf_read: "length s < cap \<Longrightarrow> rd_n (length s) (snprintf_buf cap s) = Some s"
  by (simp add: rd_n_def snprintf_buf_def)

text \<open>The two signed segments of a token, and the text that is hashed.\<close>

definition x5c_hdr_seg :: "bytes \<Rightarrow> string" where
  "x5c_hdr_seg cert = base64url_encode (map byte_of (x5c_header (base64_encode cert)))"

definition x5c_pl_seg :: "string \<Rightarrow> string \<Rightarrow> int \<Rightarrow> u32 \<Rightarrow> u32 \<Rightarrow> string" where
  "x5c_pl_seg cn prov now r0 r1 =
     base64url_encode (map byte_of (x5c_payload prov cn (snprintf_str 160 (x5c_audience prov)) now r0 r1))"

definition x5c_signed :: "bytes \<Rightarrow> string \<Rightarrow> string \<Rightarrow> int \<Rightarrow> u32 \<Rightarrow> u32 \<Rightarrow> string" where
  "x5c_signed cert cn prov now r0 r1 = x5c_hdr_seg cert @ ''.'' @ x5c_pl_seg cn prov now r0 r1"

lemma build_x5c_jwt_fits:
  assumes cert: "length cert \<le> 597" and cn: "length cn \<le> 31" and prov: "length prov \<le> 16"
  shows "build_x5c_jwt cr now r0 r1 cn prov cert priv =
     (case uECC_sign cr priv (sha256 cr (map byte_of (x5c_signed cert cn prov now r0 r1))) of
        None \<Rightarrow> Some None
      | Some s \<Rightarrow> if 64 \<le> length s
          then Some (Some (x5c_signed cert cn prov now r0 r1 @ ''.'' @ base64url_encode (take 64 s))) else None)"
proof -
  let ?b = "base64_encode cert"
  let ?ht = "x5c_header ?b"
  let ?aud = "snprintf_str 160 (x5c_audience prov)"
  let ?pt = "x5c_payload prov cn ?aud now r0 r1"
  have b: "length ?b \<le> 796" using cert by (simp add: len_simps)
  have ht: "length ?ht < 1024" "length ?ht \<le> 834" using b by (simp_all add: x5c_header_length)
  have aud: "length ?aud < 160" by (rule snprintf_str_length) simp
  have pt: "length ?pt < 512" "length ?pt \<le> 400" using x5c_payload_length [of prov cn ?aud now r0 r1] aud cn prov by auto
  have lens: "length (x5c_hdr_seg cert) \<le> 1113" "length (x5c_pl_seg cn prov now r0 r1) \<le> 534"
    using ht pt unfolding x5c_hdr_seg_def x5c_pl_seg_def by (simp_all add: len_simps)
  have ne: "?ht \<noteq> []" "?pt \<noteq> []" by (simp_all add: x5c_header_def x5c_payload_def)
  have c: "cstr (?b @ [NUL]) = ?b" "cstr (x5c_hdr_seg cert @ [NUL]) = x5c_hdr_seg cert"
    "cstr (x5c_pl_seg cn prov now r0 r1 @ [NUL]) = x5c_pl_seg cn prov now r0 r1"
    "cstr (base64url_encode s @ [NUL]) = base64url_encode s" for s
    by (simp_all add: cstr_terminated base64_no_NUL x5c_hdr_seg_def x5c_pl_seg_def)
  have p: "put_buf 800 (?b @ [NUL]) = Some (?b @ [NUL])"
    "put_buf 1400 (x5c_hdr_seg cert @ [NUL]) = Some (x5c_hdr_seg cert @ [NUL])"
    "put_buf 700 (x5c_pl_seg cn prov now r0 r1 @ [NUL]) = Some (x5c_pl_seg cn prov now r0 r1 @ [NUL])"
    using b lens by (simp_all add: put_buf_def)
  have q: "64 \<le> length s \<Longrightarrow> put_buf 100 (base64url_encode (take 64 s) @ [NUL]) = Some (base64url_encode (take 64 s) @ [NUL])" for s
    by (simp add: put_buf_def len_simps)
  have rd64: "rd_n 64 s = (if 64 \<le> length s then Some (take 64 s) else None)" for s :: bytes
    by (simp add: rd_n_def)
  show ?thesis
    using ne
    by (simp add: build_x5c_jwt_def p c Let_def snprintf_read [OF ht(1)] snprintf_read [OF pt(1)] x5c_hdr_seg_def [symmetric]
        x5c_pl_seg_def [symmetric] x5c_signed_def q rd64 split: option.splits)
qed

lemma build_x5c_jwt_overflow: "597 < length cert \<Longrightarrow> build_x5c_jwt cr now r0 r1 cn prov cert priv = None"
proof -
  assume "597 < length cert"
  then have "200 \<le> (length cert + 2) div 3" by linarith
  then have "800 < length (base64_encode cert @ [NUL])" unfolding length_append base64_encode_length by simp
  then have "put_buf 800 (base64_encode cert @ [NUL]) = None" by (simp only: put_buf_eq_None)
  then show ?thesis by (simp add: build_x5c_jwt_def)
qed

section \<open>Where reading the expiry is defined\<close>

text \<open>
  The field the walk of \<open>parse_leaf_not_after\<close> reaches: tag and value of notAfter. What happens then
  depends on these bytes only.
\<close>

definition validity_field :: "bytes \<Rightarrow> nat \<Rightarrow> nat \<Rightarrow> (byte \<times> bytes) option option" where
  "validity_field der r v_end =
     walk_then der r v_end (\<lambda>tag len val r.
     walk_then der r v_end (\<lambda>tag len val r. Some (Some (tag, take len (drop val der)))))"

definition tbs_field :: "bytes \<Rightarrow> nat \<Rightarrow> nat \<Rightarrow> (byte \<times> bytes) option option" where
  "tbs_field der q0 tbs_end =
     walk_then der q0 tbs_end (\<lambda>tag len val q_peek.
       let q = (if tag = 0xA0 then q_peek else q0) in
     walk_then der q tbs_end (\<lambda>tag len val q. if tag \<noteq> 0x02 then Some None else
     walk_then der q tbs_end (\<lambda>tag len val q. if tag \<noteq> 0x30 then Some None else
     walk_then der q tbs_end (\<lambda>tag len val q. if tag \<noteq> 0x30 then Some None else
     walk_then der q tbs_end (\<lambda>tag len val q. if tag \<noteq> 0x30 then Some None else
       validity_field der val (val + len))))))"

definition not_after_field :: "string \<Rightarrow> (byte \<times> bytes) option option" where
  "not_after_field leaf_pem =
     (let der = pem_to_der leaf_pem 1024 in
      if length der = 0 then Some None
      else
        walk_then der 0 (length der) (\<lambda>tag len val p. if tag \<noteq> 0x30 then Some None else
        walk_then der val (val + len) (\<lambda>tag len val p. if tag \<noteq> 0x30 then Some None else
          tbs_field der val (val + len))))"

definition convert_field :: "(byte \<times> bytes) option option \<Rightarrow> int option option" where
  "convert_field r =
     (case r of
        Some (Some (tag, v)) \<Rightarrow>
          (case parse_x509_time v tag of None \<Rightarrow> Some None | Some t \<Rightarrow> map_option Some (tm_to_unix_utc t))
      | Some None \<Rightarrow> Some None
      | None \<Rightarrow> None)"

lemma convert_walk: "convert_field (walk_then buf p e k) = walk_then buf p e (\<lambda>tag len val n. convert_field (k tag len val n))"
  by (simp add: walk_then_def convert_field_def split: option.splits walk.splits)

lemma convert_if: "convert_field (if b then x else y) = (if b then convert_field x else convert_field y)"
  by simp

lemma convert_simps: "convert_field (Some None) = Some None"
  "convert_field (Some (Some (tag, v))) = (case parse_x509_time v tag of None \<Rightarrow> Some None | Some t \<Rightarrow> map_option Some (tm_to_unix_utc t))"
  by (simp_all add: convert_field_def)

lemma parse_leaf_field: "parse_leaf_not_after leaf = convert_field (not_after_field leaf)"
  unfolding parse_leaf_not_after_def not_after_field_def parse_tbs_def parse_validity_def tbs_field_def validity_field_def Let_def
  by (simp only: convert_if convert_walk convert_simps)

text \<open>The walk stays inside the certificate, whatever its bytes are.\<close>

lemma walk_then_defined:
  assumes "e \<le> length buf" "\<And>tag len val n. n = val + len \<Longrightarrow> n \<le> e \<Longrightarrow> k tag len val n \<noteq> None"
  shows "walk_then buf p e k \<noteq> None"
proof -
  obtain w where w: "asn1_walk_next buf p e = Some w"
      "case w of Null \<Rightarrow> True | Elem tag len v n \<Rightarrow> p < v \<and> n = v + len \<and> n \<le> e \<and> tag = buf ! p"
    using asn1_walk_safe [OF assms(1)] by blast
  show ?thesis
  proof (cases w)
    case (Elem tag len val n)
    then have "n = val + len" "n \<le> e" using w(2) by simp_all
    then show ?thesis using assms(2) [of n val len tag] w(1) Elem by (simp add: walk_then_def)
  qed (simp add: walk_then_def w(1))
qed

lemma if_tag_defined: "(\<not> b \<Longrightarrow> x \<noteq> None) \<Longrightarrow> (if b then Some None else x) \<noteq> None"
  by simp

lemma not_after_field_defined: "\<exists>r. not_after_field leaf = Some r"
proof -
  have v: "validity_field der r e \<noteq> None" if "e \<le> length der" for der r e
    unfolding validity_field_def using that by (intro walk_then_defined) simp_all
  have t: "tbs_field der q e \<noteq> None" if e: "e \<le> length der" for der q e
    unfolding tbs_field_def Let_def
    by (intro walk_then_defined if_tag_defined e v order_trans [OF _ e]) simp_all
  let ?der = "pem_to_der leaf 1024"
  have w: "walk_then ?der 0 (length ?der) (\<lambda>tag len val p. if tag \<noteq> 0x30 then Some None else
        walk_then ?der val (val + len) (\<lambda>tag len val p. if tag \<noteq> 0x30 then Some None else
          tbs_field ?der val (val + len))) \<noteq> None"
    by (intro walk_then_defined if_tag_defined t) simp_all
  have "not_after_field leaf \<noteq> None"
    unfolding not_after_field_def Let_def using w by (cases "length ?der = 0") (simp_all only: if_True if_False option.distinct not_False_eq_True simp_thms)
  then show ?thesis by blast
qed

text \<open>
  A date before 2038 with a month and a day of the calendar. The parser also lets through hours,
  minutes and seconds up to 99, which do no harm.
\<close>

definition date_ok :: "tm \<Rightarrow> bool" where
  "date_ok t \<longleftrightarrow> tm_year t < 138 \<and> tm_mon t < 12 \<and> tm_mday t \<le> 31"

definition leaf_date_ok :: "string \<Rightarrow> bool" where
  "leaf_date_ok leaf \<longleftrightarrow>
     (\<forall>tag v t. not_after_field leaf = Some (Some (tag, v)) \<longrightarrow> parse_x509_time v tag = Some t \<longrightarrow> date_ok t)"

lemma two_digits_range: "two_digits v i \<le> 99" "- 1 \<le> two_digits v i"
  by (auto simp: two_digits_def Let_def)

lemma parse_x509_time_range:
  assumes "parse_x509_time v tag = Some t"
  shows "- 1 \<le> tm_mon t" "0 \<le> tm_mday t" "0 \<le> tm_hour t" "tm_hour t \<le> 99" "0 \<le> tm_min t" "tm_min t \<le> 99" "0 \<le> tm_sec t" "tm_sec t \<le> 99"
  using assms two_digits_range
  by (auto simp: parse_x509_time_def Let_def not_less split: if_splits)

lemma days_of_years_mono: "y \<le> z \<Longrightarrow> 0 \<le> days_of_years x y \<and> days_of_years x y \<le> days_of_years x z"
proof (induction x z rule: days_of_years.induct)
  case (1 x z)
  then show ?case
    by (cases "x < y") (auto simp: days_of_years.simps [of x z] days_of_years.simps [of x y])
qed

lemma days_until_2037: "days_of_years 1970 2037 = 24472"
  by code_simp

lemma days_of_months_range: "mon < 12 \<Longrightarrow> \<exists>d. days_of_months y 0 mon = Some d \<and> 0 \<le> d \<and> d \<le> 335"
proof -
  assume "mon < 12"
  then have "mon \<le> 0 \<or> mon = 1 \<or> mon = 2 \<or> mon = 3 \<or> mon = 4 \<or> mon = 5 \<or> mon = 6 \<or> mon = 7 \<or> mon = 8 \<or> mon = 9 \<or> mon = 10 \<or> mon = 11"
    by presburger
  then show ?thesis
    by (elim disjE) (simp_all add: days_of_months.simps month_days_def rd_def)
qed

lemma tm_to_unix_defined:
  assumes "parse_x509_time v tag = Some t" "date_ok t"
  shows "tm_to_unix_utc t \<noteq> None"
proof -
  note r = parse_x509_time_range [OF assms(1)]
  obtain dm where dm: "days_of_months (tm_year t + 1900) 0 (tm_mon t) = Some dm" "0 \<le> dm" "dm \<le> 335"
    using days_of_months_range assms(2) by (auto simp: date_ok_def)
  have "0 \<le> days_of_years 1970 (tm_year t + 1900) \<and> days_of_years 1970 (tm_year t + 1900) \<le> days_of_years 1970 2037"
    using assms(2) by (intro days_of_years_mono) (simp add: date_ok_def)
  then have d: "- 1 \<le> days_of_years 1970 (tm_year t + 1900) + dm + (tm_mday t - 1)"
      "days_of_years 1970 (tm_year t + 1900) + dm + (tm_mday t - 1) \<le> 24837"
    using dm r(2) assms(2) unfolding days_until_2037 by (auto simp: date_ok_def)
  then show ?thesis
    using r by (simp add: tm_to_unix_utc_def dm(1) Let_def ck32_def)
qed

lemma parse_leaf_defined: "leaf_date_ok leaf \<Longrightarrow> parse_leaf_not_after leaf \<noteq> None"
proof -
  assume ok: "leaf_date_ok leaf"
  obtain r where r: "not_after_field leaf = Some r" using not_after_field_defined by blast
  show ?thesis
  proof (cases r)
    case (Some f)
    obtain tag v where f: "f = (tag, v)" by (cases f)
    show ?thesis
      using ok tm_to_unix_defined [of v tag] unfolding parse_leaf_field r Some f convert_simps
      by (auto simp: leaf_date_ok_def r Some f split: option.splits)
  qed (simp add: parse_leaf_field r convert_simps)
qed

section \<open>Lemmas on certificates\<close>

definition vpos :: "nat \<Rightarrow> bytes \<Rightarrow> nat" where
  "vpos p c = p + 1 + length (asn1_len (length c))"

lemma walk_then_tlv:
  assumes "drop p buf = tlv tag c @ rest" and "p + length (tlv tag c) \<le> e" and "length c < 65536"
  shows "walk_then buf p e k = k tag (length c) (vpos p c) (p + length (tlv tag c))"
  using asn1_walk_tlv [OF assms] by (simp add: walk_then_def vpos_def)

lemma vpos_drop: "drop p buf = tlv tag c @ rest \<Longrightarrow> drop (vpos p c) buf = c @ rest"
  unfolding vpos_def by (rule asn1_walk_slice(1))

lemma vpos_end: "vpos p c + length c = p + length (tlv tag c)"
  by (simp add: vpos_def tlv_length)

lemma next_drop: "drop p buf = tlv tag c @ rest \<Longrightarrow> drop (p + length (tlv tag c)) buf = rest"
  by (rule asn1_walk_slice(2))

text \<open>A certificate with the fields the code skips left open: the version may be missing.\<close>

record cert_fields =
  cf_version :: "bytes option"
  cf_serial :: bytes
  cf_sigalg :: bytes
  cf_issuer :: bytes
  cf_not_before :: "byte \<times> bytes"
  cf_not_after :: "byte \<times> bytes"
  cf_rest :: bytes
  cf_signature :: bytes

definition cert_validity :: "cert_fields \<Rightarrow> bytes" where
  "cert_validity f = tlv (fst (cf_not_before f)) (snd (cf_not_before f)) @ tlv (fst (cf_not_after f)) (snd (cf_not_after f))"

definition cert_tail :: "cert_fields \<Rightarrow> bytes" where
  "cert_tail f = tlv 0x02 (cf_serial f) @ tlv 0x30 (cf_sigalg f) @ tlv 0x30 (cf_issuer f) @
     tlv 0x30 (cert_validity f) @ cf_rest f"

definition cert_tbs :: "cert_fields \<Rightarrow> bytes" where
  "cert_tbs f = (case cf_version f of None \<Rightarrow> [] | Some v \<Rightarrow> tlv 0xA0 v) @ cert_tail f"

definition cert_der :: "cert_fields \<Rightarrow> bytes" where
  "cert_der f = asn1_seq (asn1_seq (cert_tbs f) @ cf_signature f)"

lemma validity_field_at:
  assumes at: "drop r der = cert_validity f @ rest" and "length (cert_validity f) < 65536"
  shows "validity_field der r (r + length (cert_validity f)) =
    Some (Some (cf_not_after f))"
proof -
  let ?nb = "tlv (fst (cf_not_before f)) (snd (cf_not_before f))" and ?na = "tlv (fst (cf_not_after f)) (snd (cf_not_after f))"
  have len: "length (cert_validity f) = length ?nb + length ?na" by (simp add: cert_validity_def)
  have c: "length (snd (cf_not_before f)) < 65536" "length (snd (cf_not_after f)) < 65536"
    using assms(2) unfolding len by (simp_all add: tlv_length)
  have at1: "drop r der = ?nb @ ?na @ rest" using at by (simp add: cert_validity_def)
  note at2 = next_drop [OF at1]
  have "take (length (snd (cf_not_after f))) (drop (vpos (r + length ?nb) (snd (cf_not_after f))) der) = snd (cf_not_after f)"
    by (simp add: vpos_drop [OF at2])
  then show ?thesis
    unfolding validity_field_def len
    by (simp add: walk_then_tlv [OF at1 _ c(1)] walk_then_tlv [OF at2 _ c(2)])
qed

lemma tail_field_at:
  assumes at: "drop q der = cert_tail f @ rest" and "length (cert_tail f) < 65536"
    and e: "e = q + length (cert_tail f)"
  shows "walk_then der q e (\<lambda>tag len val q. if tag \<noteq> 0x02 then Some None else
     walk_then der q e (\<lambda>tag len val q. if tag \<noteq> 0x30 then Some None else
     walk_then der q e (\<lambda>tag len val q. if tag \<noteq> 0x30 then Some None else
     walk_then der q e (\<lambda>tag len val q. if tag \<noteq> 0x30 then Some None else
       validity_field der val (val + len))))) =
    Some (Some (cf_not_after f))"
proof -
  let ?a = "tlv 0x02 (cf_serial f)" and ?b = "tlv 0x30 (cf_sigalg f)" and ?c = "tlv 0x30 (cf_issuer f)"
    and ?d = "tlv 0x30 (cert_validity f)"
  have len: "length (cert_tail f) = length ?a + length ?b + length ?c + length ?d + length (cf_rest f)"
    by (simp add: cert_tail_def)
  have s: "length (cf_serial f) < 65536" "length (cf_sigalg f) < 65536" "length (cf_issuer f) < 65536"
    "length (cert_validity f) < 65536"
    using assms(2) unfolding len by (simp_all add: tlv_length)
  have a1: "drop q der = ?a @ ?b @ ?c @ ?d @ cf_rest f @ rest" using at by (simp add: cert_tail_def)
  note a2 = next_drop [OF a1] note a3 = next_drop [OF a2] note a4 = next_drop [OF a3]
  show ?thesis
    unfolding e len
    by (simp add: walk_then_tlv [OF a1 _ s(1)] walk_then_tlv [OF a2 _ s(2)] walk_then_tlv [OF a3 _ s(3)]
        walk_then_tlv [OF a4 _ s(4)] validity_field_at [OF vpos_drop [OF a4] s(4)])
qed

lemma tbs_field_at:
  assumes at: "drop q der = cert_tbs f @ rest" and small: "length (cert_tbs f) < 65536"
  shows "tbs_field der q (q + length (cert_tbs f)) =
    Some (Some (cf_not_after f))"
proof (cases "cf_version f")
  case None
  then have tb: "cert_tbs f = cert_tail f" by (simp add: cert_tbs_def)
  have a1: "drop q der = tlv 0x02 (cf_serial f) @ tlv 0x30 (cf_sigalg f) @ tlv 0x30 (cf_issuer f) @
      tlv 0x30 (cert_validity f) @ cf_rest f @ rest"
    using at by (simp add: tb cert_tail_def)
  have s: "length (cf_serial f) < 65536" "q + length (tlv 0x02 (cf_serial f)) \<le> q + length (cert_tail f)"
    using small unfolding tb by (simp_all add: cert_tail_def tlv_length)
  show ?thesis
    using tail_field_at [of q der f rest] at small
    by (simp add: tbs_field_def tb walk_then_tlv [OF a1 s(2) s(1)])
next
  case (Some v)
  then have tb: "cert_tbs f = tlv 0xA0 v @ cert_tail f" by (simp add: cert_tbs_def)
  have a1: "drop q der = tlv 0xA0 v @ cert_tail f @ rest" using at by (simp add: tb)
  have s: "length v < 65536" "q + length (tlv 0xA0 v) \<le> q + length (cert_tbs f)" "length (cert_tail f) < 65536"
    using small unfolding tb by (simp_all add: tlv_length)
  have e: "q + length (cert_tbs f) = q + length (tlv 0xA0 v) + length (cert_tail f)" by (simp add: tb)
  show ?thesis
    unfolding tbs_field_def walk_then_tlv [OF a1 s(2) s(1)]
    using tail_field_at [OF next_drop [OF a1] s(3) e] by simp
qed

lemma not_after_field_der:
  assumes "pem_to_der pem 1024 = cert_der f" and "length (cert_der f) < 65536"
  shows "not_after_field pem = Some (Some (cf_not_after f))"
proof -
  let ?i = "tlv 0x30 (cert_tbs f) @ cf_signature f"
  have der: "cert_der f = tlv 0x30 ?i" by (simp add: cert_der_def asn1_seq_tlv)
  have s: "length ?i < 65536" "length (cert_tbs f) < 65536" using assms(2) unfolding der by (simp_all add: tlv_length)
  have a0: "drop 0 (tlv 0x30 ?i) = tlv 0x30 ?i @ []" by simp
  have a1: "drop (vpos 0 ?i) (tlv 0x30 ?i) = tlv 0x30 (cert_tbs f) @ cf_signature f"
    using vpos_drop [OF a0] by simp
  have ne: "length (tlv 0x30 ?i) \<noteq> 0" by (simp add: tlv_def)
  show ?thesis
    unfolding not_after_field_def Let_def assms(1) der
    using ne s tbs_field_at [OF vpos_drop [OF a1] s(2)]
    by (simp add: walk_then_tlv [OF a0 _ s(1)] walk_then_tlv [OF a1 _ s(2)] vpos_end [of 0 _ "0x30"] tlv_length)
qed

lemma parse_leaf_der:
  assumes "pem_to_der pem 1024 = cert_der f" and "length (cert_der f) < 65536"
  shows "parse_leaf_not_after pem =
    (case parse_x509_time (snd (cf_not_after f)) (fst (cf_not_after f)) of None \<Rightarrow> Some None
     | Some t \<Rightarrow> map_option Some (tm_to_unix_utc t))"
  using convert_simps(2) [of "fst (cf_not_after f)" "snd (cf_not_after f)"]
  by (simp add: parse_leaf_field not_after_field_der [OF assms])

lemma walk_cut:
  assumes "767 < length (tlv tag c)" and "length c < 65536"
  shows "asn1_walk_next (take 767 (tlv tag c)) 0 767 = Some Null"
proof -
  have c: "764 \<le> length c" using assms(1) by (simp add: tlv_length asn1_len_length split: if_splits)
  then have t: "take 767 (tlv tag c) =
      tag # 0x82 # of_nat (drop_bit 8 (length c)) # of_nat (length c AND 0xFF) # take 763 c"
    by (simp add: tlv_def asn1_len_def)
  show ?thesis
    using c two_byte_len [OF assms(2)] unfolding t
    by (simp add: asn1_walk_next_def rd_def asn1_walk_finish_def)
qed

lemma unat_byte_of: "unat (byte_of c) = of_char c"
  by (simp add: byte_of_def unat_of_nat take_bit_eq_mod)

section \<open>Lemmas on the two time formats\<close>

definition dig2 :: "int \<Rightarrow> bytes" where
  "dig2 n = [byte_of (digit_chr (nat (n div 10))), byte_of (digit_chr (nat (n mod 10)))]"

text \<open>\<open>YYMMDDhhmmssZ\<close> as an issuer writes it.\<close>

definition utc_time_of :: "tm \<Rightarrow> bytes" where
  "utc_time_of t = dig2 (tm_year t mod 100) @ dig2 (tm_mon t + 1) @ dig2 (tm_mday t) @
     dig2 (tm_hour t) @ dig2 (tm_min t) @ dig2 (tm_sec t) @ [byte_of (CHR ''Z'')]"

text \<open>\<open>YYYYMMDDhhmmssZ\<close>.\<close>

definition gen_time_of :: "tm \<Rightarrow> bytes" where
  "gen_time_of t = dig2 ((tm_year t + 1900) div 100) @ dig2 ((tm_year t + 1900) mod 100) @ dig2 (tm_mon t + 1) @ dig2 (tm_mday t) @
     dig2 (tm_hour t) @ dig2 (tm_min t) @ dig2 (tm_sec t) @ [byte_of (CHR ''Z'')]"

lemma two_digits_val:
  "int (unat (v ! i)) = 48 + a \<Longrightarrow> int (unat (v ! Suc i)) = 48 + b \<Longrightarrow> 0 \<le> a \<Longrightarrow> a < 10 \<Longrightarrow> 0 \<le> b \<Longrightarrow> b < 10 \<Longrightarrow>
   two_digits v i = a * 10 + b"
  by (simp add: two_digits_def)

lemma two_digits_dig2:
  assumes "0 \<le> n" "n < 100" and "v ! i = dig2 n ! 0" "v ! Suc i = dig2 n ! 1"
  shows "two_digits v i = n"
proof -
  have r: "0 \<le> n div 10" "n div 10 < 10" "0 \<le> n mod 10" "n mod 10 < 10" using assms by auto
  have "int (unat (byte_of (digit_chr (nat k)))) = 48 + k" if "0 \<le> k" "k < 10" for k
    using that by (simp add: unat_byte_of of_char_digit_chr nat_less_iff)
  with r have "int (unat (v ! i)) = 48 + n div 10" "int (unat (v ! Suc i)) = 48 + n mod 10"
    using assms(3,4) by (simp_all add: dig2_def)
  from two_digits_val [OF this r] show ?thesis unfolding div_mult_mod_eq .
qed

lemma century:
  "70 \<le> y \<Longrightarrow> y < 150 \<Longrightarrow> (if y mod 100 \<ge> 50 then 1900 + y mod 100 else 2000 + y mod 100) - 1900 = (y :: int)"
  by presburger

lemma parse_utc_time_of:
  assumes "70 \<le> tm_year t" "tm_year t < 150" "0 \<le> tm_mon t" "tm_mon t < 12" "0 \<le> tm_mday t" "tm_mday t < 100"
    "0 \<le> tm_hour t" "tm_hour t < 100" "0 \<le> tm_min t" "tm_min t < 100" "0 \<le> tm_sec t" "tm_sec t < 100"
  shows "parse_x509_time (utc_time_of t) 0x17 = Some t"
proof -
  let ?v = "utc_time_of t"
  have d: "two_digits ?v 0 = tm_year t mod 100" "two_digits ?v 2 = tm_mon t + 1" "two_digits ?v 4 = tm_mday t"
    "two_digits ?v 6 = tm_hour t" "two_digits ?v 8 = tm_min t" "two_digits ?v 10 = tm_sec t"
    using assms by (intro two_digits_dig2; simp add: utc_time_of_def dig2_def)+
  have "length ?v = 13" "?v ! 12 = byte_of (CHR ''Z'')" by (simp_all add: utc_time_of_def dig2_def)
  moreover have "(if tm_year t mod 100 \<ge> 50 then 1900 + tm_year t mod 100 else 2000 + tm_year t mod 100) - 1900 = tm_year t"
    using assms(1,2) by (rule century)
  ultimately show ?thesis using assms by (simp add: parse_x509_time_def d Let_def)
qed

lemma parse_gen_time_of:
  assumes "0 \<le> tm_year t + 1900" "tm_year t + 1900 < 10000" "0 \<le> tm_mon t" "tm_mon t < 12" "0 \<le> tm_mday t" "tm_mday t < 100"
    "0 \<le> tm_hour t" "tm_hour t < 100" "0 \<le> tm_min t" "tm_min t < 100" "0 \<le> tm_sec t" "tm_sec t < 100"
  shows "parse_x509_time (gen_time_of t) 0x18 = Some t"
proof -
  define hi lo where hl: "hi = (tm_year t + 1900) div 100" "lo = (tm_year t + 1900) mod 100"
  have r: "0 \<le> hi" "hi < 100" "0 \<le> lo" "lo < 100" using assms(1,2) by (simp_all add: hl pos_imp_zdiv_nonneg_iff)
  have y: "hi * 100 + lo - 1900 = tm_year t" unfolding hl div_mult_mod_eq by simp
  let ?v = "gen_time_of t"
  have v: "?v = dig2 hi @ dig2 lo @ dig2 (tm_mon t + 1) @ dig2 (tm_mday t) @
      dig2 (tm_hour t) @ dig2 (tm_min t) @ dig2 (tm_sec t) @ [byte_of (CHR ''Z'')]"
    by (simp add: gen_time_of_def hl)
  have d: "two_digits ?v 0 = hi" "two_digits ?v 2 = lo" "two_digits ?v 4 = tm_mon t + 1" "two_digits ?v 6 = tm_mday t"
    "two_digits ?v 8 = tm_hour t" "two_digits ?v 10 = tm_min t" "two_digits ?v 12 = tm_sec t"
    using assms(3-) r by (intro two_digits_dig2; simp add: v dig2_def)+
  have "length ?v = 15" "?v ! 14 = byte_of (CHR ''Z'')" by (simp_all add: v dig2_def)
  then show ?thesis using assms(3-) r y by (simp add: parse_x509_time_def d Let_def)
qed

lemma days_of_years_ge: "y \<le> z \<Longrightarrow> 365 * (z - y) \<le> days_of_years y z"
proof (induction y z rule: days_of_years.induct)
  case (1 y z)
  then show ?case
    by (cases "y < z") (auto simp: days_of_years.simps [of y z])
qed

lemma month_len_le: "m < 12 \<Longrightarrow> month_len y m \<le> 31"
proof -
  assume "m < 12"
  then have "m \<in> {0, 1, 2, 3, 4, 5, 6, 7, 8, 9, 10, 11}"
    unfolding insert_iff empty_iff by presburger
  then show ?thesis by (auto simp: month_len_def)
qed

lemma gmtime_ranges:
  assumes "0 \<le> t" "t < 2 ^ 31"
  shows "70 \<le> tm_year (gmtime t)" "tm_year (gmtime t) < 150" "0 \<le> tm_mon (gmtime t)" "tm_mon (gmtime t) < 12"
    "1 \<le> tm_mday (gmtime t)" "tm_mday (gmtime t) \<le> 31" "0 \<le> tm_hour (gmtime t)" "tm_hour (gmtime t) < 24"
    "0 \<le> tm_min (gmtime t)" "tm_min (gmtime t) < 60" "0 \<le> tm_sec (gmtime t)" "tm_sec (gmtime t) < 60"
proof -
  obtain y yd m md where G: "gmtime t = \<lparr> tm_year = y - 1900, tm_mon = int m, tm_mday = md + 1,
       tm_hour = t mod 86400 div 3600, tm_min = t mod 86400 mod 3600 div 60, tm_sec = t mod 86400 mod 60 \<rparr>"
    and Y: "1970 \<le> y" "0 \<le> yd" "t div 86400 = days_of_years 1970 y + yd"
    and M: "m < 12" "0 \<le> md" "md < month_len y m"
    using gmtime_split [OF assms(1)] by metis
  have "days_of_years 1970 y \<le> t div 86400" using Y(2,3) by simp
  also have "\<dots> < 24856" using assms(2) by simp
  finally have "365 * (y - 1970) < 24856" using days_of_years_ge [OF Y(1)] by (rule le_less_trans [rotated])
  then have yb: "y < 2050" by simp
  note month_len_le [OF M(1), of y]
  then show "70 \<le> tm_year (gmtime t)" "tm_year (gmtime t) < 150" "0 \<le> tm_mon (gmtime t)" "tm_mon (gmtime t) < 12"
    "1 \<le> tm_mday (gmtime t)" "tm_mday (gmtime t) \<le> 31" "0 \<le> tm_hour (gmtime t)" "tm_hour (gmtime t) < 24"
    "0 \<le> tm_min (gmtime t)" "tm_min (gmtime t) < 60" "0 \<le> tm_sec (gmtime t)" "tm_sec (gmtime t) < 60"
    unfolding G using Y(1) M yb by (simp_all add: pos_imp_zdiv_nonneg_iff)
qed

lemma gmtime_year:
  assumes "0 \<le> t" "t < 2114380800"
  shows "tm_year (gmtime t) < 138"
proof -
  obtain y yd m md where G: "gmtime t = \<lparr> tm_year = y - 1900, tm_mon = int m, tm_mday = md + 1,
       tm_hour = t mod 86400 div 3600, tm_min = t mod 86400 mod 3600 div 60, tm_sec = t mod 86400 mod 60 \<rparr>"
    and Y: "0 \<le> yd" "t div 86400 = days_of_years 1970 y + yd"
    using gmtime_split [OF assms(1)] by metis
  have "t div 86400 < 24472" using assms(2) by simp
  then have "days_of_years 1970 y < 24472" using Y by linarith
  then have "\<not> 2037 \<le> y" using days_of_years_mono [of 2037 y 1970] days_until_2037 by auto
  then show ?thesis by (simp add: G)
qed

lemma parse_utc_gmtime: "0 \<le> t \<Longrightarrow> t < 2 ^ 31 \<Longrightarrow> parse_x509_time (utc_time_of (gmtime t)) 0x17 = Some (gmtime t)"
  using gmtime_ranges [of t] by (intro parse_utc_time_of) auto

lemma parse_gen_gmtime: "0 \<le> t \<Longrightarrow> t < 2 ^ 31 \<Longrightarrow> parse_x509_time (gen_time_of (gmtime t)) 0x18 = Some (gmtime t)"
  using gmtime_ranges [of t] by (intro parse_gen_time_of) auto

text \<open>notAfter as an issuer writes it for the instant \<open>t\<close>, in either of the two formats.\<close>

definition time_field :: "int \<Rightarrow> byte \<times> bytes \<Rightarrow> bool" where
  "time_field t f \<longleftrightarrow> f = (0x17, utc_time_of (gmtime t)) \<or> f = (0x18, gen_time_of (gmtime t))"

lemma parse_time_field: "0 \<le> t \<Longrightarrow> t < 2 ^ 31 \<Longrightarrow> time_field t f \<Longrightarrow> parse_x509_time (snd f) (fst f) = Some (gmtime t)"
  using parse_utc_gmtime parse_gen_gmtime by (auto simp: time_field_def)

section \<open>Lemmas on the printed time\<close>

lemma fmt_d_small: "0 \<le> i \<Longrightarrow> i < 10 ^ k \<Longrightarrow> 0 < k \<Longrightarrow> length (fmt_d i) \<le> k"
  using fmt_u_length [of "nat i" k] by (simp add: fmt_d_def nat_less_iff)

lemma fmt_d_not_Nil: "0 \<le> i \<Longrightarrow> fmt_d i \<noteq> []"
  by (simp add: fmt_d_def fmt_u_def radix10_not_Nil)

lemma fmt_02_length: "0 \<le> i \<Longrightarrow> i < 100 \<Longrightarrow> length (fmt_02 i) = 2"
  using fmt_d_small [of i 2] fmt_d_not_Nil [of i] by (cases "fmt_d i") (auto simp: fmt_02_def pad0_def)

lemma fmt_d_no_NUL: "NUL \<notin> set (fmt_d i)"
  by (simp add: fmt_d_def fmt_u_no_NUL)

lemma fmt_02_no_NUL: "NUL \<notin> set (fmt_02 i)"
  by (simp add: fmt_02_def pad0_def fmt_d_no_NUL)

lemma rfc3339_length: "0 \<le> t \<Longrightarrow> t < 2 ^ 31 \<Longrightarrow> length (strftime_rfc3339 (gmtime t)) \<le> 20"
proof -
  assume t: "0 \<le> t" "t < 2 ^ 31"
  note r = gmtime_ranges [OF t]
  have y: "length (fmt_d (tm_year (gmtime t) + 1900)) \<le> 4" using r(1,2) by (intro fmt_d_small) auto
  have m: "length (fmt_02 (tm_mon (gmtime t) + 1)) = 2" using r(3,4) by (intro fmt_02_length) auto
  have d: "length (fmt_02 (tm_mday (gmtime t))) = 2" using r(5,6) by (intro fmt_02_length) auto
  have h: "length (fmt_02 (tm_hour (gmtime t))) = 2" using r(7,8) by (intro fmt_02_length) auto
  have mi: "length (fmt_02 (tm_min (gmtime t))) = 2" using r(9,10) by (intro fmt_02_length) auto
  have sc: "length (fmt_02 (tm_sec (gmtime t))) = 2" using r(11,12) by (intro fmt_02_length) auto
  show ?thesis using y by (simp add: strftime_rfc3339_def m d h mi sc)
qed

lemma rfc3339_no_NUL: "NUL \<notin> set (strftime_rfc3339 t)"
  by (simp add: strftime_rfc3339_def fmt_d_no_NUL fmt_02_no_NUL)

section \<open>What a token says\<close>

text \<open>
  The receiver's view of an X5C token, after RFC 7515 and RFC 7519: base64url segments without
  padding, a JOSE header with the signer certificate in padded standard base64, and the claims the
  authority checks. \<open>b64url_text t bs\<close>: the text \<open>t\<close> is the unpadded base64url form of the bytes.
\<close>

definition alnum :: "char \<Rightarrow> bool" where
  "alnum c \<longleftrightarrow> (let n = of_char c :: nat in 48 \<le> n \<and> n \<le> 57 \<or> 65 \<le> n \<and> n \<le> 90 \<or> 97 \<le> n \<and> n \<le> 122)"

definition b64url_text :: "string \<Rightarrow> bytes \<Rightarrow> bool" where
  "b64url_text t bs \<longleftrightarrow> (\<forall>c \<in> set t. alnum c \<or> c = CHR ''-'' \<or> c = CHR ''_'') \<and>
     length t = (4 * length bs + 2) div 3 \<and> base64_decode t (length bs) = bs"

definition b64_text :: "string \<Rightarrow> bytes \<Rightarrow> bool" where
  "b64_text t bs \<longleftrightarrow> (\<forall>c \<in> set t. alnum c \<or> c = CHR ''+'' \<or> c = CHR ''/'' \<or> c = CHR ''='') \<and>
     length t = 4 * ((length bs + 2) div 3) \<and> base64_decode t (length bs) = bs"

definition x5c_claims :: "string \<Rightarrow> string \<Rightarrow> int \<Rightarrow> string \<Rightarrow> json" where
  "x5c_claims prov cn now jti = JObj
     [(''iss'', JStr prov), (''sub'', JStr cn),
      (''aud'', JStr (''https://step-ca.gikview.svc.cluster.local/1.0/sign#x5c/'' @ prov)),
      (''sans'', JArr [JStr cn]), (''iat'', JInt (now mod 2 ^ 32)), (''nbf'', JInt (now mod 2 ^ 32)),
      (''exp'', JInt ((now + 300) mod 2 ^ 32)), (''jti'', JStr jti)]"

definition x5c_segments :: "string \<Rightarrow> string \<Rightarrow> bytes \<Rightarrow> int \<Rightarrow> string \<Rightarrow> string \<Rightarrow> string \<Rightarrow> bool" where
  "x5c_segments prov cn cert now jti hdr pl \<longleftrightarrow>
     (\<exists>h p c. b64url_text hdr (map byte_of h) \<and> b64url_text pl (map byte_of p) \<and> b64_text c cert \<and>
        json_of h = Some (JObj [(''alg'', JStr ''ES256''), (''typ'', JStr ''JWT''), (''x5c'', JArr [JStr c])]) \<and>
        json_of p = Some (x5c_claims prov cn now jti))"

text \<open>A token for these claims, signed with the key \<open>priv\<close> over its first two segments.\<close>

definition x5c_token_for :: "crypto \<Rightarrow> bytes \<Rightarrow> string \<Rightarrow> string \<Rightarrow> bytes \<Rightarrow> int \<Rightarrow> string \<Rightarrow> string \<Rightarrow> bool" where
  "x5c_token_for cr priv prov cn cert now jti jwt \<longleftrightarrow>
     (\<exists>hdr pl sg s. jwt = hdr @ ''.'' @ pl @ ''.'' @ sg \<and> x5c_segments prov cn cert now jti hdr pl \<and>
        uECC_sign cr priv (sha256 cr (map byte_of (hdr @ ''.'' @ pl))) = Some s \<and> b64url_text sg s)"

lemma alphabet_chars:
  "\<forall>c \<in> set B64_URL. alnum c \<or> c = CHR ''-'' \<or> c = CHR ''_''"
  "\<forall>c \<in> set B64_STD. alnum c \<or> c = CHR ''+'' \<or> c = CHR ''/''"
  by code_simp+

lemma b64url_text_encode: "b64url_text (base64url_encode bs) bs"
proof -
  have "set (base64url_encode bs) \<subseteq> set B64_URL"
    using b64_encode_set [of B64_URL False bs] by (simp add: base64url_encode_def B64_URL_def)
  then show ?thesis
    using alphabet_chars(1) by (auto simp: b64url_text_def base64url_encode_length) (simp add: base64url_encode_def url.decode_encode)
qed

lemma b64_text_encode: "b64_text (base64_encode bs) bs"
proof -
  have "set (base64_encode bs) \<subseteq> set B64_STD \<union> {CHR ''=''}"
    using b64_encode_set [of B64_STD True bs] by (simp add: base64_encode_def B64_STD_def)
  then show ?thesis
    using alphabet_chars(2) by (auto simp: b64_text_def base64_encode_length) (simp add: base64_encode_def std.decode_encode)
qed

lemma alnum_bare: "\<forall>c \<in> set t. alnum c \<or> c \<in> {CHR ''-'', CHR ''_'', CHR ''+'', CHR ''/'', CHR ''='', CHR ''.''} \<Longrightarrow> bare t"
  by (auto simp: bare_def alnum_def is_control_def Let_def)

lemma bare_b64: "b64url_text t bs \<Longrightarrow> bare t" "b64_text t bs \<Longrightarrow> bare t"
  unfolding b64url_text_def b64_text_def by (rule alnum_bare, blast)+

lemma bare_lit [simp]: "bare []" "bare (c # cs) \<longleftrightarrow> (\<not> is_control c \<and> c \<noteq> QUOTE \<and> c \<noteq> BSLASH) \<and> bare cs"
  by (auto simp: bare_def)

lemma x5c_token_bare: "x5c_token_for cr priv prov cn cert now jti jwt \<Longrightarrow> bare jwt"
proof -
  assume "x5c_token_for cr priv prov cn cert now jti jwt"
  then obtain hdr pl sg where "jwt = hdr @ ''.'' @ pl @ ''.'' @ sg" "bare hdr" "bare pl" "bare sg"
    unfolding x5c_token_for_def x5c_segments_def using bare_b64(1) by blast
  then show ?thesis by (simp add: is_control_def)
qed

lemma x5c_header_json:
  assumes "bare c"
  shows "json_of (x5c_header c) = Some (JObj [(''alg'', JStr ''ES256''), (''typ'', JStr ''JWT''), (''x5c'', JArr [JStr c])])"
proof -
  let ?j = "JObj [(''alg'', JStr ''ES256''), (''typ'', JStr ''JWT''), (''x5c'', JArr [JStr c])]"
  have "x5c_header c = render ?j"
    using assms by (simp add: x5c_header_def render_str_bare is_control_def)
  moreover have "json_ok ?j" using assms bare_text_ok by (simp add: text_ok_def is_control_def)
  ultimately show ?thesis using json_of_render by metis
qed

lemma fmt_u_ulong: "fmt_u (ulong t) = fmt_d (t mod 2 ^ 32)"
  by (simp add: fmt_d_def ulong_def not_less)

lemma x5c_payload_json:
  assumes "bare prov" "bare cn" "bare jti" "jti = fmt_0x 8 (unat r0) @ fmt_0x 8 (unat r1)"
  shows "json_of (x5c_payload prov cn (x5c_audience prov) now r0 r1) = Some (x5c_claims prov cn now jti)"
proof -
  let ?aud = "''https://step-ca.gikview.svc.cluster.local/1.0/sign#x5c/'' @ prov"
  have aud: "x5c_audience prov = ?aud" "bare ?aud"
    using assms(1) by (simp_all add: x5c_audience_def STEP_CA_AUDIENCE_BASE_def is_control_def)
  have "x5c_payload prov cn (x5c_audience prov) now r0 r1 = render (x5c_claims prov cn now jti)"
    using assms(1-3) unfolding assms(4) [symmetric] x5c_payload_def aud(1) fmt_u_ulong x5c_claims_def
    by (simp add: jstr_def jfield_def render_str_bare is_control_def)
  moreover have "json_ok (x5c_claims prov cn now jti)"
    using assms(1-3) aud(2) bare_text_ok by (simp add: x5c_claims_def) (simp add: text_ok_def is_control_def)
  ultimately show ?thesis using json_of_render by metis
qed

lemma fmt_0x_bare: "bare (fmt_0x w n)"
  using bare_digits [of 16 n] by (simp add: fmt_0x_def pad0_def) (simp add: bare_def is_control_def)

definition x5c_jti :: "u32 \<Rightarrow> u32 \<Rightarrow> string" where
  "x5c_jti r0 r1 = fmt_0x 8 (unat r0) @ fmt_0x 8 (unat r1)"

lemma bare_no_NUL: "bare s \<Longrightarrow> NUL \<notin> set s"
proof -
  have "is_control NUL" by (simp add: is_control_def)
  then show "bare s \<Longrightarrow> NUL \<notin> set s" unfolding bare_def by blast
qed

lemma x5c_segments_built:
  assumes "length prov \<le> 16" "bare cn" "bare prov"
  shows "x5c_segments prov cn cert now (x5c_jti r0 r1) (x5c_hdr_seg cert) (x5c_pl_seg cn prov now r0 r1)"
proof -
  have aud: "snprintf_str 160 (x5c_audience prov) = x5c_audience prov"
    using assms(1) bare_no_NUL [OF assms(3)]
    by (intro snprintf_str_fits) (auto simp: x5c_audience_def STEP_CA_AUDIENCE_BASE_def)
  have "bare (x5c_jti r0 r1)" by (simp add: x5c_jti_def fmt_0x_bare)
  from x5c_payload_json [OF assms(3,2) this, of r0 r1]
  have "json_of (x5c_payload prov cn (snprintf_str 160 (x5c_audience prov)) now r0 r1) = Some (x5c_claims prov cn now (x5c_jti r0 r1))"
    unfolding aud by (simp add: x5c_jti_def)
  moreover have "json_of (x5c_header (base64_encode cert)) =
      Some (JObj [(''alg'', JStr ''ES256''), (''typ'', JStr ''JWT''), (''x5c'', JArr [JStr (base64_encode cert)])])"
    by (rule x5c_header_json) (rule bare_b64(2) [OF b64_text_encode])
  ultimately show ?thesis
    unfolding x5c_segments_def x5c_hdr_seg_def x5c_pl_seg_def using b64url_text_encode b64_text_encode by blast
qed

lemma build_x5c_jwt_token:
  assumes "crypto_ok cr" "length cert \<le> 597" "length cn \<le> 31" "length prov \<le> 16"
    "build_x5c_jwt cr now r0 r1 cn prov cert priv = Some (Some jwt)"
  shows "bare cn \<and> bare prov \<longrightarrow> x5c_token_for cr priv prov cn cert now (x5c_jti r0 r1) jwt"
proof (intro impI)
  assume b: "bare cn \<and> bare prov"
  obtain s where s: "uECC_sign cr priv (sha256 cr (map byte_of (x5c_hdr_seg cert @ ''.'' @ x5c_pl_seg cn prov now r0 r1))) = Some s"
      "jwt = x5c_hdr_seg cert @ ''.'' @ x5c_pl_seg cn prov now r0 r1 @ ''.'' @ base64url_encode s"
    using assms(5,1) unfolding build_x5c_jwt_fits [OF assms(2-4)] x5c_signed_def
    by (auto simp: crypto_ok_def split: option.splits if_splits)
  then show "x5c_token_for cr priv prov cn cert now (x5c_jti r0 r1) jwt"
    unfolding x5c_token_for_def using x5c_segments_built [OF assms(4)] b b64url_text_encode by blast
qed

section \<open>Properties of the X.509 layer\<close>

text \<open>(C6) The certificate signing request: for every common name of at most 31 characters and every
  64-byte public key, no array of \<open>build_cri\<close> and \<open>build_csr\<close> overflows; when signing fails the
  result is empty; when it succeeds the request has at most 254 bytes, the signature was made over
  the SHA-256 of exactly the bytes \<open>build_cri\<close> built, and reading the request with the code's own
  DER reader gives back the version, the common name, the curve, the public key and the two
  signature numbers, each written as a non-negative INTEGER.\<close>

theorem build_csr_correct:
  assumes "crypto_ok cr" and "length cn \<le> 31" and "length pub = 64"
  shows "\<exists>cri. build_cri 512 cn pub = Some cri \<and>
    (case uECC_sign cr priv (sha256 cr cri) of
       None \<Rightarrow> build_csr cr 800 cn pub priv = Some []
     | Some sig \<Rightarrow> \<exists>csr. build_csr cr 800 cn pub priv = Some csr \<and> length csr \<le> 254 \<and>
         csr_reads_as csr cn pub (take 32 sig) (drop 32 sig))"
proof -
  have cri: "build_cri 512 cn pub = Some (tlv 0x30 (csr_info cn pub))"
    using assms by (intro build_cri_eq) auto
  show ?thesis
  proof (cases "uECC_sign cr priv (sha256 cr (tlv 0x30 (csr_info cn pub)))")
    case None
    then show ?thesis using cri by (simp add: build_csr_def)
  next
    case (Some sig)
    then have sig: "length sig = 64" using assms(1) by (auto simp: crypto_ok_def)
    have "build_csr cr 800 cn pub priv = Some (tlv 0x30 (csr_body cn pub sig))"
      using assms Some sig by (intro build_csr_eq) auto
    moreover have "length (tlv 0x30 (csr_body cn pub sig)) \<le> 254"
      using csr_body_length [OF assms(2,3) sig] by (simp add: len_simps)
    ultimately show ?thesis using cri Some csr_reads_back [OF assms(2,3) sig] by auto
  qed
qed

definition demo_sign :: crypto where
  "demo_sign = \<lparr> sha256 = (\<lambda>m. replicate 32 1), uECC_sign = (\<lambda>d h. Some (replicate 64 0x90)) \<rparr>"

theorem build_csr_correct_witness:
  "\<exists>cri csr. build_cri 512 ''device-0a1b2c'' (replicate 64 7) = Some cri \<and>
     build_csr demo_sign 800 ''device-0a1b2c'' (replicate 64 7) (replicate 32 5) = Some csr \<and>
     csr_reads_as csr ''device-0a1b2c'' (replicate 64 7) (replicate 32 0x90) (replicate 32 0x90)"
proof -
  have "crypto_ok demo_sign" by (auto simp: crypto_ok_def demo_sign_def)
  moreover have "length ''device-0a1b2c'' \<le> 31" "length (replicate 64 (7 :: byte)) = 64" by simp_all
  ultimately show ?thesis
    using build_csr_correct [of demo_sign "''device-0a1b2c''" "replicate 64 7" "replicate 32 5"]
    by (auto simp: demo_sign_def take_replicate)
qed

text \<open>(C14) The EC private key file: for a 32-byte scalar and a 64-byte public key \<open>build_ec_priv_der\<close>
  does not overflow its arrays, and the pattern search of \<open>ec_priv_from_der\<close> finds the scalar in
  the result, for every value of the scalar and of the public key.\<close>

theorem ec_priv_roundtrip:
  assumes "length d = 32" and "length pub = 64"
  shows "\<exists>der. build_ec_priv_der 200 d pub = Some der \<and> ec_priv_from_der der = Some d"
  using build_ec_priv_der_eq [of d pub 200] assms ec_priv_from_der_skip [of d] by auto

theorem ec_priv_roundtrip_witness:
  "\<exists>der. build_ec_priv_der 200 (replicate 32 4) (replicate 64 0x20) = Some der \<and>
     ec_priv_from_der der = Some (replicate 32 4)"
  by (rule ec_priv_roundtrip) simp_all

text \<open>(C7) The X5C token, for a signer certificate of at most 597 bytes, and a common name of at most 31
  and a provisioner name of at most 16 characters that need no escape in JSON: no array overflows,
  and the function returns false exactly when signing fails. Otherwise the token is three segments
  separated by dots, each unpadded base64url. A strict JSON reader reads the first as the header
  \<open>alg\<close> = ES256, \<open>typ\<close> = JWT, \<open>x5c\<close> = the certificate in standard base64, and the second as the claims: the
  provisioner in \<open>iss\<close> and at the end of \<open>aud\<close>, the common name in \<open>sub\<close> and \<open>sans\<close>, issue time and start of
  validity now, expiry 300 seconds later (as 32-bit numbers), and the two random words in \<open>jti\<close>. The
  third is the signature over the first two and the dot between them.\<close>

theorem build_x5c_jwt_correct:
  assumes "crypto_ok cr" and "length cert \<le> 597" and "length cn \<le> 31" and "length prov \<le> 16" and "bare cn" and "bare prov"
  shows "\<exists>hdr pl. x5c_segments prov cn cert now (fmt_0x 8 (unat r0) @ fmt_0x 8 (unat r1)) hdr pl \<and>
    (case uECC_sign cr priv (sha256 cr (map byte_of (hdr @ ''.'' @ pl))) of
       None \<Rightarrow> build_x5c_jwt cr now r0 r1 cn prov cert priv = Some None
     | Some s \<Rightarrow> \<exists>sg. b64url_text sg s \<and> build_x5c_jwt cr now r0 r1 cn prov cert priv = Some (Some (hdr @ ''.'' @ pl @ ''.'' @ sg)))"
proof -
  let ?h = "x5c_hdr_seg cert" and ?p = "x5c_pl_seg cn prov now r0 r1"
  have "x5c_segments prov cn cert now (fmt_0x 8 (unat r0) @ fmt_0x 8 (unat r1)) ?h ?p"
    using x5c_segments_built [OF assms(4-6)] by (simp add: x5c_jti_def)
  moreover have "case uECC_sign cr priv (sha256 cr (map byte_of (?h @ ''.'' @ ?p))) of
       None \<Rightarrow> build_x5c_jwt cr now r0 r1 cn prov cert priv = Some None
     | Some s \<Rightarrow> \<exists>sg. b64url_text sg s \<and> build_x5c_jwt cr now r0 r1 cn prov cert priv = Some (Some (?h @ ''.'' @ ?p @ ''.'' @ sg))"
    unfolding build_x5c_jwt_fits [OF assms(2,3,4)] x5c_signed_def
    using assms(1) b64url_text_encode by (auto simp: crypto_ok_def split: option.splits)
  ultimately show ?thesis by blast
qed

theorem build_x5c_jwt_correct_witness:
  "\<exists>hdr pl sg. x5c_segments ''device-bootstrap'' ''device-1'' [0x30, 0x00] 1700000000 ''0000000100000002'' hdr pl \<and>
     build_x5c_jwt demo_sign 1700000000 1 2 ''device-1'' ''device-bootstrap'' [0x30, 0x00] [] = Some (Some (hdr @ ''.'' @ pl @ ''.'' @ sg))"
proof -
  have "crypto_ok demo_sign" by (auto simp: crypto_ok_def demo_sign_def)
  moreover have "length [0x30 :: byte, 0x00] \<le> 597" "length ''device-1'' \<le> 31" "length ''device-bootstrap'' \<le> 16"
    "bare ''device-1''" "bare ''device-bootstrap''" by (simp_all add: is_control_def)
  moreover have "fmt_0x 8 (unat (1 :: u32)) @ fmt_0x 8 (unat (2 :: u32)) = ''0000000100000002''"
    by code_simp
  ultimately show ?thesis
    using build_x5c_jwt_correct [of demo_sign "[0x30, 0x00]" "''device-1''" "''device-bootstrap''" 1700000000 1 2 "[]"]
    by (fastforce simp: demo_sign_def)
qed

text \<open>(C29) The size limit of the token builder is below what its caller passes: a signer
  certificate of 598 to 600 bytes, which the caller's 600-byte array accepts, makes the base64 text
  800 characters long and its terminating NUL is written one cell behind the 800-cell array
  \<open>cert_b64\<close>. Up to 597 bytes there is no overflow.\<close>

theorem x5c_jwt_overflow_iff:
  assumes "crypto_ok cr" and "length cn \<le> 31" and "length prov \<le> 16"
  shows "build_x5c_jwt cr now r0 r1 cn prov cert priv = None \<longleftrightarrow> 597 < length cert"
proof (cases "597 < length cert")
  case True
  then show ?thesis by (simp add: build_x5c_jwt_overflow)
next
  case False
  then show ?thesis
    using build_x5c_jwt_fits [of cert cn prov] assms by (auto simp: crypto_ok_def split: option.splits)
qed

theorem x5c_jwt_overflow_iff_witness:
  "build_x5c_jwt demo_sign 1700000000 1 2 ''device-1'' PROV_BOOTSTRAP (replicate 600 0x30) [] = None"
proof -
  have "crypto_ok demo_sign" by (auto simp: crypto_ok_def demo_sign_def)
  moreover have "length ''device-1'' \<le> 31" "length PROV_BOOTSTRAP \<le> 16" by (simp_all add: PROV_BOOTSTRAP_def)
  ultimately show ?thesis by (simp add: x5c_jwt_overflow_iff)
qed

lemma parse_leaf_pem:
  assumes "0 \<le> t" and "t < 2 ^ 31" and "time_field t (cf_not_after f)"
    and "length (cert_der f) \<le> 767" and "NUL \<notin> set label" and "LF \<notin> set label"
  shows "parse_leaf_not_after (pem_block label (cert_der f)) = Some (Some t)"
proof -
  have "pem_to_der (pem_block label (cert_der f)) 1024 = cert_der f"
    using pem_to_der_block_gen [OF assms(5,6)] assms(4) by simp
  then show ?thesis
    using parse_leaf_der assms(1,2,4) parse_time_field [OF assms(1-3)] by (simp add: tm_to_unix_gmtime)
qed

lemma leaf_date_pem:
  assumes "0 \<le> t" "t < 2114380800" "time_field t (cf_not_after f)" "length (cert_der f) \<le> 767" "NUL \<notin> set label" "LF \<notin> set label"
  shows "leaf_date_ok (pem_block label (cert_der f))"
proof -
  have "pem_to_der (pem_block label (cert_der f)) 1024 = cert_der f" using pem_to_der_block_gen [OF assms(5,6)] assms(4) by simp
  then have n: "not_after_field (pem_block label (cert_der f)) = Some (Some (cf_not_after f))" using assms(4) by (intro not_after_field_der) simp_all
  have t: "t < 2 ^ 31" using assms(2) by simp
  have "date_ok (gmtime t)" using gmtime_ranges [OF assms(1) t] gmtime_year [OF assms(1,2)] by (simp add: date_ok_def)
  then show ?thesis using n parse_time_field [OF assms(1) t assms(3)] by (auto simp: leaf_date_ok_def)
qed

text \<open>(C5) Reading the expiry time: for every certificate of at most 767 bytes whose notAfter is the
  UTCTime or the GeneralizedTime of the instant \<open>t\<close> before 2038-01-19, with or without the version field and whatever the
  skipped fields hold, \<open>parse_leaf_not_after\<close> of its PEM text succeeds with exactly \<open>t\<close>.\<close>

theorem parse_leaf_not_after_correct:
  assumes "0 \<le> t" and "t < 2 ^ 31"
    and "cf_not_after f = (0x17, utc_time_of (gmtime t)) \<or> cf_not_after f = (0x18, gen_time_of (gmtime t))"
    and "length (cert_der f) \<le> 767" and "NUL \<notin> set label" and "LF \<notin> set label"
  shows "parse_leaf_not_after (pem_block label (cert_der f)) = Some (Some t)"
  by (rule parse_leaf_pem) (use assms in \<open>simp_all add: time_field_def\<close>)

definition demo_cert :: cert_fields where
  "demo_cert = \<lparr> cf_version = Some [2, 1, 2], cf_serial = [5], cf_sigalg = [], cf_issuer = [],
     cf_not_before = (0x17, []), cf_not_after = (0x17, utc_time_of (gmtime 1767225600)),
     cf_rest = [], cf_signature = [] \<rparr>"

lemma dig2_length [len_simps]: "length (dig2 n) = 2"
  by (simp add: dig2_def)

lemma utc_time_of_length [len_simps]: "length (utc_time_of t) = 13"
  by (simp add: utc_time_of_def len_simps)

lemma demo_cert_length: "length (cert_der demo_cert) \<le> 767"
  by (simp add: cert_der_def asn1_seq_tlv tlv_length asn1_len_length cert_tbs_def cert_tail_def
      cert_validity_def demo_cert_def len_simps)

theorem parse_leaf_not_after_correct_witness:
  "parse_leaf_not_after (pem_block ''CERTIFICATE'' (cert_der demo_cert)) = Some (Some 1767225600)"
  by (rule parse_leaf_not_after_correct) (simp_all add: demo_cert_length, simp add: demo_cert_def)

text \<open>(C38) The limit of that function: a certificate of more than 767 bytes (and less than 64 KiB) is
  never read, because the collected base64 text is cut at 1023 characters; the answer is false
  although \<open>leaf_der\<close> has room for 1024 bytes and the header promises a failure only above
  \<open>out_max\<close>.\<close>

theorem parse_leaf_not_after_too_long:
  assumes "767 < length (cert_der f)" and "length (cert_der f) < 65536" and "NUL \<notin> set label" and "LF \<notin> set label"
  shows "parse_leaf_not_after (pem_block label (cert_der f)) = Some None"
proof -
  have der: "cert_der f = tlv 0x30 (tlv 0x30 (cert_tbs f) @ cf_signature f)" (is "_ = tlv _ ?i")
    by (simp add: cert_der_def asn1_seq_tlv)
  have p: "pem_to_der (pem_block label (cert_der f)) 1024 = take 767 (cert_der f)"
    using pem_to_der_block_gen [OF assms(3,4), of "cert_der f" 1024] by (simp add: min_def)
  have l: "length (take 767 (cert_der f)) = 767" using assms(1) by simp
  have "asn1_walk_next (take 767 (cert_der f)) 0 767 = Some Null"
    unfolding der by (rule walk_cut) (use assms(1,2) der in \<open>simp_all add: tlv_length\<close>)
  then show ?thesis
    unfolding parse_leaf_not_after_def Let_def p l walk_then_def by simp
qed

theorem parse_leaf_not_after_too_long_witness:
  "parse_leaf_not_after (pem_block ''CERTIFICATE'' (cert_der (demo_cert\<lparr>cf_rest := replicate 800 0\<rparr>))) = Some None"
  by (rule parse_leaf_not_after_too_long)
    (simp_all add: cert_der_def asn1_seq_tlv tlv_length asn1_len_length cert_tbs_def cert_tail_def
      cert_validity_def demo_cert_def len_simps)

text \<open>(C30) \<open>tm_to_unix_utc\<close> inverts \<open>gmtime\<close> for every time from the epoch to the end of the 32-bit
  range, leap years included; from 2038-01-19T03:14:08Z on its \<open>long\<close> arithmetic overflows. A month
  field above 13, which \<open>parse_x509_time\<close> accepts, makes it read behind \<open>month_days\<close>.\<close>

theorem tm_to_unix_utc_inverse:
  "\<forall>t \<ge> 0. (tm_to_unix_utc (gmtime t) = (if t < 2 ^ 31 then Some t else None)) \<and>
     (\<forall>x. 12 < tm_mon x \<longrightarrow> tm_to_unix_utc x = None)"
  using tm_to_unix_gmtime tm_to_unix_bad_month by blast

theorem tm_to_unix_utc_inverse_witness:
  "tm_to_unix_utc (gmtime 1767225600) = Some 1767225600 \<and> tm_to_unix_utc (gmtime (2 ^ 31)) = None \<and>
   tm_to_unix_utc ((gmtime 0)\<lparr>tm_mon := 13\<rparr>) = None"
proof -
  have "(0 :: int) \<le> 1767225600" "(1767225600 :: int) < 2 ^ 31" "(0 :: int) \<le> 2 ^ 31" "12 < tm_mon ((gmtime 0)\<lparr>tm_mon := 13\<rparr>)"
    by simp_all
  then show ?thesis using tm_to_unix_utc_inverse by (smt (verit, best))
qed


lemma rng_loop_prefix:
  "rng_loop rng i n = take n (concat (map (\<lambda>k. le_bytes (rng k)) [i..<i + (n + 3) div 4]))"
proof (induction rng i n rule: rng_loop.induct)
  case (1 rng i n)
  consider "n = 0" | "n \<noteq> 0" "n < 4" | "4 \<le> n" by linarith
  then show ?case
  proof cases
    case 2
    then have "(n + 3) div 4 = 1" by (simp add: div_nat_eqI)
    then show ?thesis using 2 by (simp add: rng_loop.simps [of rng i n] Let_def rng_loop.simps [of rng _ 0])
  next
    case 3
    then have d: "(n + 3) div 4 = Suc ((n - 4 + 3) div 4)" by (simp add: div_nat_eqI le_div_geq)
    have "[i..<i + (n + 3) div 4] = i # [Suc i..<Suc i + (n - 4 + 3) div 4]"
      unfolding d by (simp add: upt_conv_Cons)
    then show ?thesis using 3 1 by (simp add: rng_loop.simps [of rng i n] Let_def)
  qed (simp add: rng_loop.simps)
qed

text \<open>(C39) The random generator callback fills exactly the requested number of bytes, whatever it is,
  and takes them in order from the little-endian bytes of as few successive hardware random words as
  hold them.\<close>

theorem rng_func_fills:
  "length (rng_func rng sz) = sz \<and>
   rng_func rng sz = take sz (concat (map (\<lambda>k. le_bytes (rng k)) [0..<(sz + 3) div 4]))"
  using rng_loop_length [of rng 0 sz] rng_loop_prefix [of rng 0 sz] by (simp add: rng_func_def)

end
