(* ===== verification/Fs_Store.thy ===== *)
theory Fs_Store
  imports Crypto_Pki
begin

text \<open>
  The file layer, \<open>fs_store.cpp\<close>. LittleFS itself is not part of the repository: the operations
  the firmware calls are the fields of the record \<open>littlefs\<close> over an arbitrary file system state
  \<open>'f\<close>, and \<open>littlefs_ok\<close> states what the firmware relies on. The component's functions take
  the record and the state and return the new state.
\<close>

section \<open>LittleFS as a parameter\<close>

text \<open>
  \<open>lfs_can_write fs p\<close>: \<open>open(p, "w")\<close> gives a usable handle; \<open>lfs_write_file fs p cs\<close>: the
  state after \<open>open(p, "w")\<close>, the successive writes \<open>cs\<close> and \<open>close()\<close>; \<open>lfs_room fs p cs\<close>: how many of
  these characters the medium takes, fewer than all when it is full; \<open>lfs_read_string fs p\<close>:
  \<open>open(p, "r")\<close> and \<open>readString()\<close>, \<open>None\<close> when the handle is not usable.
\<close>

record 'f littlefs =
  lfs_exists :: "'f \<Rightarrow> path \<Rightarrow> bool"
  lfs_can_write :: "'f \<Rightarrow> path \<Rightarrow> bool"
  lfs_write_file :: "'f \<Rightarrow> path \<Rightarrow> string list \<Rightarrow> 'f"
  lfs_room :: "'f \<Rightarrow> path \<Rightarrow> string list \<Rightarrow> nat"
  lfs_read_string :: "'f \<Rightarrow> path \<Rightarrow> string option"
  lfs_remove :: "'f \<Rightarrow> path \<Rightarrow> 'f"
  lfs_rename :: "'f \<Rightarrow> path \<Rightarrow> path \<Rightarrow> 'f"

text \<open>
  What the operations do, seen through \<open>lfs_read_string\<close>: of a written text file the part that the
  medium took reads back, a removed one is gone, a rename moves a file onto its new name
  and does nothing when there is no such file, and no operation touches another path.
\<close>

definition littlefs_ok :: "'f littlefs \<Rightarrow> bool" where
  "littlefs_ok lfs \<longleftrightarrow>
     (\<forall>fs p. lfs_exists lfs fs p \<longleftrightarrow> lfs_read_string lfs fs p \<noteq> None) \<and>
     (\<forall>fs p cs. lfs_can_write lfs fs p \<longrightarrow> NUL \<notin> set (concat cs) \<longrightarrow>
        lfs_read_string lfs (lfs_write_file lfs fs p cs) =
          (lfs_read_string lfs fs)(p \<mapsto> take (lfs_room lfs fs p cs) (concat cs))) \<and>
     (\<forall>fs p q cs. q \<noteq> p \<longrightarrow> lfs_read_string lfs (lfs_write_file lfs fs p cs) q = lfs_read_string lfs fs q) \<and>
     (\<forall>fs p. lfs_read_string lfs (lfs_remove lfs fs p) = (lfs_read_string lfs fs)(p := None)) \<and>
     (\<forall>fs p q. p \<noteq> q \<longrightarrow> lfs_read_string lfs (lfs_rename lfs fs p q) =
        (if lfs_read_string lfs fs p = None then lfs_read_string lfs fs
         else (lfs_read_string lfs fs)(q := lfs_read_string lfs fs p, p := None)))"

text \<open>A file system that is just a finite map of text files meets the requirements.\<close>

definition map_lfs :: "(path \<rightharpoonup> string) littlefs" where
  "map_lfs = \<lparr>
     lfs_exists = (\<lambda>fs p. fs p \<noteq> None),
     lfs_can_write = (\<lambda>fs p. True),
     lfs_write_file = (\<lambda>fs p cs. fs(p \<mapsto> concat cs)),
     lfs_room = (\<lambda>fs p cs. length (concat cs)),
     lfs_read_string = (\<lambda>fs. fs),
     lfs_remove = (\<lambda>fs p. fs(p := None)),
     lfs_rename = (\<lambda>fs p q. if fs p = None then fs else fs(q := fs p, p := None)) \<rparr>"

text \<open>A path that can be written, on a medium with room for whatever is written.\<close>

definition lfs_takes :: "'f littlefs \<Rightarrow> 'f \<Rightarrow> path \<Rightarrow> bool" where
  "lfs_takes lfs fs p \<longleftrightarrow> lfs_can_write lfs fs p \<and> (\<forall>cs. length (concat cs) \<le> lfs_room lfs fs p cs)"

section \<open>Operations\<close>

definition pem_begin :: "string \<Rightarrow> string" where
  "pem_begin label = ''-----BEGIN '' @ label @ ''-----'' @ [LF]"

definition pem_end :: "string \<Rightarrow> string" where
  "pem_end label = ''-----END '' @ label @ ''-----'' @ [LF]"

definition save_pem :: "'f littlefs \<Rightarrow> 'f \<Rightarrow> path \<Rightarrow> string \<Rightarrow> bytes \<Rightarrow> 'f option" where
  "save_pem lfs fs path label der =
     (if \<not> lfs_can_write lfs fs path then Some fs else do {
        b64 \<leftarrow> put_buf 1024 (base64_encode der @ [NUL]);
        Some (lfs_write_file lfs fs path
          ([pem_begin label] @ concat (map (\<lambda>l. [l, [LF]]) (chunks 64 (base64_encode der))) @ [pem_end label]))
      })"

definition read_file :: "'f littlefs \<Rightarrow> 'f \<Rightarrow> path \<Rightarrow> string" where
  "read_file lfs fs path = (case lfs_read_string lfs fs path of None \<Rightarrow> [] | Some s \<Rightarrow> s)"

definition save_exp :: "'f littlefs \<Rightarrow> 'f \<Rightarrow> int \<Rightarrow> 'f" where
  "save_exp lfs fs t =
     (if \<not> lfs_can_write lfs fs PATH_DEV_EXP then fs
      else lfs_write_file lfs fs PATH_DEV_EXP [fmt_u (ulong t)])"

definition read_exp :: "'f littlefs \<Rightarrow> 'f \<Rightarrow> int" where
  "read_exp lfs fs =
     (let s = read_file lfs fs PATH_DEV_EXP in
      if length s = 0 then 0 else int (strtoul10 s))"

section \<open>Lemmas\<close>

lemma map_lfs_ok: "littlefs_ok map_lfs"
  by (auto simp: littlefs_ok_def map_lfs_def)

lemma lfs_exists_iff: "littlefs_ok lfs \<Longrightarrow> lfs_exists lfs fs p \<longleftrightarrow> lfs_read_string lfs fs p \<noteq> None"
  by (simp add: littlefs_ok_def)

lemma map_lfs_takes: "lfs_takes map_lfs fs p"
  by (simp add: lfs_takes_def map_lfs_def)

lemma lfs_read_cut:
  "littlefs_ok lfs \<Longrightarrow> lfs_can_write lfs fs p \<Longrightarrow> NUL \<notin> set (concat cs) \<Longrightarrow>
   lfs_read_string lfs (lfs_write_file lfs fs p cs) = (lfs_read_string lfs fs)(p \<mapsto> take (lfs_room lfs fs p cs) (concat cs))"
  by (simp add: littlefs_ok_def)

lemma lfs_read_write:
  "littlefs_ok lfs \<Longrightarrow> lfs_takes lfs fs p \<Longrightarrow> NUL \<notin> set (concat cs) \<Longrightarrow>
   lfs_read_string lfs (lfs_write_file lfs fs p cs) = (lfs_read_string lfs fs)(p \<mapsto> concat cs)"
  using lfs_read_cut [of lfs fs p cs] by (simp add: lfs_takes_def del: set_concat length_concat)

lemma lfs_write_frame:
  "littlefs_ok lfs \<Longrightarrow> q \<noteq> p \<Longrightarrow> lfs_read_string lfs (lfs_write_file lfs fs p cs) q = lfs_read_string lfs fs q"
  by (simp add: littlefs_ok_def)

lemma lfs_read_remove:
  "littlefs_ok lfs \<Longrightarrow> lfs_read_string lfs (lfs_remove lfs fs p) = (lfs_read_string lfs fs)(p := None)"
  by (simp add: littlefs_ok_def)

lemma lfs_read_rename:
  "littlefs_ok lfs \<Longrightarrow> p \<noteq> q \<Longrightarrow> lfs_read_string lfs (lfs_rename lfs fs p q) =
     (if lfs_read_string lfs fs p = None then lfs_read_string lfs fs
      else (lfs_read_string lfs fs)(q := lfs_read_string lfs fs p, p := None))"
  by (simp add: littlefs_ok_def)

lemma pem_lines_block:
  "concat ([pem_begin label] @ concat (map (\<lambda>l. [l, [LF]]) (chunks 64 (base64_encode der))) @ [pem_end label]) =
   pem_block label der"
proof -
  have "concat (concat (map (\<lambda>l. [l, [LF]]) ls)) = concat (map (\<lambda>l. l @ [LF]) ls)" for ls
    by (induction ls) auto
  then show ?thesis by (simp add: pem_block_def pem_begin_def pem_end_def)
qed

lemma pem_block_no_NUL: "NUL \<notin> set label \<Longrightarrow> NUL \<notin> set (pem_block label der)"
proof -
  have "NUL \<notin> set c" if "c \<in> set (chunks 64 (base64_encode der))" for c
    using chunks_set [OF _ that] base64_no_NUL(1) [of der] by auto
  moreover assume "NUL \<notin> set label"
  ultimately show ?thesis by (auto simp: pem_block_def)
qed

lemma save_pem_overflow: "lfs_can_write lfs fs p \<Longrightarrow> save_pem lfs fs p label der = None \<longleftrightarrow> 765 < length der"
proof -
  have "765 < length der \<longleftrightarrow> 1024 < 4 * ((length der + 2) div 3) + 1"
    using div_less_iff_less_mult [of 3 "length der + 2" 256] by linarith
  then show "lfs_can_write lfs fs p \<Longrightarrow> ?thesis" by (simp add: save_pem_def put_buf_def len_simps)
qed

lemma save_pem_view:
  assumes "littlefs_ok lfs" "lfs_takes lfs fs p" "NUL \<notin> set label" "length der \<le> 765"
  shows "\<exists>fs'. save_pem lfs fs p label der = Some fs' \<and>
    lfs_read_string lfs fs' = (lfs_read_string lfs fs)(p \<mapsto> pem_block label der)"
proof -
  let ?cs = "[pem_begin label] @ concat (map (\<lambda>l. [l, [LF]]) (chunks 64 (base64_encode der))) @ [pem_end label]"
  have "save_pem lfs fs p label der = Some (lfs_write_file lfs fs p ?cs)"
    using assms(2,4) by (simp add: save_pem_def put_buf_def len_simps lfs_takes_def)
  moreover have "lfs_read_string lfs (lfs_write_file lfs fs p ?cs) = (lfs_read_string lfs fs)(p \<mapsto> concat ?cs)"
    by (rule lfs_read_write [OF assms(1,2)]) (simp only: pem_lines_block pem_block_no_NUL [OF assms(3)] not_False_eq_True)
  ultimately show ?thesis unfolding pem_lines_block by blast
qed

lemma save_exp_view:
  "littlefs_ok lfs \<Longrightarrow> lfs_takes lfs fs PATH_DEV_EXP \<Longrightarrow>
   lfs_read_string lfs (save_exp lfs fs t) = (lfs_read_string lfs fs)(PATH_DEV_EXP \<mapsto> fmt_u (ulong t))"
  using lfs_read_write [of lfs fs PATH_DEV_EXP "[fmt_u (ulong t)]"] by (simp add: save_exp_def fmt_u_no_NUL lfs_takes_def)

lemma read_exp_text: "lfs_read_string lfs fs PATH_DEV_EXP = Some (fmt_u (ulong t)) \<Longrightarrow> read_exp lfs fs = t mod 2 ^ 32"
  using strtoul10_fmt_u [OF ulong_less, of t] radix10_not_Nil [of "ulong t"]
  by (simp add: read_exp_def read_file_def fmt_u_def ulong_def)

section \<open>Properties of the file layer\<close>

text \<open>(C25) A DER object saved with \<open>save_pem\<close> on a medium with room: up to 765 bytes the static base64 array suffices, the file
  read back with \<open>read_file\<close> and \<open>pem_to_der\<close> gives exactly the saved bytes, and no other file
  changes. Above 765 bytes the terminating NUL of the base64 text overruns the array.\<close>

theorem save_pem_roundtrip:
  assumes "littlefs_ok lfs" and "lfs_takes lfs fs p" and "NUL \<notin> set label" and "LF \<notin> set label"
  shows "if length der \<le> 765
    then \<exists>fs'. save_pem lfs fs p label der = Some fs' \<and> pem_to_der (read_file lfs fs' p) 1024 = der \<and>
      (\<forall>q. q = p \<or> read_file lfs fs' q = read_file lfs fs q)
    else save_pem lfs fs p label der = None"
proof (cases "length der \<le> 765")
  case True
  obtain fs' where s: "save_pem lfs fs p label der = Some fs'"
    and v: "lfs_read_string lfs fs' = (lfs_read_string lfs fs)(p \<mapsto> pem_block label der)"
    using save_pem_view [OF assms(1-3) True] by blast
  have "pem_to_der (read_file lfs fs' p) 1024 = der"
    using pem_to_der_block_gen [OF assms(3,4), of der 1024] True by (simp add: read_file_def v)
  moreover have "q = p \<or> read_file lfs fs' q = read_file lfs fs q" for q
    by (simp add: read_file_def v)
  ultimately show ?thesis using s True by simp
next
  case False
  then show ?thesis using save_pem_overflow [of lfs fs p label der] assms(2) by (simp add: lfs_takes_def)
qed

theorem save_pem_roundtrip_witness:
  "\<exists>fs'. save_pem map_lfs Map.empty PATH_DEV_KEY ''EC PRIVATE KEY'' [1, 2, 3] = Some fs' \<and>
     pem_to_der (read_file map_lfs fs' PATH_DEV_KEY) 1024 = [1, 2, 3]"
  using save_pem_roundtrip [OF map_lfs_ok map_lfs_takes, of "''EC PRIVATE KEY''" "[1, 2, 3]" Map.empty PATH_DEV_KEY] by auto

text \<open>(C26) The expiry file, on a medium with room: what \<open>save_exp\<close> writes \<open>read_exp\<close> reads back, for every time that fits an
  \<open>unsigned long\<close> (until 2106), and no other file changes; later times lose their high bits.\<close>

theorem save_exp_roundtrip:
  assumes "littlefs_ok lfs" and "lfs_takes lfs fs PATH_DEV_EXP"
  shows "read_exp lfs (save_exp lfs fs t) = t mod 2 ^ 32 \<and>
    (0 \<le> t \<and> t < 2 ^ 32 \<longrightarrow> read_exp lfs (save_exp lfs fs t) = t) \<and>
    (\<forall>q. q = PATH_DEV_EXP \<or> read_file lfs (save_exp lfs fs t) q = read_file lfs fs q)"
  using read_exp_text [of lfs "save_exp lfs fs t" t] save_exp_view [OF assms, of t]
  by (simp add: read_file_def)

theorem save_exp_roundtrip_witness:
  "read_exp map_lfs (save_exp map_lfs Map.empty 1767225600) = 1767225600"
  using save_exp_roundtrip [OF map_lfs_ok map_lfs_takes, of Map.empty 1767225600] by simp

end
