(* ===== verification/Stepca.thy ===== *)
theory Stepca
  imports Fs_Store
begin

text \<open>
  The certificate authority client, \<open>stepca.cpp\<close>: the flat JSON reader and writer, the HTTPS exchange,
  the sign and rekey requests, and the provisioning of a device certificate. A function that can fail
  yields \<open>Inl\<close> with the reason where the code logs a failure and returns false, and \<open>Inr\<close> with the outputs
  where it returns true. The exchange itself uses no fixed-size array: its \<open>None\<close> says that it has not
  returned within the observed input. The functions above it have the three outcomes of \<open>exec\<close>.
  \<open>readStringUntil\<close> is the documented one of the Arduino core. Exhaustion of the heap is not modelled.
\<close>

section \<open>JSON and PEM text\<close>

text \<open>The copy loop of \<open>json_extract\<close>, from the first character of the value on.\<close>

fun json_value :: "string \<Rightarrow> string" where
  "json_value [] = []"
| "json_value (c # cs) =
     (if c = BSLASH \<and> cs \<noteq> [] then
        (let n = hd cs in
         (if n = CHR ''n'' then LF
          else if n = CHR ''r'' then CR
          else if n = CHR ''t'' then TAB
          else if n = QUOTE then QUOTE
          else if n = BSLASH then BSLASH
          else if n = CHR ''/'' then CHR ''/''
          else n) # json_value (tl cs))
      else if c = QUOTE then []
      else c # json_value cs)"

definition json_extract :: "string \<Rightarrow> string \<Rightarrow> string" where
  "json_extract body key =
     (let needle = [QUOTE] @ key @ [QUOTE, CHR '':'', QUOTE] in
      case indexOf body needle of
        None \<Rightarrow> []
      | Some s \<Rightarrow> json_value (drop (s + length needle) body))"

definition der_to_pem_string :: "bytes \<Rightarrow> string \<Rightarrow> string option" where
  "der_to_pem_string der label = do {
     b64 \<leftarrow> put_buf 1400 (base64_encode der @ [NUL]);
     Some (''-----BEGIN '' @ label @ ''-----'' @ [LF]
       @ concat (map (\<lambda>l. cstr (l @ [LF, NUL])) (chunks 64 (butlast b64)))
       @ ''-----END '' @ label @ ''-----'' @ [LF])
   }"

definition stepca_to_rfc3339_utc :: "int \<Rightarrow> nat \<Rightarrow> string option" where
  "stepca_to_rfc3339_utc t out_size =
     (let s = strftime_rfc3339 (gmtime t) in if length s < out_size then Some s else None)"

fun json_escaped :: "string \<Rightarrow> string" where
  "json_escaped [] = []"
| "json_escaped (c # cs) =
     (if c = LF then [BSLASH, CHR ''n'']
      else if c = CR then []
      else if c = QUOTE then [BSLASH, QUOTE]
      else if c = BSLASH then [BSLASH, BSLASH]
      else [c]) @ json_escaped cs"

definition append_json_escaped :: "string \<Rightarrow> string \<Rightarrow> string" where
  "append_json_escaped dst src = dst @ json_escaped src"

section \<open>The HTTPS exchange\<close>

text \<open>
  A TLS connection, as the code sees it, is the sequence of what its polls find: a character, nothing
  yet, nothing yet with the time limit of the running wait passed, or the peer gone. A list that
  ends without \<open>Closed\<close> is a connection observed so far: a loop that is still waiting there has the
  result \<open>None\<close>.
\<close>

datatype conn_ev = Data char | Idle | Timeout | Closed

text \<open>\<open>readStringUntil('\n')\<close>: stops behind a LF, or with what it has when the time is up.\<close>

fun readStringUntil_LF :: "conn_ev list \<Rightarrow> (string \<times> conn_ev list) option" where
  "readStringUntil_LF [] = None"
| "readStringUntil_LF (Data c # ev) =
     (if c = LF then Some ([], ev) else map_option (\<lambda>(s, ev). (c # s, ev)) (readStringUntil_LF ev))"
| "readStringUntil_LF (Idle # ev) = readStringUntil_LF ev"
| "readStringUntil_LF (Timeout # ev) = Some ([], ev)"
| "readStringUntil_LF (Closed # ev) = Some ([], Closed # ev)"

text \<open>The wait for the first character: \<open>while (!available && connected && elapsed < 10000)\<close>.\<close>

fun wait_response :: "conn_ev list \<Rightarrow> conn_ev list option" where
  "wait_response [] = None"
| "wait_response (Data c # ev) = Some (Data c # ev)"
| "wait_response (Idle # ev) = wait_response ev"
| "wait_response (Timeout # ev) = Some (Timeout # ev)"
| "wait_response (Closed # ev) = Some (Closed # ev)"

definition available :: "conn_ev list \<Rightarrow> bool" where
  "available ev = (case ev of Data c # _ \<Rightarrow> True | _ \<Rightarrow> False)"

lemma readStringUntil_LF_shorter:
  "readStringUntil_LF ev = Some (l, ev') \<Longrightarrow> hd ev \<noteq> Closed \<Longrightarrow> length ev' < length ev"
proof (induction ev arbitrary: l rule: readStringUntil_LF.induct)
  case (2 c ev)
  then show ?case by (cases ev rule: readStringUntil_LF.cases) (auto split: if_splits)
next
  case (3 ev)
  then show ?case by (cases ev rule: readStringUntil_LF.cases) auto
qed auto

definition is_content_length :: "string \<Rightarrow> bool" where
  "is_content_length line \<longleftrightarrow> prefix_of ''Content-Length:'' line \<or> prefix_of ''content-length:'' line"

text \<open>The \<open>long\<close> of \<open>toInt()\<close> is stored in a \<open>size_t\<close>.\<close>

definition content_length_of :: "string \<Rightarrow> nat" where
  "content_length_of line = nat (atol (tl (dropWhile (\<lambda>c. c \<noteq> CHR '':'') line)) mod 2 ^ 32)"

function read_headers :: "nat \<Rightarrow> conn_ev list \<Rightarrow> (nat \<times> conn_ev list) option" where
  "read_headers cl ev =
     (if ev = [] then None
      else if hd ev = Closed then Some (cl, ev)
      else
        (case readStringUntil_LF ev of
           None \<Rightarrow> None
         | Some (l, ev') \<Rightarrow>
             let line = trim l in
             if line = [] then Some (cl, ev')
             else read_headers (if is_content_length line then content_length_of line else cl) ev'))"
  by pat_completeness auto
termination
  by (relation "measure (\<lambda>(cl, ev). length ev)") (auto dest: readStringUntil_LF_shorter)

declare read_headers.simps [simp del]

text \<open>The body with a length: no time limit. The body without: until the peer is gone or ten
  seconds have passed.\<close>

fun read_body_n :: "nat \<Rightarrow> string \<Rightarrow> conn_ev list \<Rightarrow> string option" where
  "read_body_n n acc ev =
     (if length acc < n then
        (case ev of
           [] \<Rightarrow> None
         | Data c # ev \<Rightarrow> read_body_n n (acc @ [c]) ev
         | Closed # ev \<Rightarrow> Some acc
         | _ # ev \<Rightarrow> read_body_n n acc ev)
      else Some acc)"

declare read_body_n.simps [simp del]

fun read_body_close :: "string \<Rightarrow> conn_ev list \<Rightarrow> string option" where
  "read_body_close acc [] = None"
| "read_body_close acc (Data c # ev) = read_body_close (acc @ [c]) ev"
| "read_body_close acc (Idle # ev) = read_body_close acc ev"
| "read_body_close acc (Timeout # ev) = Some acc"
| "read_body_close acc (Closed # ev) = Some acc"

record http_req =
  rq_anchor :: string
  rq_client :: "(string \<times> string) option"
  rq_text :: string

text \<open>The server's side of one exchange: whether the TLS connection opens and what the polls find.\<close>

record https_env =
  he_ip_ok :: bool
  he_connect :: bool
  he_events :: "conn_ev list"

datatype prov_error =
    KeygenFail | CsrFail | AssetsMissing | PemFail | PrivFail | JwtFail
  | CaMissing | BadIp | ConnectFail | ResponseTimeout | BadStatusLine
  | StatusFail int | CrtMissing | NotAfterFail | NewFileEmpty

definition CRLF :: string where "CRLF = [CR, LF]"

definition request_text :: "config \<Rightarrow> string \<Rightarrow> string \<Rightarrow> string \<Rightarrow> string" where
  "request_text cfg method path req_body =
     method @ '' '' @ path @ '' HTTP/1.1'' @ CRLF @
     ''Host: '' @ STEP_CA_HOST_IP cfg @ '':'' @ fmt_d (STEP_CA_PORT cfg) @ CRLF @
     ''Connection: close'' @ CRLF @
     (if 0 < length req_body
      then ''Content-Type: application/json'' @ CRLF @ ''Content-Length: '' @ fmt_u (length req_body) @ CRLF
      else []) @
     CRLF @ (if 0 < length req_body then req_body else [])"

definition read_response :: "conn_ev list \<Rightarrow> (prov_error + int \<times> string) option" where
  "read_response ev0 = do {
     ev \<leftarrow> wait_response ev0;
     if \<not> available ev then Some (Inl ResponseTimeout)
     else do {
       (l, ev) \<leftarrow> readStringUntil_LF ev;
       let status_line = trim l;
       case indexOf status_line '' '' of
         None \<Rightarrow> Some (Inl BadStatusLine)
       | Some sp1 \<Rightarrow> do {
           let out_status = atol (take 3 (drop (sp1 + 1) status_line));
           (content_length, ev) \<leftarrow> read_headers 0 ev;
           body \<leftarrow> (if 0 < content_length then read_body_n content_length [] ev else read_body_close [] ev);
           Some (Inr (out_status, body))
         }
     }
   }"

definition stepca_https ::
    "config \<Rightarrow> 'f littlefs \<Rightarrow> 'f \<Rightarrow> (http_req \<Rightarrow> https_env) \<Rightarrow> string \<Rightarrow> string \<Rightarrow> string \<Rightarrow>
     (string \<times> string) option \<Rightarrow> (prov_error + int \<times> string) option" where
  "stepca_https cfg lfs fs server method path req_body client =
     (let caPem = read_file lfs fs PATH_CA_CERT in
      if length caPem = 0 then Some (Inl CaMissing)
      else
        let env = server \<lparr> rq_anchor = caPem, rq_client = client, rq_text = request_text cfg method path req_body \<rparr> in
        if \<not> he_ip_ok env then Some (Inl BadIp)
        else if \<not> he_connect env then Some (Inl ConnectFail)
        else read_response (he_events env))"

section \<open>Sign and rekey requests\<close>

text \<open>\<open>if (!f(...)) return false;\<close> and the code behind it.\<close>

definition and_then :: "('e + 'a) exec \<Rightarrow> ('a \<Rightarrow> ('e + 'b) exec) \<Rightarrow> ('e + 'b) exec" where
  "and_then m k = exec_then m (\<lambda>r. case r of Inl e \<Rightarrow> Done (Inl e) | Inr a \<Rightarrow> k a)"

definition quoted_key :: "string \<Rightarrow> string" where
  "quoted_key key = [QUOTE] @ key @ [QUOTE, CHR '':'', QUOTE]"

text \<open>\<open>now\<close> is the clock the explicit-lifetime build reads.\<close>

definition sign_expires :: "int \<Rightarrow> int \<Rightarrow> int" where
  "sign_expires now signer_not_after =
     (let expires = now + CERT_LIFETIME_TEST_SEC in
      if signer_not_after > 0 \<and> expires > signer_not_after - 60 then signer_not_after - 60 else expires)"

definition sign_body :: "config \<Rightarrow> string \<Rightarrow> string \<Rightarrow> string \<Rightarrow> string" where
  "sign_body cfg csr_pem jwt rfc3339 =
     append_json_escaped (''{'' @ quoted_key ''csr'') csr_pem
     @ [QUOTE] @ '','' @ quoted_key ''ott'' @ jwt @ [QUOTE]
     @ (if LIFETIME_MODE_TEST_EXPLICIT cfg then '','' @ quoted_key ''notAfter'' @ rfc3339 @ [QUOTE] else [])
     @ ''}''"

definition check_status :: "int \<times> string \<Rightarrow> (prov_error + string) exec" where
  "check_status = (\<lambda>(status, resp). if status \<noteq> 200 \<and> status \<noteq> 201 then Done (Inl (StatusFail status)) else Done (Inr resp))"

definition leaf_and_inter :: "string \<Rightarrow> (prov_error + string \<times> string) exec" where
  "leaf_and_inter resp =
     (let out_leaf = json_extract resp ''crt''; out_inter = json_extract resp ''ca'' in
      if length out_leaf = 0 then Done (Inl CrtMissing) else Done (Inr (out_leaf, out_inter)))"

definition not_after_of :: "string \<Rightarrow> (prov_error + int) exec" where
  "not_after_of leaf =
     exec_then (checked (parse_leaf_not_after leaf)) (\<lambda>r.
     case r of None \<Rightarrow> Done (Inl NotAfterFail) | Some t \<Rightarrow> Done (Inr t))"

definition step_ca_sign ::
    "config \<Rightarrow> 'f littlefs \<Rightarrow> 'f \<Rightarrow> (http_req \<Rightarrow> https_env) \<Rightarrow> int \<Rightarrow> string \<Rightarrow> string \<Rightarrow> int \<Rightarrow>
     (prov_error + string \<times> string \<times> int) exec" where
  "step_ca_sign cfg lfs fs server now csr_pem jwt signer_not_after =
     (let expires = sign_expires now signer_not_after in
      exec_then (if LIFETIME_MODE_TEST_EXPLICIT cfg then checked (stepca_to_rfc3339_utc expires 32) else Done []) (\<lambda>rfc3339.
      and_then (awaited (stepca_https cfg lfs fs server ''POST'' STEP_CA_SIGN_PATH (sign_body cfg csr_pem jwt rfc3339) None)) (\<lambda>r.
      and_then (check_status r) (\<lambda>resp.
      and_then (leaf_and_inter resp) (\<lambda>(leaf, chain).
      if LIFETIME_MODE_TEST_EXPLICIT cfg then Done (Inr (leaf, chain, expires))
      else and_then (not_after_of leaf) (\<lambda>t. Done (Inr (leaf, chain, t))))))))"

definition rekey_body :: "string \<Rightarrow> string" where
  "rekey_body csr_pem = append_json_escaped (''{'' @ quoted_key ''csr'') csr_pem @ [QUOTE] @ ''}''"

definition step_ca_rekey ::
    "config \<Rightarrow> 'f littlefs \<Rightarrow> 'f \<Rightarrow> (http_req \<Rightarrow> https_env) \<Rightarrow> string \<Rightarrow> string \<Rightarrow> string \<Rightarrow>
     (prov_error + string \<times> string \<times> int) exec" where
  "step_ca_rekey cfg lfs fs server csr_pem device_chain_pem device_key_pem =
     and_then (awaited (stepca_https cfg lfs fs server ''POST'' STEP_CA_REKEY_PATH (rekey_body csr_pem)
                 (Some (device_chain_pem, device_key_pem)))) (\<lambda>r.
     and_then (check_status r) (\<lambda>resp.
     and_then (leaf_and_inter resp) (\<lambda>(leaf, chain).
     and_then (not_after_of leaf) (\<lambda>t. Done (Inr (leaf, chain, t))))))"

section \<open>Keys, files and the two issuance paths\<close>

text \<open>
  What one provisioning run gets from outside: the crypto library, the key pairs of its successive
  \<open>uECC_make_key\<close> calls (\<open>None\<close> when the call fails), the MAC address, and per exchange the clock,
  the random words and the server.
\<close>

record prov_env =
  pe_crypto :: crypto
  pe_make_key :: "nat \<Rightarrow> (bytes \<times> bytes) option"
  pe_mac :: bytes
  pe_now :: "nat \<Rightarrow> int"
  pe_rand :: "nat \<Rightarrow> u32 \<times> u32"
  pe_server :: "nat \<Rightarrow> http_req \<Rightarrow> https_env"

definition gen_keypair_and_csr :: "config \<Rightarrow> prov_env \<Rightarrow> nat \<Rightarrow> (prov_error + bytes \<times> bytes \<times> string \<times> string) exec" where
  "gen_keypair_and_csr cfg env k =
     (case pe_make_key env k of
        None \<Rightarrow> Done (Inl KeygenFail)
      | Some (new_pub, new_priv) \<Rightarrow>
          exec_then (checked (cn_text cfg (pe_mac env))) (\<lambda>t.
          let cn = snprintf_str 32 t in
          exec_then (checked (build_csr (pe_crypto env) 800 cn new_pub new_priv)) (\<lambda>csr_der.
          if length csr_der = 0 then Done (Inl CsrFail)
          else
            exec_then (checked (der_to_pem_string csr_der ''CERTIFICATE REQUEST'')) (\<lambda>csr_pem.
            Done (Inr (new_pub, new_priv, cn, csr_pem))))))"

definition NEW_CERT :: path where "NEW_CERT = ''/device-cert.pem.new''"
definition NEW_CHAIN :: path where "NEW_CHAIN = ''/device-chain.pem.new''"
definition NEW_KEY :: path where "NEW_KEY = ''/device-key.pem.new''"

lemmas new_path_defs = NEW_CERT_def NEW_CHAIN_def NEW_KEY_def

text \<open>\<open>{ File f = open(p, "w"); f.print(s); f.close(); }\<close>: nothing happens on a handle that is not
  usable, and a full medium takes only a part (\<open>lfs_room\<close>); the code looks at neither.\<close>

definition print_file :: "'f littlefs \<Rightarrow> 'f \<Rightarrow> path \<Rightarrow> string \<Rightarrow> 'f" where
  "print_file lfs fs p s = (if lfs_can_write lfs fs p then lfs_write_file lfs fs p [s] else fs)"

text \<open>The operations that put the new files in place, in the order of the code.\<close>

datatype fs_op = Remove path | Rename path path | SaveExp int

fun fs_apply :: "'f littlefs \<Rightarrow> 'f \<Rightarrow> fs_op \<Rightarrow> 'f" where
  "fs_apply lfs fs (Remove p) = lfs_remove lfs fs p"
| "fs_apply lfs fs (Rename p q) = lfs_rename lfs fs p q"
| "fs_apply lfs fs (SaveExp t) = save_exp lfs fs t"

definition commit_ops :: "int \<Rightarrow> fs_op list" where
  "commit_ops not_after =
     [Remove PATH_DEV_CERT, Rename NEW_CERT PATH_DEV_CERT,
      Remove PATH_DEV_CHAIN, Rename NEW_CHAIN PATH_DEV_CHAIN,
      Remove PATH_DEV_KEY, Rename NEW_KEY PATH_DEV_KEY,
      SaveExp not_after]"

definition write_new_files :: "'f littlefs \<Rightarrow> 'f \<Rightarrow> string \<Rightarrow> string \<Rightarrow> bytes \<Rightarrow> bytes \<Rightarrow> 'f option" where
  "write_new_files lfs fs leafPem interPem new_priv new_pub = do {
     new_key_der \<leftarrow> build_ec_priv_der 200 new_priv new_pub;
     let fs = print_file lfs fs NEW_CERT leafPem;
     let fs = print_file lfs fs NEW_CHAIN interPem;
     save_pem lfs fs NEW_KEY ''EC PRIVATE KEY'' new_key_der
   }"

definition save_device_assets ::
    "'f littlefs \<Rightarrow> 'f \<Rightarrow> string \<Rightarrow> string \<Rightarrow> bytes \<Rightarrow> bytes \<Rightarrow> int \<Rightarrow> ((prov_error + unit) \<times> 'f) option" where
  "save_device_assets lfs fs leafPem interPem new_priv new_pub not_after = do {
     fs \<leftarrow> write_new_files lfs fs leafPem interPem new_priv new_pub;
     if length (read_file lfs fs NEW_CERT) = 0 \<or> length (read_file lfs fs NEW_KEY) = 0
     then Some (Inl NewFileEmpty, fs)
     else Some (Inr (), foldl (fs_apply lfs) fs (commit_ops not_after))
   }"

definition x5c_token :: "prov_env \<Rightarrow> nat \<Rightarrow> string \<Rightarrow> string \<Rightarrow> bytes \<Rightarrow> bytes \<Rightarrow> (prov_error + string) exec" where
  "x5c_token env k cn prov cert priv =
     exec_then (checked (build_x5c_jwt (pe_crypto env) (pe_now env k) (fst (pe_rand env k)) (snd (pe_rand env k)) cn prov cert priv)) (\<lambda>r.
     case r of None \<Rightarrow> Done (Inl JwtFail) | Some jwt \<Rightarrow> Done (Inr jwt))"

definition sign_with_bootstrap ::
    "config \<Rightarrow> 'f littlefs \<Rightarrow> 'f \<Rightarrow> prov_env \<Rightarrow> string \<Rightarrow> string \<Rightarrow> (prov_error + string \<times> int) exec" where
  "sign_with_bootstrap cfg lfs fs env cn csr_pem =
     (let signerCertPem = read_file lfs fs PATH_BS_CERT; signerKeyPem = read_file lfs fs PATH_BS_KEY in
      if length signerCertPem = 0 \<or> length signerKeyPem = 0 then Done (Inl AssetsMissing)
      else
        let signer_cert_der = pem_to_der signerCertPem 600; signer_key_der = pem_to_der signerKeyPem 200 in
        if length signer_cert_der = 0 \<or> length signer_key_der = 0 then Done (Inl PemFail)
        else
          (case ec_priv_from_der signer_key_der of
             None \<Rightarrow> Done (Inl PrivFail)
           | Some signer_priv \<Rightarrow>
               and_then (x5c_token env 0 cn PROV_BOOTSTRAP signer_cert_der signer_priv) (\<lambda>jwt.
               and_then (step_ca_sign cfg lfs fs (pe_server env 0) (pe_now env 0) csr_pem jwt 0) (\<lambda>(leaf, chain, t).
               Done (Inr (leaf, t))))))"

definition sign_with_first_cert ::
    "config \<Rightarrow> 'f littlefs \<Rightarrow> 'f \<Rightarrow> prov_env \<Rightarrow> string \<Rightarrow> string \<Rightarrow> bytes \<Rightarrow> int \<Rightarrow> string \<Rightarrow>
     (prov_error + string \<times> string \<times> int) exec" where
  "sign_with_first_cert cfg lfs fs env cn first_leaf_pem first_priv first_not_after csr_pem =
     (let signer_cert_der = pem_to_der first_leaf_pem 600 in
      if length signer_cert_der = 0 then Done (Inl PemFail)
      else
        and_then (x5c_token env 1 cn PROV_RENEWAL signer_cert_der first_priv) (\<lambda>jwt.
        step_ca_sign cfg lfs fs (pe_server env 1) (pe_now env 1) csr_pem jwt first_not_after))"

section \<open>Provisioning\<close>

text \<open>What the network part of each mode yields: the new key pair, the certificates and the expiry.\<close>

definition obtain_renewed ::
    "config \<Rightarrow> 'f littlefs \<Rightarrow> 'f \<Rightarrow> prov_env \<Rightarrow> (prov_error + bytes \<times> bytes \<times> string \<times> string \<times> int) exec" where
  "obtain_renewed cfg lfs fs env =
     and_then (gen_keypair_and_csr cfg env 0) (\<lambda>(new_pub, new_priv, cn, csr_pem).
     let chainPem = read_file lfs fs PATH_DEV_CERT;
         chainExtra = read_file lfs fs PATH_DEV_CHAIN;
         keyPem = read_file lfs fs PATH_DEV_KEY in
     if length chainPem = 0 \<or> length keyPem = 0 then Done (Inl AssetsMissing)
     else
       and_then (step_ca_rekey cfg lfs fs (pe_server env 0) csr_pem (chainPem @ chainExtra) keyPem) (\<lambda>(leaf, chain, t).
       Done (Inr (new_pub, new_priv, leaf, chain, t))))"

definition obtain_first ::
    "config \<Rightarrow> 'f littlefs \<Rightarrow> 'f \<Rightarrow> prov_env \<Rightarrow> (prov_error + bytes \<times> bytes \<times> string \<times> string \<times> int) exec" where
  "obtain_first cfg lfs fs env =
     and_then (gen_keypair_and_csr cfg env 0) (\<lambda>(first_pub, first_priv, cn, first_csr).
     and_then (sign_with_bootstrap cfg lfs fs env cn first_csr) (\<lambda>(first_leaf_pem, first_not_after).
     and_then (gen_keypair_and_csr cfg env 1) (\<lambda>(second_pub, second_priv, cn, second_csr).
     and_then (sign_with_first_cert cfg lfs fs env cn first_leaf_pem first_priv first_not_after second_csr) (\<lambda>(leaf, chain, t).
     Done (Inr (second_pub, second_priv, leaf, chain, t))))))"

definition provision_cert ::
    "config \<Rightarrow> 'f littlefs \<Rightarrow> prov_env \<Rightarrow> bool \<Rightarrow> 'f \<Rightarrow> ((prov_error + unit) \<times> 'f) exec" where
  "provision_cert cfg lfs env renew_mode fs =
     exec_then (if renew_mode then obtain_renewed cfg lfs fs env else obtain_first cfg lfs fs env) (\<lambda>r.
     case r of
       Inl e \<Rightarrow> Done (Inl e, fs)
     | Inr (new_pub, new_priv, leaf, chain, t) \<Rightarrow>
         exec_then (checked (save_device_assets lfs fs leaf chain new_priv new_pub t)) (\<lambda>(r, fs).
         case r of
           Inl e \<Rightarrow> Done (Inl e, fs)
         | Inr _ \<Rightarrow>
             if renew_mode then Done (Inr (), fs)
             else Done (Inr (), lfs_remove lfs (lfs_remove lfs fs PATH_BS_CERT) PATH_BS_KEY)))"

definition probe_stepca_chain_only :: "config \<Rightarrow> 'f littlefs \<Rightarrow> 'f \<Rightarrow> (http_req \<Rightarrow> https_env) \<Rightarrow> bool option" where
  "probe_stepca_chain_only cfg lfs fs server =
     (case stepca_https cfg lfs fs server ''GET'' STEP_CA_HEALTH_PATH [] None of
        None \<Rightarrow> None | Some (Inl e) \<Rightarrow> Some False | Some (Inr (status, resp)) \<Rightarrow> Some (status = 200))"

section \<open>Lemmas on the JSON text\<close>

lemma json_value_escaped: "json_value (json_escaped s @ QUOTE # rest) = filter (\<lambda>c. c \<noteq> CR) s"
  by (induction s) auto

lemma json_escaped_no:
  "x \<noteq> BSLASH \<Longrightarrow> x \<noteq> CHR ''n'' \<Longrightarrow> x \<notin> set s \<Longrightarrow> x \<notin> set (json_escaped s)"
  by (induction s) (auto split: if_splits)

lemma strstr_drop: "a \<notin> set xs \<Longrightarrow> strstr (xs @ ys) (a # sub) = strstr ys (a # sub)"
  by (induction xs) auto

lemma strstr_length: "strstr s sub = Some r \<Longrightarrow> length r \<le> length s \<and> drop (length s - length r) s = r"
  using strstr_suffix [of s sub r] by auto

lemma indexOf_drop:
  "NUL \<notin> set s \<Longrightarrow> strstr s needle = Some r \<Longrightarrow> indexOf s needle = Some (length s - length r) \<and> drop (length s - length r) s = r"
  using strstr_length by (simp add: indexOf_def)

lemma json_extract_at:
  assumes "NUL \<notin> set body" "strstr body (quoted_key key) = Some (quoted_key key @ json_escaped s @ QUOTE # rest)"
  shows "json_extract body key = filter (\<lambda>c. c \<noteq> CR) s"
proof -
  let ?r = "quoted_key key @ json_escaped s @ QUOTE # rest"
  have i: "indexOf body (quoted_key key) = Some (length body - length ?r)" "drop (length body - length ?r) body = ?r"
    using indexOf_drop [OF assms] by blast+
  have "drop (length body - length ?r + length (quoted_key key)) body = drop (length (quoted_key key)) ?r"
    using i(2) by (metis add.commute drop_drop)
  also have "\<dots> = json_escaped s @ QUOTE # rest" by simp
  finally show ?thesis using i(1) by (simp add: json_extract_def quoted_key_def Let_def json_value_escaped)
qed

lemma no_ca_at_value: "QUOTE \<notin> set l \<Longrightarrow> \<not> prefix_of (''ca'' @ [QUOTE, CHR '':'', QUOTE]) (l @ QUOTE # CHR '','' # r)"
proof (cases l)
  case (Cons a l1)
  then show "QUOTE \<notin> set l \<Longrightarrow> ?thesis"
  proof (cases l1)
    case (Cons b l2)
    then show "QUOTE \<notin> set l \<Longrightarrow> ?thesis" using \<open>l = a # l1\<close> by (cases l2) auto
  qed simp
qed simp

text \<open>The answer of the certificate authority: the two certificates as the first two fields.\<close>

definition ca_answer :: "string \<Rightarrow> string \<Rightarrow> string \<Rightarrow> string" where
  "ca_answer leaf chain rest =
     ''{'' @ quoted_key ''crt'' @ json_escaped leaf @ [QUOTE] @ '','' @ quoted_key ''ca'' @ json_escaped chain @ QUOTE # rest"

lemma ca_answer_extract:
  assumes "NUL \<notin> set leaf" "NUL \<notin> set chain" "NUL \<notin> set rest" "QUOTE \<notin> set leaf"
  shows "json_extract (ca_answer leaf chain rest) ''crt'' = filter (\<lambda>c. c \<noteq> CR) leaf"
    "json_extract (ca_answer leaf chain rest) ''ca'' = filter (\<lambda>c. c \<noteq> CR) chain"
proof -
  have nul: "NUL \<notin> set (ca_answer leaf chain rest)"
    using assms json_escaped_no [of NUL leaf] json_escaped_no [of NUL chain] by (simp add: ca_answer_def quoted_key_def)
  have q: "QUOTE \<notin> set (json_escaped leaf)" using assms(4) by (intro json_escaped_no) auto
  have "strstr (ca_answer leaf chain rest) (quoted_key ''crt'') =
      Some (quoted_key ''crt'' @ json_escaped leaf @ QUOTE # '','' @ quoted_key ''ca'' @ json_escaped chain @ QUOTE # rest)"
    by (simp add: ca_answer_def quoted_key_def)
  with nul show "json_extract (ca_answer leaf chain rest) ''crt'' = filter (\<lambda>c. c \<noteq> CR) leaf" by (rule json_extract_at)
  have "strstr (ca_answer leaf chain rest) (quoted_key ''ca'') = Some (quoted_key ''ca'' @ json_escaped chain @ QUOTE # rest)"
    using strstr_drop [OF q] no_ca_at_value [OF q] by (simp add: ca_answer_def quoted_key_def)
  with nul show "json_extract (ca_answer leaf chain rest) ''ca'' = filter (\<lambda>c. c \<noteq> CR) chain" by (rule json_extract_at)
qed

lemma pem_block_chars:
  "c \<in> set (pem_block label der) \<Longrightarrow> c \<in> set label \<or> c \<in> set ''-----BEGIN END'' \<or> c = LF \<or> c \<in> set (base64_encode der)"
  using chunks_set [of 64 _ "base64_encode der"] by (auto simp: pem_block_def split: if_splits)

lemma base64_char_ok: "c \<in> set (base64_encode der) \<Longrightarrow> c \<noteq> QUOTE \<and> c \<noteq> CR \<and> c \<noteq> NUL \<and> c \<noteq> BSLASH"
  using base64_encode_chars [of c der] by (auto simp: pem_blank_def)

lemma der_to_pem_string_block:
  "der_to_pem_string der label = (if length der \<le> 1047 then Some (pem_block label der) else None)"
proof -
  have c: "cstr (l @ [LF, NUL]) = l @ [LF]" if "l \<in> set (chunks 64 (base64_encode der))" for l
    using chunks_set [OF _ that] base64_no_NUL(1) [of der] cstr_terminated [of "l @ [LF]" "[]"] by auto
  have "concat (map (\<lambda>l. cstr (l @ [LF, NUL])) (chunks 64 (base64_encode der))) = concat (map (\<lambda>l. l @ [LF]) (chunks 64 (base64_encode der)))"
    by (rule arg_cong [where f = concat]) (simp add: c)
  moreover have "length der \<le> 1047 \<longleftrightarrow> 4 * ((length der + 2) div 3) + 1 \<le> 1400"
    using div_less_iff_less_mult [of 3 "length der + 2" 350] by linarith
  ultimately show ?thesis by (auto simp: der_to_pem_string_def put_buf_def pem_block_def len_simps)
qed

section \<open>Lemmas on the HTTPS exchange\<close>

text \<open>A connection that delivers a text, however it is cut into polls, and then goes on with \<open>ev\<close>.\<close>

definition carries :: "conn_ev list \<Rightarrow> string \<Rightarrow> conn_ev list \<Rightarrow> bool" where
  "carries c s ev \<longleftrightarrow> filter (\<lambda>e. e \<noteq> Idle) c = map Data s @ ev"

lemma carries_Idle [simp]: "carries (Idle # c) s ev = carries c s ev"
  by (simp add: carries_def)

lemma carries_Data: "e \<noteq> Idle \<Longrightarrow> carries (e # c) (x # s) ev \<longleftrightarrow> e = Data x \<and> carries c s ev"
  by (auto simp: carries_def)

lemma carries_exact: "Idle \<notin> set ev \<Longrightarrow> carries (map Data s @ ev) s ev"
  by (auto simp: carries_def filter_id_conv)

lemma read_line_carries:
  "carries c (l @ LF # s) ev \<Longrightarrow> LF \<notin> set l \<Longrightarrow> \<exists>c'. readStringUntil_LF c = Some (l, c') \<and> carries c' s ev"
proof (induction c arbitrary: l)
  case Nil
  then show ?case by (simp add: carries_def)
next
  case (Cons e c)
  show ?case
  proof (cases "e = Idle")
    case True
    then show ?thesis using Cons by simp
  next
    case False
    show ?thesis
    proof (cases l)
      case Nil
      then show ?thesis using Cons.prems False by (simp add: carries_Data)
    next
      case l: (Cons x l')
      then have "e = Data x" "carries c (l' @ LF # s) ev" "LF \<notin> set l'" "x \<noteq> LF"
        using Cons.prems False by (auto simp add: carries_Data)
      then show ?thesis using Cons.IH [of l'] l by auto
    qed
  qed
qed

lemma wait_response_carries:
  "carries c (x # s) ev \<Longrightarrow> \<exists>c'. wait_response c = Some c' \<and> available c' \<and> carries c' (x # s) ev"
proof (induction c)
  case (Cons e c)
  then show ?case by (cases "e = Idle") (auto simp: carries_Data available_def)
qed (simp add: carries_def)

lemma read_body_n_carries:
  "carries c s ev \<Longrightarrow> length acc + length s = n \<Longrightarrow> read_body_n n acc c = Some (acc @ s)"
proof (induction c arbitrary: acc s)
  case Nil
  then show ?case by (simp add: carries_def read_body_n.simps [of n acc "[]"])
next
  case (Cons e c)
  show ?case
  proof (cases s)
    case Nil
    then show ?thesis using Cons.prems by (simp add: read_body_n.simps [of n acc "e # c"])
  next
    case s: (Cons x s')
    show ?thesis
    proof (cases "e = Idle")
      case True
      then show ?thesis using Cons s by (simp add: read_body_n.simps [of n acc "Idle # c"])
    next
      case False
      then have "e = Data x" "carries c s' ev" using Cons.prems(1) s by (simp_all add: carries_Data)
      then show ?thesis using Cons.IH [of s' "acc @ [x]"] Cons.prems(2) s by (simp add: read_body_n.simps [of n acc "Data x # c"])
    qed
  qed
qed

lemma read_body_close_carries:
  "carries c s (e # ev) \<Longrightarrow> e \<in> {Closed, Timeout} \<Longrightarrow> read_body_close acc c = Some (acc @ s)"
proof (induction c arbitrary: acc s)
  case (Cons d c)
  show ?case
  proof (cases "d = Idle")
    case False
    show ?thesis
    proof (cases s)
      case Nil
      then show ?thesis using Cons.prems False by (auto simp: carries_def)
    next
      case s: (Cons x s')
      then have "d = Data x" "carries c s' (e # ev)" using Cons.prems(1) False by (simp_all add: carries_Data)
      then show ?thesis using Cons.IH [of s' "acc @ [x]"] Cons.prems(2) s by simp
    qed
  qed (use Cons in simp)
qed (simp add: carries_def)

text \<open>The header block, with the length the last Content-Length line gives.\<close>

definition header_lines :: "string list \<Rightarrow> string" where
  "header_lines hs = concat (map (\<lambda>h. h @ CRLF) hs) @ CRLF"

definition headers_length :: "nat \<Rightarrow> string list \<Rightarrow> nat" where
  "headers_length cl hs = foldl (\<lambda>cl h. if is_content_length (trim h) then content_length_of (trim h) else cl) cl hs"

definition header_ok :: "string \<Rightarrow> bool" where
  "header_ok h \<longleftrightarrow> LF \<notin> set h \<and> trim h \<noteq> []"

lemma trim_CR: "trim (l @ [CR]) = trim l"
proof -
  have cr: "is_space CR" by (simp add: is_space_def)
  have r: "dropWhile is_space (xs @ [CR]) = (if \<forall>x \<in> set xs. is_space x then [] else dropWhile is_space xs @ [CR])" for xs
    by (induction xs) (simp_all add: cr)
  show ?thesis
  proof (cases "\<forall>x \<in> set l. is_space x")
    case True
    then have "dropWhile is_space l = []" by simp
    then show ?thesis using True by (simp only: trim_def r) simp
  next
    case False
    then show ?thesis by (simp only: trim_def r) (simp add: cr)
  qed
qed

lemma carries_hd: "carries c (x # s) ev \<Longrightarrow> c \<noteq> [] \<and> hd c \<noteq> Closed"
  by (cases c) (auto simp: carries_def split: if_splits)

lemma read_headers_carries:
  "carries c (header_lines hs @ s) ev \<Longrightarrow> \<forall>h \<in> set hs. header_ok h \<Longrightarrow>
   \<exists>c'. read_headers cl c = Some (headers_length cl hs, c') \<and> carries c' s ev"
proof (induction hs arbitrary: cl c)
  case Nil
  then have car: "carries c ([CR] @ LF # s) ev" by (simp add: header_lines_def CRLF_def)
  then obtain c' where "readStringUntil_LF c = Some ([CR], c')" "carries c' s ev"
    using read_line_carries [of c "[CR]" s ev] by auto
  moreover have "c \<noteq> []" "hd c \<noteq> Closed" using car carries_hd [of c CR "LF # s" ev] by auto
  moreover have "trim [CR] = []" by (simp add: trim_def is_space_def)
  ultimately show ?case by (simp add: read_headers.simps [of cl c] headers_length_def)
next
  case (Cons h hs)
  have h: "LF \<notin> set (h @ [CR])" "trim (h @ [CR]) \<noteq> []" using Cons.prems(2) by (auto simp: header_ok_def trim_CR)
  have car: "carries c ((h @ [CR]) @ LF # header_lines hs @ s) ev" using Cons.prems(1) by (simp add: header_lines_def CRLF_def)
  then obtain c' where c': "readStringUntil_LF c = Some (h @ [CR], c')" "carries c' (header_lines hs @ s) ev"
    using read_line_carries [OF car h(1)] by auto
  have "c \<noteq> []" "hd c \<noteq> Closed" using car carries_hd [of c] by (cases "(h @ [CR]) @ LF # header_lines hs @ s"; auto)+
  then have "read_headers cl c = read_headers (if is_content_length (trim h) then content_length_of (trim h) else cl) c'"
    using c'(1) h(2) by (simp add: read_headers.simps [of cl c] trim_CR Let_def)
  moreover obtain c'' where "read_headers (if is_content_length (trim h) then content_length_of (trim h) else cl) c' =
      Some (headers_length (if is_content_length (trim h) then content_length_of (trim h) else cl) hs, c'')" "carries c'' s ev"
    using Cons.IH [OF c'(2)] Cons.prems(2) by force
  ultimately show ?case by (simp add: headers_length_def)
qed

lemma fmt_u_three: "100 \<le> n \<Longrightarrow> n < 1000 \<Longrightarrow> length (fmt_u n) = 3"
  by (simp add: fmt_u_def radix_str_step [of n] radix_str_step [of "n div 10"] radix_str_small [of "n div 10 div 10"])

lemma atol_fmt_u: "n < 2 ^ 31 \<Longrightarrow> atol (fmt_u n) = int n"
  using fmt_u_hd [of n] is_digit_imp [of "hd (fmt_u n)"]
  by (simp add: atol_def dropWhile_fmt_u digits_val_fmt_u Let_def)

lemma fmt_u_last: "\<exists>x d. fmt_u n = x @ [d] \<and> \<not> is_space d"
proof -
  have ne: "fmt_u n \<noteq> []" by (simp add: fmt_u_def radix10_not_Nil)
  then have "\<not> is_space (last (fmt_u n))" using radix10_digits [of "last (fmt_u n)" n] is_digit_imp by (simp add: fmt_u_def)
  then show ?thesis using ne by (metis append_butlast_last_id)
qed

text \<open>Trimming keeps everything up to a character that is not blank.\<close>

lemma trim_keeps:
  assumes "\<not> is_space c" "\<not> is_space d"
  shows "\<exists>z. trim (c # x @ d # y) = c # x @ d # z"
proof -
  have r: "\<not> is_space d \<Longrightarrow> dropWhile is_space (ys @ d # xs) = dropWhile is_space ys @ d # xs" for d xs ys
    by (induction ys) auto
  have "rev (dropWhile is_space (rev (c # x @ d # y))) = c # x @ d # rev (dropWhile is_space (rev y))"
    using r [OF assms(2), of "rev y" "rev x @ [c]"] by simp
  then show ?thesis using assms(1) by (simp add: trim_def)
qed

lemma status_of_line:
  fixes reason :: string
  assumes "100 \<le> st" "st < 1000"
  defines "l \<equiv> trim (''HTTP/1.1 '' @ fmt_u st @ reason @ [CR])"
  shows "indexOf l '' '' = Some 8" "atol (take 3 (drop 9 l)) = int st"
proof -
  obtain x d where xd: "fmt_u st = x @ [d]" "\<not> is_space d" using fmt_u_last by blast
  obtain z where "trim (CHR ''H'' # (''TTP/1.1 '' @ x) @ d # reason @ [CR]) = CHR ''H'' # (''TTP/1.1 '' @ x) @ d # z"
    using trim_keeps [of "CHR ''H''" d "''TTP/1.1 '' @ x" "reason @ [CR]"] xd(2) by (auto simp: is_space_def)
  then have l: "l = ''HTTP/1.1 '' @ fmt_u st @ z" by (simp add: l_def xd(1))
  show "indexOf l '' '' = Some 8" by (simp add: l indexOf_def cstr_def)
  show "atol (take 3 (drop 9 l)) = int st" using fmt_u_three [OF assms(1,2)] atol_fmt_u [of st] assms(2) by (simp add: l)
qed

section \<open>Properties of the exchange\<close>

text \<open>What the escaping writer puts between two quotation marks is the JSON form of the text, for a text
  whose only control characters are line feeds.\<close>

lemma json_escaped_render: "\<forall>c \<in> set s. \<not> is_control c \<or> c = LF \<Longrightarrow> [QUOTE] @ json_escaped s @ [QUOTE] = render_str s"
proof -
  have "is_control CR" "is_control TAB" by (simp_all add: is_control_def)
  then have e: "json_escaped [c] = escape c" if "\<not> is_control c \<or> c = LF" for c using that by (auto simp: escape_def)
  have "\<forall>c \<in> set s. \<not> is_control c \<or> c = LF \<Longrightarrow> json_escaped s = concat (map escape s)"
  proof (induction s)
    case (Cons c s)
    have "json_escaped (c # s) = json_escaped [c] @ json_escaped s" by simp
    then show ?case using Cons e [of c] by (simp del: json_escaped.simps)
  qed simp
  then show "\<forall>c \<in> set s. \<not> is_control c \<or> c = LF \<Longrightarrow> ?thesis" by (simp add: render_str_def)
qed

lemma pem_block_text:
  assumes "\<forall>c \<in> set label. \<not> is_control c" "c \<in> set (pem_block label der)"
  shows "\<not> is_control c \<or> c = LF"
proof -
  have "\<not> is_control d" if "d \<in> set (base64_encode der)" for d
    using bare_b64(2) [OF b64_text_encode] that by (auto simp: bare_def)
  then show ?thesis using pem_block_chars [OF assms(2)] assms(1) by (auto simp: is_control_def)
qed

lemma request_bodies_json:
  assumes "\<forall>c \<in> set pem. \<not> is_control c \<or> c = LF" "bare jwt" "bare ts"
  shows "json_of (rekey_body pem) = Some (JObj [(''csr'', JStr pem)])"
    "json_of (sign_body cfg pem jwt ts) = Some (JObj ([(''csr'', JStr pem), (''ott'', JStr jwt)] @
       (if LIFETIME_MODE_TEST_EXPLICIT cfg then [(''notAfter'', JStr ts)] else [])))"
proof -
  have k: "render_str ''csr'' = [QUOTE] @ ''csr'' @ [QUOTE]" "render_str ''ott'' = [QUOTE] @ ''ott'' @ [QUOTE]"
      "render_str ''notAfter'' = [QUOTE] @ ''notAfter'' @ [QUOTE]"
    by (rule render_str_bare, simp add: is_control_def)+
  note e = json_escaped_render [OF assms(1), symmetric] render_str_bare [OF assms(2)] render_str_bare [OF assms(3)]
  have ok: "text_ok pem" "text_ok jwt" "text_ok ts" "text_ok ''csr''" "text_ok ''ott''" "text_ok ''notAfter''"
    using assms(1) bare_text_ok [OF assms(2)] bare_text_ok [OF assms(3)] by (auto simp: text_ok_def is_control_def)
  have "rekey_body pem = render (JObj [(''csr'', JStr pem)])"
    by (simp add: rekey_body_def append_json_escaped_def quoted_key_def k e)
  then show "json_of (rekey_body pem) = Some (JObj [(''csr'', JStr pem)])" using json_of_render [of "JObj [(''csr'', JStr pem)]"] ok by simp
  let ?j = "JObj ([(''csr'', JStr pem), (''ott'', JStr jwt)] @ (if LIFETIME_MODE_TEST_EXPLICIT cfg then [(''notAfter'', JStr ts)] else []))"
  have "sign_body cfg pem jwt ts = render ?j"
    by (simp add: sign_body_def append_json_escaped_def quoted_key_def k e)
  then show "json_of (sign_body cfg pem jwt ts) = Some ?j" using json_of_render [of ?j] ok by simp
qed

text \<open>(C36) The certificate request as it travels: a CSR of up to 1047 bytes is turned into PEM text without
  overrun, and that text holds its bytes (the first 767, all that the firmware's own PEM reader
  takes). Read as JSON by a reader that refuses raw control characters in strings, the body of the rekey request
  is the object with exactly that text as its csr, and the body of the sign request the object with
  the csr, the token as ott and, in the explicit-lifetime build, the time as notAfter.\<close>

theorem csr_json_roundtrip:
  assumes "length der \<le> 1047" and "bare jwt" and "bare ts"
  shows "\<exists>pem. der_to_pem_string der ''CERTIFICATE REQUEST'' = Some pem \<and> pem_to_der pem 1047 = take 767 der \<and>
    json_of (rekey_body pem) = Some (JObj [(''csr'', JStr pem)]) \<and>
    json_of (sign_body cfg pem jwt ts) = Some (JObj ([(''csr'', JStr pem), (''ott'', JStr jwt)] @
      (if LIFETIME_MODE_TEST_EXPLICIT cfg then [(''notAfter'', JStr ts)] else [])))"
proof -
  let ?pem = "pem_block ''CERTIFICATE REQUEST'' der"
  have "\<forall>c \<in> set ?pem. \<not> is_control c \<or> c = LF"
    using pem_block_text [of "''CERTIFICATE REQUEST''" _ der] by (auto simp: is_control_def)
  moreover have "pem_to_der ?pem 1047 = take 767 der"
    using pem_to_der_block_gen [of "''CERTIFICATE REQUEST''" der 1047] by (simp add: min_def)
  ultimately show ?thesis using assms request_bodies_json [of ?pem] by (auto simp: der_to_pem_string_block)
qed

theorem csr_json_roundtrip_witness:
  "\<exists>pem. der_to_pem_string [1, 2, 3] ''CERTIFICATE REQUEST'' = Some pem \<and> pem_to_der pem 1047 = [1, 2, 3] \<and>
     json_of (sign_body (config_example\<lparr>LIFETIME_MODE_TEST_EXPLICIT := True\<rparr>) pem ''a.b.c'' ''2026-01-01T00:00:00Z'') =
       Some (JObj [(''csr'', JStr pem), (''ott'', JStr ''a.b.c''), (''notAfter'', JStr ''2026-01-01T00:00:00Z'')])"
  using csr_json_roundtrip [of "[1, 2, 3]" "''a.b.c''" "''2026-01-01T00:00:00Z''" "config_example\<lparr>LIFETIME_MODE_TEST_EXPLICIT := True\<rparr>"]
  by (auto simp: is_control_def)

lemma read_response_answer:
  assumes "carries ev (''HTTP/1.1 '' @ fmt_u st @ reason @ CRLF @ header_lines hs @ body) rest"
    and "100 \<le> st" and "st < 1000" and "LF \<notin> set reason" and "\<forall>h \<in> set hs. header_ok h"
    and "headers_length 0 hs = length body \<and> body \<noteq> [] \<or>
         headers_length 0 hs = 0 \<and> (\<exists>e r. rest = e # r \<and> e \<in> {Closed, Timeout})"
  shows "read_response ev = Some (Inr (int st, body))"
proof -
  let ?l = "''HTTP/1.1 '' @ fmt_u st @ reason @ [CR]"
  have lf: "LF \<notin> set ?l"
    using assms(4) radix10_digits [of LF st] by (auto simp: fmt_u_def is_digit_def)
  have car: "carries ev (CHR ''H'' # (tl ?l @ LF # header_lines hs @ body)) rest"
    using assms(1) by (simp add: CRLF_def)
  then obtain c where c: "wait_response ev = Some c" "available c" "carries c (?l @ LF # header_lines hs @ body) rest"
    using wait_response_carries [OF car] by auto
  obtain c1 where c1: "readStringUntil_LF c = Some (?l, c1)" "carries c1 (header_lines hs @ body) rest"
    using read_line_carries [OF c(3) lf] by blast
  obtain c2 where c2: "read_headers 0 c1 = Some (headers_length 0 hs, c2)" "carries c2 body rest"
    using read_headers_carries [OF c1(2) assms(5)] by blast
  have "(if 0 < headers_length 0 hs then read_body_n (headers_length 0 hs) [] c2 else read_body_close [] c2) = Some body"
    using assms(6) read_body_n_carries [OF c2(2), of "[]"] read_body_close_carries [of c2 body _ _ "[]"] c2(2) by auto
  then show ?thesis
    using c c1(1) c2(1) status_of_line [OF assms(2,3), of reason] by (simp add: read_response_def Let_def)
qed

text \<open>(C18) Reading an HTTP response: whatever the status, reason, headers and pauses between characters, a
  response whose last Content-Length line gives the length of its body, or one without a length that
  ends with the connection or the time limit, is read as exactly its status and body. The body is the raw
  text behind the headers: of a chunked transfer coding the chunk sizes are part of it, the code does
  not undo it.\<close>

theorem read_response_correct:
  assumes "carries ev (''HTTP/1.1 '' @ fmt_u st @ reason @ CRLF @ header_lines hs @ body) rest"
    and "100 \<le> st" and "st < 1000" and "LF \<notin> set reason" and "\<forall>h \<in> set hs. header_ok h"
    and "headers_length 0 hs = length body \<and> body \<noteq> [] \<or>
         headers_length 0 hs = 0 \<and> (\<exists>e r. rest = e # r \<and> e \<in> {Closed, Timeout})"
  shows "read_response ev = Some (Inr (int st, body))"
  using assms by (rule read_response_answer)

definition demo_answer :: string where
  "demo_answer = ''HTTP/1.1 '' @ fmt_u 201 @ '' Created'' @ CRLF @ header_lines [''Content-Length: 2''] @ ''ok''"

theorem read_response_correct_witness:
  "read_response (Idle # map Data demo_answer) = Some (Inr (201, ''ok''))"
proof -
  have "content_length_of (trim ''Content-Length: 2'') = 2" "is_content_length (trim ''Content-Length: 2'')" "header_ok ''Content-Length: 2''"
    by (simp_all add: content_length_of_def is_content_length_def header_ok_def trim_def is_space_def atol_def digits_val_def is_digit_def)
  moreover have "carries (Idle # map Data demo_answer) (''HTTP/1.1 '' @ fmt_u 201 @ '' Created'' @ CRLF @ header_lines [''Content-Length: 2''] @ ''ok'') []"
    using carries_exact [of "[]" demo_answer] by (simp add: demo_answer_def)
  ultimately show ?thesis
    using read_response_correct [of "Idle # map Data demo_answer" 201 "'' Created''" "[''Content-Length: 2'']" "''ok''" "[]"]
    by (simp add: headers_length_def)
qed


lemma read_body_n_waits:
  "carries c s ev \<Longrightarrow> set ev \<subseteq> {Timeout} \<Longrightarrow> length acc + length s < n \<Longrightarrow> read_body_n n acc c = None"
proof (induction c arbitrary: acc s ev)
  case Nil
  then show ?case by (simp add: read_body_n.simps [of n acc "[]"])
next
  case (Cons e c)
  show ?case
  proof (cases "e = Idle")
    case True
    then show ?thesis using Cons by (simp add: read_body_n.simps [of n acc "Idle # c"])
  next
    case False
    show ?thesis
    proof (cases s)
      case Nil
      then have "e = Timeout" "carries c [] (tl ev)" "set (tl ev) \<subseteq> {Timeout}"
        using Cons.prems(1,2) False by (cases ev; auto simp: carries_def)+
      then have e: "e = Timeout" and c: "read_body_n n acc c = None"
        using Cons.prems(3) Nil Cons.IH [of "[]" "tl ev" acc] by auto
      show ?thesis using e c Cons.prems(3) by (simp add: read_body_n.simps [of n acc "Timeout # c"])
    next
      case s: (Cons x s')
      then have "e = Data x" "carries c s' ev" using Cons.prems(1) False by (simp_all add: carries_Data)
      then show ?thesis using Cons.IH [of s' ev "acc @ [x]"] Cons.prems(2,3) s by (simp add: read_body_n.simps [of n acc "Data x # c"])
    qed
  qed
qed

lemma wait_response_ends: "Closed \<in> set c \<Longrightarrow> \<exists>c'. wait_response c = Some c' \<and> Closed \<in> set c'"
  by (induction c rule: wait_response.induct) auto

lemma read_line_ends: "Closed \<in> set c \<Longrightarrow> \<exists>l c'. readStringUntil_LF c = Some (l, c') \<and> Closed \<in> set c'"
  by (induction c rule: readStringUntil_LF.induct) fastforce+

lemma read_body_close_ends: "Closed \<in> set c \<Longrightarrow> read_body_close acc c \<noteq> None"
  by (induction acc c rule: read_body_close.induct) auto

lemma read_body_n_ends: "Closed \<in> set c \<Longrightarrow> read_body_n n acc c \<noteq> None"
proof (induction c arbitrary: acc)
  case (Cons e c)
  then show ?case by (cases e) (auto simp: read_body_n.simps [of n acc "_ # c"])
qed simp

lemma read_headers_ends: "Closed \<in> set c \<Longrightarrow> \<exists>cl' c'. read_headers cl c = Some (cl', c') \<and> Closed \<in> set c'"
proof (induction cl c rule: read_headers.induct)
  case (1 cl c)
  obtain l c' where lc: "readStringUntil_LF c = Some (l, c')" "Closed \<in> set c'" using read_line_ends [OF 1(2)] by blast
  show ?case
  proof (cases "c = [] \<or> hd c = Closed \<or> trim l = []")
    case True
    then show ?thesis using 1(2) lc by (auto simp: read_headers.simps [of cl c])
  next
    case False
    then show ?thesis using 1(1) [of "(l, c')" l c' "trim l"] lc by (simp add: read_headers.simps [of cl c] Let_def)
  qed
qed

lemma read_response_ends: "Closed \<in> set ev \<Longrightarrow> read_response ev \<noteq> None"
proof -
  assume c: "Closed \<in> set ev"
  obtain c1 where c1: "wait_response ev = Some c1" "Closed \<in> set c1" using wait_response_ends [OF c] by blast
  obtain l c2 where c2: "readStringUntil_LF c1 = Some (l, c2)" "Closed \<in> set c2" using read_line_ends [OF c1(2)] by blast
  obtain cl c3 where c3: "read_headers 0 c2 = Some (cl, c3)" "Closed \<in> set c3" using read_headers_ends [OF c2(2)] by blast
  show ?thesis
    using c1 c2 c3 read_body_n_ends [OF c3(2), of cl "[]"] read_body_close_ends [OF c3(2), of "[]"]
    by (auto simp: read_response_def Let_def split: option.splits)
qed

text \<open>(C33) Termination of the exchange: if the peer ever closes the connection, reading the response
  returns, with an answer or with an error. But a response that announces more bytes than arrive on a
  connection that then stays open and silent is waited for without end: for every number of polls,
  elapsed time limits included, the function has not returned. The other waits all have limits.\<close>

theorem read_response_termination:
  "(Closed \<in> set ev \<longrightarrow> read_response ev \<noteq> None) \<and>
   (\<forall>st reason hs body rest.
      carries ev (''HTTP/1.1 '' @ fmt_u st @ reason @ CRLF @ header_lines hs @ body) rest \<and> LF \<notin> set reason \<and>
      100 \<le> st \<and> st < 1000 \<and> (\<forall>h \<in> set hs. header_ok h) \<and> length body < headers_length 0 hs \<and> set rest \<subseteq> {Timeout}
      \<longrightarrow> read_response ev = None)"
proof (intro conjI impI allI)
  assume "Closed \<in> set ev"
  then show "read_response ev \<noteq> None" by (rule read_response_ends)
next
  fix st :: nat and reason hs body rest
  assume a: "carries ev (''HTTP/1.1 '' @ fmt_u st @ reason @ CRLF @ header_lines hs @ body) rest \<and> LF \<notin> set reason \<and>
      100 \<le> st \<and> st < 1000 \<and> (\<forall>h \<in> set hs. header_ok h) \<and> length body < headers_length 0 hs \<and> set rest \<subseteq> {Timeout}"
  let ?l = "''HTTP/1.1 '' @ fmt_u st @ reason @ [CR]"
  have lf: "LF \<notin> set ?l" using a radix10_digits [of LF st] by (auto simp: fmt_u_def is_digit_def)
  have car: "carries ev (CHR ''H'' # (tl ?l @ LF # header_lines hs @ body)) rest" using a by (simp add: CRLF_def)
  then obtain c where c: "wait_response ev = Some c" "available c" "carries c (?l @ LF # header_lines hs @ body) rest"
    using wait_response_carries [OF car] by auto
  obtain c1 where c1: "readStringUntil_LF c = Some (?l, c1)" "carries c1 (header_lines hs @ body) rest"
    using read_line_carries [OF c(3) lf] by blast
  obtain c2 where c2: "read_headers 0 c1 = Some (headers_length 0 hs, c2)" "carries c2 body rest"
    using read_headers_carries [OF c1(2)] a by blast
  have "read_body_n (headers_length 0 hs) [] c2 = None" using read_body_n_waits [OF c2(2)] a by simp
  then show "read_response ev = None"
    using c c1(1) c2(1) a status_of_line(1) [of st reason] by (auto simp: read_response_def Let_def)
qed

theorem read_response_termination_witness:
  "read_response [Idle, Closed] \<noteq> None \<and>
   (\<forall>k. read_response (map Data (''HTTP/1.1 '' @ fmt_u 200 @ '' OK'' @ CRLF @ header_lines [''Content-Length: 9''] @ ''ab'') @ replicate k Timeout) = None)"
proof
  show "read_response [Idle, Closed] \<noteq> None" using read_response_termination [of "[Idle, Closed]"] by simp
  have h: "content_length_of (trim ''Content-Length: 9'') = 9" "is_content_length (trim ''Content-Length: 9'')" "header_ok ''Content-Length: 9''"
    by (simp_all add: content_length_of_def is_content_length_def header_ok_def trim_def is_space_def atol_def digits_val_def is_digit_def)
  show "\<forall>k. read_response (map Data (''HTTP/1.1 '' @ fmt_u 200 @ '' OK'' @ CRLF @ header_lines [''Content-Length: 9''] @ ''ab'') @ replicate k Timeout) = None"
  proof
    fix k
    let ?s = "''HTTP/1.1 '' @ fmt_u 200 @ '' OK'' @ CRLF @ header_lines [''Content-Length: 9''] @ ''ab''"
    have "carries (map Data ?s @ replicate k Timeout) ?s (replicate k Timeout)" by (rule carries_exact) simp
    moreover have "length ''ab'' < headers_length 0 [''Content-Length: 9'']" using h by (simp add: headers_length_def)
    moreover have "LF \<notin> set '' OK''" "(100 :: nat) \<le> 200" "(200 :: nat) < 1000" "\<forall>g \<in> set [''Content-Length: 9'']. header_ok g"
      "set (replicate k Timeout) \<subseteq> {Timeout}" using h by auto
    ultimately show "read_response (map Data ?s @ replicate k Timeout) = None"
      using read_response_termination [of "map Data ?s @ replicate k Timeout"] by blast
  qed
qed

section \<open>Lemmas on the device files\<close>

text \<open>\<open>writable\<close>: every \<open>open(p, "w")\<close> succeeds and there is room for what is written.\<close>

definition writable :: "'f littlefs \<Rightarrow> bool" where
  "writable lfs \<longleftrightarrow> (\<forall>fs p. lfs_takes lfs fs p)"

lemma map_lfs_writable: "writable map_lfs"
  by (simp add: writable_def map_lfs_takes)

fun op_proper :: "fs_op \<Rightarrow> bool" where
  "op_proper (Rename p q) = (p \<noteq> q)"
| "op_proper _ = True"

text \<open>Seen through \<open>lfs_read_string\<close>, the operations act as on a map of text files.\<close>

lemma fs_apply_view:
  assumes "littlefs_ok lfs" "writable lfs" "op_proper op"
  shows "lfs_read_string lfs (fs_apply lfs fs op) = fs_apply map_lfs (lfs_read_string lfs fs) op"
proof (cases op)
  case (Remove p)
  then show ?thesis using lfs_read_remove [OF assms(1)] by (simp add: map_lfs_def)
next
  case (Rename p q)
  then show ?thesis using lfs_read_rename [OF assms(1)] assms(3) by (simp add: map_lfs_def)
next
  case (SaveExp t)
  then show ?thesis using save_exp_view [OF assms(1)] assms(2) by (simp add: writable_def save_exp_def map_lfs_def)
qed

lemma fs_applys_view:
  "littlefs_ok lfs \<Longrightarrow> writable lfs \<Longrightarrow> \<forall>op \<in> set ops. op_proper op \<Longrightarrow>
   lfs_read_string lfs (foldl (fs_apply lfs) fs ops) = foldl (fs_apply map_lfs) (lfs_read_string lfs fs) ops"
  by (induction ops arbitrary: fs) (auto simp: fs_apply_view)

lemma device_paths_distinct:
  "distinct [PATH_CA_CERT, PATH_BS_CERT, PATH_BS_KEY, PATH_DEV_CERT, PATH_DEV_CHAIN, PATH_DEV_KEY, PATH_DEV_EXP, NEW_CERT, NEW_CHAIN, NEW_KEY]"
  by (simp add: path_defs new_path_defs)

lemma device_paths_distinct_rev:
  "distinct [NEW_KEY, NEW_CHAIN, NEW_CERT, PATH_DEV_EXP, PATH_DEV_KEY, PATH_DEV_CHAIN, PATH_DEV_CERT, PATH_BS_KEY, PATH_BS_CERT, PATH_CA_CERT]"
  by (simp add: path_defs new_path_defs)

lemmas path_ne = device_paths_distinct [simplified] device_paths_distinct_rev [simplified]

lemma commit_ops_proper: "\<forall>op \<in> set (take k (commit_ops t)). op_proper op"
proof -
  have "\<forall>op \<in> set (commit_ops t). op_proper op" by (simp add: commit_ops_def path_ne)
  then show ?thesis by (meson in_set_takeD)
qed

lemma commit_ops_proper_all: "\<forall>op \<in> set (commit_ops t). op_proper op"
  using commit_ops_proper [of 7 t] by (simp add: commit_ops_def)

text \<open>The files after the commit, when the three new files are there.\<close>

definition committed :: "(path \<rightharpoonup> string) \<Rightarrow> int \<Rightarrow> path \<rightharpoonup> string" where
  "committed m t = m(PATH_DEV_CERT := m NEW_CERT, PATH_DEV_CHAIN := m NEW_CHAIN, PATH_DEV_KEY := m NEW_KEY,
     NEW_CERT := None, NEW_CHAIN := None, NEW_KEY := None, PATH_DEV_EXP \<mapsto> fmt_u (ulong t))"

lemma commit_map:
  assumes "m NEW_CERT \<noteq> None" "m NEW_CHAIN \<noteq> None" "m NEW_KEY \<noteq> None"
  shows "foldl (fs_apply map_lfs) m (commit_ops t) = committed m t"
proof
  fix p
  obtain a b c where m: "m NEW_CERT = Some a" "m NEW_CHAIN = Some b" "m NEW_KEY = Some c" using assms by auto
  have "foldl (fs_apply map_lfs) m (commit_ops t) = m(PATH_DEV_CERT := None, PATH_DEV_CERT \<mapsto> a, NEW_CERT := None,
      PATH_DEV_CHAIN := None, PATH_DEV_CHAIN \<mapsto> b, NEW_CHAIN := None, PATH_DEV_KEY := None, PATH_DEV_KEY \<mapsto> c, NEW_KEY := None,
      PATH_DEV_EXP \<mapsto> fmt_u (ulong t))"
    using m by (simp add: commit_ops_def map_lfs_def save_exp_def path_ne)
  then show "foldl (fs_apply map_lfs) m (commit_ops t) p = committed m t p"
    by (simp add: committed_def m path_ne)
qed

lemma print_file_view:
  "littlefs_ok lfs \<Longrightarrow> writable lfs \<Longrightarrow> NUL \<notin> set s \<Longrightarrow>
   lfs_read_string lfs (print_file lfs fs p s) = (lfs_read_string lfs fs)(p \<mapsto> s)"
  using lfs_read_write [of lfs fs p "[s]"] by (simp add: print_file_def writable_def lfs_takes_def)

definition key_pem :: "bytes \<Rightarrow> bytes \<Rightarrow> string" where
  "key_pem priv pub = pem_block ''EC PRIVATE KEY'' (the (build_ec_priv_der 200 priv pub))"

definition new_files :: "(path \<rightharpoonup> string) \<Rightarrow> string \<Rightarrow> string \<Rightarrow> bytes \<Rightarrow> bytes \<Rightarrow> path \<rightharpoonup> string" where
  "new_files m leaf chain priv pub = m(NEW_CERT \<mapsto> leaf, NEW_CHAIN \<mapsto> chain, NEW_KEY \<mapsto> key_pem priv pub)"

lemma key_der:
  assumes "length priv = 32" "length pub = 64"
  shows "\<exists>der. build_ec_priv_der 200 priv pub = Some der \<and> length der \<le> 200 \<and> ec_priv_from_der der = Some priv"
proof -
  obtain der where d: "build_ec_priv_der 200 priv pub = Some der" "ec_priv_from_der der = Some priv"
    using build_ec_priv_der_eq [of priv pub 200] assms ec_priv_from_der_skip [of priv] by auto
  then have "length der \<le> 200" by (auto simp: build_ec_priv_der_def put_buf_def split: Option.bind_splits if_splits)
  with d show ?thesis by blast
qed

lemma key_pem_reads_back:
  assumes "length priv = 32" "length pub = 64"
  shows "ec_priv_from_der (pem_to_der (key_pem priv pub) 200) = Some priv" "key_pem priv pub \<noteq> []"
proof -
  obtain der where d: "build_ec_priv_der 200 priv pub = Some der" "length der \<le> 200" "ec_priv_from_der der = Some priv"
    using key_der [OF assms] by blast
  have "pem_to_der (pem_block ''EC PRIVATE KEY'' der) 200 = der"
    using pem_to_der_block_gen [of "''EC PRIVATE KEY''" der 200] d(2) by simp
  then show "ec_priv_from_der (pem_to_der (key_pem priv pub) 200) = Some priv" using d by (simp add: key_pem_def)
  show "key_pem priv pub \<noteq> []" by (simp add: key_pem_def pem_block_def)
qed

lemma write_new_files_view:
  assumes "littlefs_ok lfs" "writable lfs" "length priv = 32" "length pub = 64" "NUL \<notin> set leaf" "NUL \<notin> set chain"
  shows "\<exists>fs'. write_new_files lfs fs leaf chain priv pub = Some fs' \<and>
    lfs_read_string lfs fs' = new_files (lfs_read_string lfs fs) leaf chain priv pub"
proof -
  obtain der where d: "build_ec_priv_der 200 priv pub = Some der" "length der \<le> 200" using key_der [OF assms(3,4)] by blast
  let ?fs = "print_file lfs (print_file lfs fs NEW_CERT leaf) NEW_CHAIN chain"
  obtain fs' where "save_pem lfs ?fs NEW_KEY ''EC PRIVATE KEY'' der = Some fs'"
      "lfs_read_string lfs fs' = (lfs_read_string lfs ?fs)(NEW_KEY \<mapsto> pem_block ''EC PRIVATE KEY'' der)"
    using save_pem_view [of lfs ?fs NEW_KEY "''EC PRIVATE KEY''" der] assms(1,2) d(2) by (auto simp: writable_def)
  then show ?thesis
    using d(1) assms by (simp add: write_new_files_def print_file_view new_files_def key_pem_def)
qed

lemma save_device_assets_view:
  assumes "littlefs_ok lfs" "writable lfs" "length priv = 32" "length pub = 64" "NUL \<notin> set leaf" "NUL \<notin> set chain" "leaf \<noteq> []"
  shows "\<exists>fs'. save_device_assets lfs fs leaf chain priv pub t = Some (Inr (), fs') \<and>
    lfs_read_string lfs fs' = committed (new_files (lfs_read_string lfs fs) leaf chain priv pub) t"
proof -
  obtain fs1 where fs1: "write_new_files lfs fs leaf chain priv pub = Some fs1"
      "lfs_read_string lfs fs1 = new_files (lfs_read_string lfs fs) leaf chain priv pub"
    using write_new_files_view [OF assms(1-6)] by blast
  let ?m = "new_files (lfs_read_string lfs fs) leaf chain priv pub"
  have m: "?m NEW_CERT = Some leaf" "?m NEW_CHAIN = Some chain" "?m NEW_KEY = Some (key_pem priv pub)"
    by (simp_all add: new_files_def path_ne)
  have "length (read_file lfs fs1 NEW_CERT) \<noteq> 0" "length (read_file lfs fs1 NEW_KEY) \<noteq> 0"
    using m assms(7) key_pem_reads_back(2) [OF assms(3,4)] by (simp_all add: read_file_def fs1(2))
  then have "save_device_assets lfs fs leaf chain priv pub t = Some (Inr (), foldl (fs_apply lfs) fs1 (commit_ops t))"
    using fs1(1) by (simp add: save_device_assets_def)
  moreover have "lfs_read_string lfs (foldl (fs_apply lfs) fs1 (commit_ops t)) = committed ?m t"
    using fs_applys_view [OF assms(1,2) commit_ops_proper_all] commit_map [of ?m t] m by (simp add: fs1(2))
  ultimately show ?thesis by blast
qed

text \<open>Without the new files in place nothing but the three temporary files is touched.\<close>

lemma print_file_frame: "littlefs_ok lfs \<Longrightarrow> q \<noteq> p \<Longrightarrow> lfs_read_string lfs (print_file lfs fs p s) q = lfs_read_string lfs fs q"
  by (simp add: print_file_def lfs_write_frame)

lemma save_pem_frame:
  "littlefs_ok lfs \<Longrightarrow> q \<noteq> p \<Longrightarrow> save_pem lfs fs p label der = Some fs' \<Longrightarrow> lfs_read_string lfs fs' q = lfs_read_string lfs fs q"
  by (auto simp: save_pem_def lfs_write_frame split: if_splits Option.bind_splits)

lemma write_new_files_frame:
  "littlefs_ok lfs \<Longrightarrow> q \<notin> {NEW_CERT, NEW_CHAIN, NEW_KEY} \<Longrightarrow> write_new_files lfs fs leaf chain priv pub = Some fs' \<Longrightarrow>
   lfs_read_string lfs fs' q = lfs_read_string lfs fs q"
  by (auto simp: write_new_files_def Let_def save_pem_frame print_file_frame split: Option.bind_splits)

lemma save_device_assets_failed:
  "littlefs_ok lfs \<Longrightarrow> q \<notin> {NEW_CERT, NEW_CHAIN, NEW_KEY} \<Longrightarrow>
   save_device_assets lfs fs leaf chain priv pub t = Some (Inl e, fs') \<Longrightarrow> lfs_read_string lfs fs' q = lfs_read_string lfs fs q"
  by (auto simp: save_device_assets_def write_new_files_frame split: if_splits Option.bind_splits)

section \<open>The certificate authority's answers\<close>

text \<open>\<open>ca_answers e leaf chain\<close>: the connection opens and carries a complete success response with the
  two certificates, with any reason phrase, headers and pauses.\<close>

definition ca_answers :: "https_env \<Rightarrow> string \<Rightarrow> string \<Rightarrow> bool" where
  "ca_answers e leaf chain \<longleftrightarrow> he_ip_ok e \<and> he_connect e \<and>
     (\<exists>st reason hs more rest. st \<in> {200, 201} \<and> LF \<notin> set reason \<and> NUL \<notin> set more \<and> (\<forall>h \<in> set hs. header_ok h) \<and>
        (headers_length 0 hs = length (ca_answer leaf chain more) \<or>
         headers_length 0 hs = 0 \<and> (\<exists>e r. rest = e # r \<and> e \<in> {Closed, Timeout})) \<and>
        carries (he_events e) (''HTTP/1.1 '' @ fmt_u st @ reason @ CRLF @ header_lines hs @ ca_answer leaf chain more) rest)"

text \<open>Text that survives the JSON string and the files unchanged.\<close>

definition plain_text :: "string \<Rightarrow> bool" where
  "plain_text s \<longleftrightarrow> NUL \<notin> set s \<and> CR \<notin> set s \<and> QUOTE \<notin> set s"

lemma plain_pem_block: "plain_text label \<Longrightarrow> plain_text (pem_block label der)"
  unfolding plain_text_def using pem_block_chars [of _ label der] base64_char_ok [of _ der] by fastforce

lemma https_answered:
  assumes "read_file lfs fs PATH_CA_CERT \<noteq> []" "plain_text leaf" "plain_text chain" "leaf \<noteq> []"
    "ca_answers (server \<lparr> rq_anchor = read_file lfs fs PATH_CA_CERT, rq_client = client, rq_text = request_text cfg m p b \<rparr>) leaf chain"
  shows "\<exists>r. stepca_https cfg lfs fs server m p b client = Some (Inr r) \<and>
    and_then (check_status r) leaf_and_inter = Done (Inr (leaf, chain))"
proof -
  let ?e = "server \<lparr> rq_anchor = read_file lfs fs PATH_CA_CERT, rq_client = client, rq_text = request_text cfg m p b \<rparr>"
  obtain st reason hs more rest where a: "he_ip_ok ?e" "he_connect ?e" "st \<in> {200, 201}" "LF \<notin> set reason" "NUL \<notin> set more"
      "\<forall>h \<in> set hs. header_ok h" 
      "headers_length 0 hs = length (ca_answer leaf chain more) \<or> headers_length 0 hs = 0 \<and> (\<exists>e r. rest = e # r \<and> e \<in> {Closed, Timeout})"
      "carries (he_events ?e) (''HTTP/1.1 '' @ fmt_u st @ reason @ CRLF @ header_lines hs @ ca_answer leaf chain more) rest"
    using assms(5) unfolding ca_answers_def by blast
  have "read_response (he_events ?e) = Some (Inr (int st, ca_answer leaf chain more))"
    using a by (intro read_response_answer [of _ st reason hs _ rest]) (simp_all, auto simp: ca_answer_def)
  then have "stepca_https cfg lfs fs server m p b client = Some (Inr (int st, ca_answer leaf chain more))"
    using a(1,2) assms(1) by (simp add: stepca_https_def Let_def)
  moreover have "filter (\<lambda>c. c \<noteq> CR) leaf = leaf" "filter (\<lambda>c. c \<noteq> CR) chain = chain"
    using assms(2,3) by (auto simp: plain_text_def filter_id_conv)
  then have "leaf_and_inter (ca_answer leaf chain more) = Done (Inr (leaf, chain))"
    using ca_answer_extract [of leaf chain more] assms(2-4) a(5) by (simp add: leaf_and_inter_def plain_text_def Let_def)
  then have "and_then (check_status (int st, ca_answer leaf chain more)) leaf_and_inter = Done (Inr (leaf, chain))"
    using a(3) by (auto simp: check_status_def and_then_def)
  ultimately show ?thesis by blast
qed

lemma and_then_assoc: "and_then (and_then m f) g = and_then m (\<lambda>x. and_then (f x) g)"
  by (cases m) (auto simp: and_then_def split: sum.splits)

lemma and_then_Inr [simp]: "and_then (Done (Inr a)) k = k a" "and_then (Done (Inl e)) k = Done (Inl e)"
    "and_then Undefined k = Undefined" "and_then Pending k = Pending"
  by (simp_all add: and_then_def)

lemma rekey_answered:
  assumes "read_file lfs fs PATH_CA_CERT \<noteq> []" "plain_text leaf" "plain_text chain" "leaf \<noteq> []"
    "ca_answers (server \<lparr> rq_anchor = read_file lfs fs PATH_CA_CERT, rq_client = Some (dev, key),
       rq_text = request_text cfg ''POST'' STEP_CA_REKEY_PATH (rekey_body csr) \<rparr>) leaf chain"
    "parse_leaf_not_after leaf = Some (Some t)"
  shows "step_ca_rekey cfg lfs fs server csr dev key = Done (Inr (leaf, chain, t))"
proof -
  obtain r where r: "stepca_https cfg lfs fs server ''POST'' STEP_CA_REKEY_PATH (rekey_body csr) (Some (dev, key)) = Some (Inr r)"
      "and_then (check_status r) leaf_and_inter = Done (Inr (leaf, chain))"
    using https_answered [OF assms(1-4), of server "Some (dev, key)"] assms(5) by blast
  have "step_ca_rekey cfg lfs fs server csr dev key =
      and_then (and_then (check_status r) leaf_and_inter) (\<lambda>(leaf, chain). and_then (not_after_of leaf) (\<lambda>t. Done (Inr (leaf, chain, t))))"
    by (simp add: step_ca_rekey_def r(1) and_then_assoc)
  then show ?thesis using r(2) assms(6) by (simp add: not_after_of_def)
qed

lemma sign_answered:
  assumes "read_file lfs fs PATH_CA_CERT \<noteq> []" "plain_text leaf" "plain_text chain" "leaf \<noteq> []"
    "ca_answers (server \<lparr> rq_anchor = read_file lfs fs PATH_CA_CERT, rq_client = None,
       rq_text = request_text cfg ''POST'' STEP_CA_SIGN_PATH (sign_body cfg csr jwt []) \<rparr>) leaf chain"
    "parse_leaf_not_after leaf = Some (Some t)" "\<not> LIFETIME_MODE_TEST_EXPLICIT cfg"
  shows "step_ca_sign cfg lfs fs server now csr jwt sna = Done (Inr (leaf, chain, t))"
proof -
  obtain r where r: "stepca_https cfg lfs fs server ''POST'' STEP_CA_SIGN_PATH (sign_body cfg csr jwt []) None = Some (Inr r)"
      "and_then (check_status r) leaf_and_inter = Done (Inr (leaf, chain))"
    using https_answered [OF assms(1-4), of server None] assms(5) by blast
  have "step_ca_sign cfg lfs fs server now csr jwt sna =
      and_then (and_then (check_status r) leaf_and_inter) (\<lambda>(leaf, chain). and_then (not_after_of leaf) (\<lambda>t. Done (Inr (leaf, chain, t))))"
    using assms(7) by (simp add: step_ca_sign_def r(1) and_then_assoc)
  then show ?thesis using r(2) assms(6) by (simp add: not_after_of_def)
qed

lemma build_csr_max: "build_csr cr 800 cn pub priv = Some csr \<Longrightarrow> length csr \<le> 800"
  by (auto simp: build_csr_def put_buf_def split: Option.bind_splits if_splits option.splits)

lemma gen_keypair_ok:
  assumes "pe_make_key env k = Some (pub, priv)" "cn_text cfg (pe_mac env) = Some n"
    "build_csr (pe_crypto env) 800 (snprintf_str 32 n) pub priv = Some csr" "csr \<noteq> []"
  shows "gen_keypair_and_csr cfg env k = Done (Inr (pub, priv, snprintf_str 32 n, pem_block ''CERTIFICATE REQUEST'' csr))"
  using assms build_csr_max [OF assms(3)] by (simp add: gen_keypair_and_csr_def der_to_pem_string_block Let_def)


section \<open>Properties of provisioning\<close>

lemma provision_failed_frame:
  assumes "littlefs_ok lfs" "provision_cert cfg lfs env renew_mode fs = Done (Inl e, fs')" "q \<notin> {NEW_CERT, NEW_CHAIN, NEW_KEY}"
  shows "lfs_read_string lfs fs' q = lfs_read_string lfs fs q"
proof -
  obtain r where r: "(if renew_mode then obtain_renewed cfg lfs fs env else obtain_first cfg lfs fs env) = Done r"
    using assms(2) by (auto simp: provision_cert_def exec_then_Done)
  show ?thesis
  proof (cases r)
    case (Inl e1)
    then show ?thesis using assms(2) r by (simp add: provision_cert_def)
  next
    case (Inr a)
    obtain pub priv leaf chain t where a: "a = (pub, priv, leaf, chain, t)" by (cases a)
    obtain r2 fs2 where s: "save_device_assets lfs fs leaf chain priv pub t = Some (r2, fs2)"
      using assms(2) r Inr a by (auto simp: provision_cert_def exec_then_Done)
    then have "r2 = Inl e" "fs2 = fs'" using assms(2) r Inr a by (auto simp: provision_cert_def split: sum.splits if_splits)
    then show ?thesis using save_device_assets_failed [OF assms(1,3)] s by simp
  qed
qed

definition demo_env0 :: prov_env where
  "demo_env0 = \<lparr> pe_crypto = demo_sign, pe_make_key = (\<lambda>k. None), pe_mac = [0, 0, 0, 1, 2, 3], pe_now = (\<lambda>k. 1767225600),
     pe_rand = (\<lambda>k. (1, 2)), pe_server = (\<lambda>k rq. \<lparr> he_ip_ok = True, he_connect = False, he_events = [] \<rparr>) \<rparr>"

text \<open>The device files of a key pair, a certificate, a chain and an expiry.\<close>

definition device_files :: "'f littlefs \<Rightarrow> 'f \<Rightarrow> bytes \<Rightarrow> string \<Rightarrow> string \<Rightarrow> int \<Rightarrow> bool" where
  "device_files lfs fs priv leaf chain t \<longleftrightarrow>
     read_file lfs fs PATH_DEV_CERT = leaf \<and> read_file lfs fs PATH_DEV_CHAIN = chain \<and>
     ec_priv_from_der (pem_to_der (read_file lfs fs PATH_DEV_KEY) 200) = Some priv \<and>
     read_exp lfs fs = t mod 2 ^ 32 \<and>
     \<not> lfs_exists lfs fs NEW_CERT \<and> \<not> lfs_exists lfs fs NEW_CHAIN \<and> \<not> lfs_exists lfs fs NEW_KEY"

lemma committed_device_files:
  assumes "littlefs_ok lfs" "length priv = 32" "length pub = 64"
    "\<forall>p \<in> {PATH_DEV_CERT, PATH_DEV_CHAIN, PATH_DEV_KEY, PATH_DEV_EXP, NEW_CERT, NEW_CHAIN, NEW_KEY}.
       lfs_read_string lfs fs' p = committed (new_files m leaf chain priv pub) t p"
  shows "device_files lfs fs' priv leaf chain t"
proof -
  have "read_exp lfs fs' = t mod 2 ^ 32" using assms(4) by (intro read_exp_text) (simp add: committed_def)
  then show ?thesis
    using assms key_pem_reads_back(1) [OF assms(2,3)]
    by (simp add: device_files_def read_file_def lfs_exists_iff committed_def new_files_def path_ne)
qed

lemma obtain_renewed_ok:
  assumes "pe_make_key env 0 = Some (pub, priv)" "cn_text cfg (pe_mac env) = Some n"
    "build_csr (pe_crypto env) 800 (snprintf_str 32 n) pub priv = Some csr" "csr \<noteq> []"
    "read_file lfs fs PATH_CA_CERT \<noteq> []" "read_file lfs fs PATH_DEV_CERT \<noteq> []" "read_file lfs fs PATH_DEV_KEY \<noteq> []"
    "ca_answers (pe_server env 0 \<lparr> rq_anchor = read_file lfs fs PATH_CA_CERT,
       rq_client = Some (read_file lfs fs PATH_DEV_CERT @ read_file lfs fs PATH_DEV_CHAIN, read_file lfs fs PATH_DEV_KEY),
       rq_text = request_text cfg ''POST'' STEP_CA_REKEY_PATH (rekey_body (pem_block ''CERTIFICATE REQUEST'' csr)) \<rparr>)
       (pem_block ''CERTIFICATE'' (cert_der f)) chain"
    "plain_text chain" "length (cert_der f) \<le> 767" "0 \<le> t" "t < 2 ^ 31" "time_field t (cf_not_after f)"
  shows "obtain_renewed cfg lfs fs env = Done (Inr (pub, priv, pem_block ''CERTIFICATE'' (cert_der f), chain, t))"
proof -
  let ?leaf = "pem_block ''CERTIFICATE'' (cert_der f)"
  have leaf: "plain_text ?leaf" "?leaf \<noteq> []"
    using plain_pem_block [of "''CERTIFICATE''"] by (simp_all add: plain_text_def) (simp add: pem_block_def)
  have na: "parse_leaf_not_after ?leaf = Some (Some t)"
    by (rule parse_leaf_pem) (use assms(10-13) in simp_all)
  have "step_ca_rekey cfg lfs fs (pe_server env 0) (pem_block ''CERTIFICATE REQUEST'' csr)
      (read_file lfs fs PATH_DEV_CERT @ read_file lfs fs PATH_DEV_CHAIN) (read_file lfs fs PATH_DEV_KEY) = Done (Inr (?leaf, chain, t))"
    by (rule rekey_answered [OF assms(5) leaf(1) assms(9) leaf(2) _ na]) (rule assms(8))
  then show ?thesis using gen_keypair_ok [OF assms(1-4)] assms(6,7) by (simp add: obtain_renewed_def Let_def)
qed

text \<open>(C2) Renewal end to end: if the key generator and the signer work, the current assets are on the
  device, and the authority answers the rekey request, which is authenticated with the current
  certificate, chain and key and carries the CSR of the new key, with a new certificate valid until
  \<open>t\<close>, then renewal succeeds and the device files are the new certificate, the new chain, the new
  private key and the expiry \<open>t\<close>; all other files are unchanged.\<close>

theorem renew_end_to_end:
  assumes "littlefs_ok lfs" and "writable lfs"
    and "pe_make_key env 0 = Some (pub, priv)" and "length priv = 32" and "length pub = 64"
    and "cn_text cfg (pe_mac env) = Some n"
    and "build_csr (pe_crypto env) 800 (snprintf_str 32 n) pub priv = Some csr" and "csr \<noteq> []"
    and "read_file lfs fs PATH_CA_CERT \<noteq> []" and "read_file lfs fs PATH_DEV_CERT \<noteq> []" and "read_file lfs fs PATH_DEV_KEY \<noteq> []"
    and "ca_answers (pe_server env 0 \<lparr> rq_anchor = read_file lfs fs PATH_CA_CERT,
           rq_client = Some (read_file lfs fs PATH_DEV_CERT @ read_file lfs fs PATH_DEV_CHAIN, read_file lfs fs PATH_DEV_KEY),
           rq_text = request_text cfg ''POST'' ''/1.0/rekey'' (rekey_body (pem_block ''CERTIFICATE REQUEST'' csr)) \<rparr>)
         (pem_block ''CERTIFICATE'' (cert_der f)) chain"
    and "plain_text chain" and "length (cert_der f) \<le> 767"
    and "0 \<le> t" and "t < 2 ^ 31" and "cf_not_after f = (0x17, utc_time_of (gmtime t))"
  shows "\<exists>fs'. provision_cert cfg lfs env True fs = Done (Inr (), fs') \<and>
    device_files lfs fs' priv (pem_block ''CERTIFICATE'' (cert_der f)) chain t \<and> read_exp lfs fs' = t \<and>
    (\<forall>q. q \<in> {PATH_DEV_CERT, PATH_DEV_CHAIN, PATH_DEV_KEY, PATH_DEV_EXP, NEW_CERT, NEW_CHAIN, NEW_KEY} \<or>
       lfs_read_string lfs fs' q = lfs_read_string lfs fs q)"
proof -
  let ?leaf = "pem_block ''CERTIFICATE'' (cert_der f)"
  have leaf: "plain_text ?leaf" "?leaf \<noteq> []"
    using plain_pem_block [of "''CERTIFICATE''"] by (simp_all add: plain_text_def) (simp add: pem_block_def)
  have o: "obtain_renewed cfg lfs fs env = Done (Inr (pub, priv, ?leaf, chain, t))"
    by (rule obtain_renewed_ok [OF assms(3,6-11)]) (use assms(12-17) in \<open>simp_all add: STEP_CA_REKEY_PATH_def time_field_def\<close>)
  obtain fs' where fs': "save_device_assets lfs fs ?leaf chain priv pub t = Some (Inr (), fs')"
      "lfs_read_string lfs fs' = committed (new_files (lfs_read_string lfs fs) ?leaf chain priv pub) t"
    using save_device_assets_view [OF assms(1,2,4,5), of ?leaf chain fs t] leaf assms(13) by (auto simp: plain_text_def)
  have "device_files lfs fs' priv ?leaf chain t"
    by (rule committed_device_files [OF assms(1,4,5)]) (simp add: fs'(2))
  moreover from this have "read_exp lfs fs' = t" using assms(15,16) by (simp add: device_files_def)
  moreover have "provision_cert cfg lfs env True fs = Done (Inr (), fs')" using o fs'(1) by (simp add: provision_cert_def)
  moreover have "q \<in> {PATH_DEV_CERT, PATH_DEV_CHAIN, PATH_DEV_KEY, PATH_DEV_EXP, NEW_CERT, NEW_CHAIN, NEW_KEY} \<or>
       lfs_read_string lfs fs' q = lfs_read_string lfs fs q" for q
    unfolding fs'(2) committed_def new_files_def by simp
  ultimately show ?thesis by blast
qed


definition demo_leaf :: string where
  "demo_leaf = pem_block ''CERTIFICATE'' (cert_der demo_cert)"

definition demo_ca :: https_env where
  "demo_ca = \<lparr> he_ip_ok = True, he_connect = True,
     he_events = map Data (''HTTP/1.1 '' @ fmt_u 201 @ '' Created'' @ CRLF @ header_lines [] @ ca_answer demo_leaf ''inter'' ''}'') @ [Closed] \<rparr>"

definition demo_prov :: prov_env where
  "demo_prov = demo_env0\<lparr>pe_make_key := (\<lambda>k. Some (replicate 64 7, replicate 32 5)), pe_server := (\<lambda>k rq. demo_ca)\<rparr>"

definition demo_dev_fs :: "path \<rightharpoonup> string" where
  "demo_dev_fs = [PATH_CA_CERT \<mapsto> ''ca'', PATH_DEV_CERT \<mapsto> ''leaf'', PATH_DEV_KEY \<mapsto> ''key'']"

lemma demo_ca_answers: "ca_answers demo_ca demo_leaf ''inter''"
  unfolding ca_answers_def
proof (intro conjI exI)
  show "carries (he_events demo_ca) (''HTTP/1.1 '' @ fmt_u 201 @ '' Created'' @ CRLF @ header_lines [] @ ca_answer demo_leaf ''inter'' ''}'') [Closed]"
    unfolding demo_ca_def by (simp only: https_env.select_convs) (rule carries_exact, simp)
qed (simp_all add: demo_ca_def headers_length_def)

lemma demo_prov_csr:
  "\<exists>n csr. cn_text config_example (pe_mac demo_prov) = Some n \<and>
     build_csr (pe_crypto demo_prov) 800 (snprintf_str 32 n) (replicate 64 7) (replicate 32 5) = Some csr \<and> csr \<noteq> []"
proof -
  obtain n where n: "cn_text config_example (pe_mac demo_prov) = Some n"
    using cn_text_ok [of "pe_mac demo_prov" config_example] by (auto simp: demo_prov_def demo_env0_def)
  have "length (snprintf_str 32 n) \<le> 31" using snprintf_str_length [of 32 n] by simp
  then have "build_csr demo_sign 800 (snprintf_str 32 n) (replicate 64 7) (replicate 32 5) =
      Some (tlv 0x30 (csr_body (snprintf_str 32 n) (replicate 64 7) (replicate 64 0x90)))"
    by (intro build_csr_eq) (simp_all add: demo_sign_def)
  moreover have "tlv 0x30 (csr_body (snprintf_str 32 n) (replicate 64 7) (replicate 64 0x90)) \<noteq> []" by (simp add: tlv_def)
  ultimately show ?thesis using n by (simp add: demo_prov_def demo_env0_def)
qed

theorem renew_end_to_end_witness:
  "\<exists>fs'. provision_cert config_example map_lfs demo_prov True demo_dev_fs = Done (Inr (), fs') \<and> read_exp map_lfs fs' = 1767225600"
proof -
  obtain n csr where c: "cn_text config_example (pe_mac demo_prov) = Some n"
      "build_csr (pe_crypto demo_prov) 800 (snprintf_str 32 n) (replicate 64 7) (replicate 32 5) = Some csr" "csr \<noteq> []"
    using demo_prov_csr by blast
  have "pe_make_key demo_prov 0 = Some (replicate 64 7, replicate 32 5)" "pe_server demo_prov 0 rq = demo_ca" for rq
    by (simp_all add: demo_prov_def)
  moreover have "read_file map_lfs demo_dev_fs PATH_CA_CERT \<noteq> []" "read_file map_lfs demo_dev_fs PATH_DEV_CERT \<noteq> []"
      "read_file map_lfs demo_dev_fs PATH_DEV_KEY \<noteq> []"
    by (simp_all add: read_file_def map_lfs_def demo_dev_fs_def path_ne)
  moreover have "cf_not_after demo_cert = (0x17, utc_time_of (gmtime 1767225600))" by (simp add: demo_cert_def)
  moreover have "plain_text ''inter''" by (simp add: plain_text_def)
  ultimately show ?thesis
    using renew_end_to_end [OF map_lfs_ok map_lfs_writable _ _ _ c, of demo_dev_fs demo_cert "''inter''" 1767225600]
      demo_ca_answers demo_cert_length
    by (auto simp: demo_leaf_def)
qed

text \<open>(C4) A failed provisioning, for whatever reason and at whatever step the code gives up, leaves every
  file as it was except the three temporary ones: the old device certificate, chain, key and expiry
  and the bootstrap assets are still there for the next attempt.\<close>

theorem provision_failure_keeps_files:
  assumes "littlefs_ok lfs" and "provision_cert cfg lfs env renew_mode fs = Done (Inl e, fs')"
    and "q \<notin> {''/device-cert.pem.new'', ''/device-chain.pem.new'', ''/device-key.pem.new''}"
  shows "lfs_read_string lfs fs' q = lfs_read_string lfs fs q"
  using provision_failed_frame [OF assms(1,2)] assms(3) by (simp add: new_path_defs)

definition ro_lfs :: "(path \<rightharpoonup> string) littlefs" where
  "ro_lfs = map_lfs\<lparr>lfs_can_write := (\<lambda>fs p. False)\<rparr>"

lemma ro_lfs_ok: "littlefs_ok ro_lfs"
  by (auto simp: littlefs_ok_def ro_lfs_def map_lfs_def)

text \<open>The authority issues a certificate, but no file can be written: the last step fails.\<close>

theorem provision_failure_keeps_files_witness:
  "provision_cert config_example ro_lfs demo_prov True demo_dev_fs = Done (Inl NewFileEmpty, demo_dev_fs) \<and>
   lfs_read_string ro_lfs demo_dev_fs PATH_DEV_CERT = Some ''leaf''"
proof -
  obtain n csr where c: "cn_text config_example (pe_mac demo_prov) = Some n"
      "build_csr (pe_crypto demo_prov) 800 (snprintf_str 32 n) (replicate 64 7) (replicate 32 5) = Some csr" "csr \<noteq> []"
    using demo_prov_csr by blast
  have r: "read_file ro_lfs demo_dev_fs PATH_CA_CERT \<noteq> []" "read_file ro_lfs demo_dev_fs PATH_DEV_CERT \<noteq> []"
      "read_file ro_lfs demo_dev_fs PATH_DEV_KEY \<noteq> []" "read_file ro_lfs demo_dev_fs NEW_CERT = []"
    by (simp_all add: read_file_def ro_lfs_def map_lfs_def demo_dev_fs_def path_ne)
  have o: "obtain_renewed config_example ro_lfs demo_dev_fs demo_prov =
      Done (Inr (replicate 64 7, replicate 32 5, demo_leaf, ''inter'', 1767225600))"
    unfolding demo_leaf_def using demo_ca_answers demo_cert_length
    by (intro obtain_renewed_ok [OF _ c r(1-3)])
      (simp_all add: demo_prov_def demo_leaf_def plain_text_def time_field_def demo_cert_def)
  obtain der where "build_ec_priv_der 200 (replicate 32 5) (replicate 64 7) = Some der"
    using key_der [of "replicate 32 5" "replicate 64 7"] by auto
  then have "save_device_assets ro_lfs demo_dev_fs demo_leaf ''inter'' (replicate 32 5) (replicate 64 7) 1767225600 = Some (Inl NewFileEmpty, demo_dev_fs)"
    using r(4) by (simp add: save_device_assets_def write_new_files_def print_file_def save_pem_def ro_lfs_def)
  then have p: "provision_cert config_example ro_lfs demo_prov True demo_dev_fs = Done (Inl NewFileEmpty, demo_dev_fs)"
    using o by (simp add: provision_cert_def)
  then show ?thesis
    using provision_failure_keeps_files [OF ro_lfs_ok p, of PATH_DEV_CERT]
    by (simp add: path_defs ro_lfs_def map_lfs_def demo_dev_fs_def)
qed

section \<open>First issuance\<close>

text \<open>\<open>token_of\<close>: the token of exchange \<open>k\<close>, read as the authority reads it; nothing is said of a device
  name that would have to be escaped in JSON, which the code does not do.\<close>

definition token_of :: "prov_env \<Rightarrow> nat \<Rightarrow> string \<Rightarrow> string \<Rightarrow> bytes \<Rightarrow> bytes \<Rightarrow> string \<Rightarrow> bool" where
  "token_of env k prov cn cert priv jwt \<longleftrightarrow>
     (bare cn \<longrightarrow> x5c_token_for (pe_crypto env) priv prov cn cert (pe_now env k) (x5c_jti (fst (pe_rand env k)) (snd (pe_rand env k))) jwt)"

lemma x5c_token_ok:
  assumes "crypto_ok (pe_crypto env)" "\<forall>d h. uECC_sign (pe_crypto env) d h \<noteq> None"
    "length cert \<le> 597" "length cn \<le> 31" "length prov \<le> 16" "bare prov"
  shows "\<exists>jwt. x5c_token env k cn prov cert priv = Done (Inr jwt) \<and> token_of env k prov cn cert priv jwt"
proof -
  have "\<exists>jwt. build_x5c_jwt (pe_crypto env) (pe_now env k) (fst (pe_rand env k)) (snd (pe_rand env k)) cn prov cert priv = Some (Some jwt)"
    using build_x5c_jwt_fits [OF assms(3-5)] assms(1,2) by (auto simp: crypto_ok_def split: option.splits)
  then obtain jwt where j: "build_x5c_jwt (pe_crypto env) (pe_now env k) (fst (pe_rand env k)) (snd (pe_rand env k)) cn prov cert priv = Some (Some jwt)" ..
  then have "token_of env k prov cn cert priv jwt"
    using build_x5c_jwt_token [OF assms(1,3-5) j] assms(6) by (simp add: token_of_def)
  then show ?thesis using j by (auto simp: x5c_token_def)
qed

text \<open>\<open>sign_answers\<close>: in exchange \<open>k\<close> the authority answers the sign request for \<open>csr\<close> with the certificate \<open>f\<close>
  and the chain, provided that the token of the request names the provisioner \<open>prov\<close> and the device,
  carries the signer certificate \<open>cert\<close> and is signed with \<open>priv\<close>. A request with any other token may be
  refused.\<close>

definition sign_answers ::
    "config \<Rightarrow> 'f littlefs \<Rightarrow> 'f \<Rightarrow> prov_env \<Rightarrow> nat \<Rightarrow> string \<Rightarrow> bytes \<Rightarrow> bytes \<Rightarrow> bytes \<Rightarrow> cert_fields \<Rightarrow> string \<Rightarrow> bool" where
  "sign_answers cfg lfs fs env k prov cert priv csr f chain \<longleftrightarrow> plain_text chain \<and> length (cert_der f) \<le> 767 \<and>
     (\<forall>n jwt. cn_text cfg (pe_mac env) = Some n \<and> token_of env k prov (snprintf_str 32 n) cert priv jwt \<longrightarrow>
        ca_answers (pe_server env k \<lparr> rq_anchor = read_file lfs fs PATH_CA_CERT, rq_client = None,
          rq_text = request_text cfg ''POST'' STEP_CA_SIGN_PATH (sign_body cfg (pem_block ''CERTIFICATE REQUEST'' csr) jwt []) \<rparr>)
        (pem_block ''CERTIFICATE'' (cert_der f)) chain)"

definition expires_at :: "cert_fields \<Rightarrow> int \<Rightarrow> bool" where
  "expires_at f t \<longleftrightarrow> 0 \<le> t \<and> t < 2 ^ 31 \<and> time_field t (cf_not_after f)"

lemma sign_step:
  assumes "read_file lfs fs PATH_CA_CERT \<noteq> []" "\<not> LIFETIME_MODE_TEST_EXPLICIT cfg"
    "sign_answers cfg lfs fs env k prov cert priv csr f chain" "expires_at f t"
    "cn_text cfg (pe_mac env) = Some n" "token_of env k prov (snprintf_str 32 n) cert priv jwt"
  shows "step_ca_sign cfg lfs fs (pe_server env k) now (pem_block ''CERTIFICATE REQUEST'' csr) jwt sna =
    Done (Inr (pem_block ''CERTIFICATE'' (cert_der f), chain, t))"
proof -
  have leaf: "plain_text (pem_block ''CERTIFICATE'' (cert_der f))" "pem_block ''CERTIFICATE'' (cert_der f) \<noteq> []"
    using plain_pem_block [of "''CERTIFICATE''"] by (simp_all add: plain_text_def) (simp add: pem_block_def)
  have na: "parse_leaf_not_after (pem_block ''CERTIFICATE'' (cert_der f)) = Some (Some t)"
    by (rule parse_leaf_pem) (use assms(3,4) in \<open>simp_all add: sign_answers_def expires_at_def\<close>)
  show ?thesis
    by (rule sign_answered [OF assms(1) leaf(1) _ leaf(2) _ na assms(2)]) (use assms(3,5,6) in \<open>simp_all add: sign_answers_def\<close>)
qed

definition csr_of :: "config \<Rightarrow> prov_env \<Rightarrow> nat \<Rightarrow> bytes \<Rightarrow> bytes \<Rightarrow> bytes \<Rightarrow> bool" where
  "csr_of cfg env k pub priv csr \<longleftrightarrow> pe_make_key env k = Some (pub, priv) \<and> length priv = 32 \<and> length pub = 64 \<and> csr \<noteq> [] \<and>
     (\<exists>n. cn_text cfg (pe_mac env) = Some n \<and> build_csr (pe_crypto env) 800 (snprintf_str 32 n) pub priv = Some csr)"

lemma gen_keypair_csr_of:
  "csr_of cfg env k pub priv csr \<Longrightarrow> \<exists>n. cn_text cfg (pe_mac env) = Some n \<and> length (snprintf_str 32 n) \<le> 31 \<and>
     gen_keypair_and_csr cfg env k = Done (Inr (pub, priv, snprintf_str 32 n, pem_block ''CERTIFICATE REQUEST'' csr))"
proof -
  assume a: "csr_of cfg env k pub priv csr"
  then obtain n where n: "cn_text cfg (pe_mac env) = Some n" "build_csr (pe_crypto env) 800 (snprintf_str 32 n) pub priv = Some csr"
    by (auto simp: csr_of_def)
  have "length (snprintf_str 32 n) \<le> 31" using snprintf_str_length [of 32 n] by simp
  then show ?thesis using gen_keypair_ok [OF _ n] n(1) a by (auto simp: csr_of_def)
qed

definition bootstrap_assets :: "'f littlefs \<Rightarrow> 'f \<Rightarrow> bytes \<Rightarrow> bytes \<Rightarrow> bool" where
  "bootstrap_assets lfs fs cert priv \<longleftrightarrow> read_file lfs fs PATH_CA_CERT \<noteq> [] \<and> read_file lfs fs PATH_BS_CERT \<noteq> [] \<and> read_file lfs fs PATH_BS_KEY \<noteq> [] \<and>
     pem_to_der (read_file lfs fs PATH_BS_CERT) 600 = cert \<and> 0 < length cert \<and> length cert \<le> 597 \<and>
     pem_to_der (read_file lfs fs PATH_BS_KEY) 200 \<noteq> [] \<and>
     ec_priv_from_der (pem_to_der (read_file lfs fs PATH_BS_KEY) 200) = Some priv"

lemma prov_lengths: "length PROV_BOOTSTRAP \<le> 16" "length PROV_RENEWAL \<le> 16" "bare PROV_BOOTSTRAP" "bare PROV_RENEWAL"
  by (simp_all add: PROV_BOOTSTRAP_def PROV_RENEWAL_def is_control_def)

lemma obtain_first_ok:
  assumes "crypto_ok (pe_crypto env)" "\<forall>d h. uECC_sign (pe_crypto env) d h \<noteq> None" "\<not> LIFETIME_MODE_TEST_EXPLICIT cfg"
    "bootstrap_assets lfs fs bs_cert bs_priv" "csr_of cfg env 0 pub1 priv1 csr1" "csr_of cfg env 1 pub2 priv2 csr2"
    "sign_answers cfg lfs fs env 0 PROV_BOOTSTRAP bs_cert bs_priv csr1 f1 chain1"
    "sign_answers cfg lfs fs env 1 PROV_RENEWAL (cert_der f1) priv1 csr2 f2 chain2"
    "expires_at f1 t1" "expires_at f2 t2" "length (cert_der f1) \<le> 597"
  shows "obtain_first cfg lfs fs env = Done (Inr (pub2, priv2, pem_block ''CERTIFICATE'' (cert_der f2), chain2, t2))"
proof -
  obtain n where n: "cn_text cfg (pe_mac env) = Some n" "length (snprintf_str 32 n) \<le> 31"
      "gen_keypair_and_csr cfg env 0 = Done (Inr (pub1, priv1, snprintf_str 32 n, pem_block ''CERTIFICATE REQUEST'' csr1))"
    using gen_keypair_csr_of [OF assms(5)] by blast
  have n2: "gen_keypair_and_csr cfg env 1 = Done (Inr (pub2, priv2, snprintf_str 32 n, pem_block ''CERTIFICATE REQUEST'' csr2))"
    using gen_keypair_csr_of [OF assms(6)] n(1) by auto
  have ca: "read_file lfs fs PATH_CA_CERT \<noteq> []" and bs: "length bs_cert \<le> 597" using assms(4) by (simp_all add: bootstrap_assets_def)
  obtain jwt1 where j1: "x5c_token env 0 (snprintf_str 32 n) PROV_BOOTSTRAP bs_cert bs_priv = Done (Inr jwt1)"
      "token_of env 0 PROV_BOOTSTRAP (snprintf_str 32 n) bs_cert bs_priv jwt1"
    using x5c_token_ok [OF assms(1,2) bs n(2) prov_lengths(1,3)] by blast
  have s1: "sign_with_bootstrap cfg lfs fs env (snprintf_str 32 n) (pem_block ''CERTIFICATE REQUEST'' csr1) = Done (Inr (pem_block ''CERTIFICATE'' (cert_der f1), t1))"
    using assms(4) j1(1) sign_step [OF ca assms(3,7,9) n(1) j1(2)] by (auto simp: sign_with_bootstrap_def bootstrap_assets_def Let_def)
  have der: "pem_to_der (pem_block ''CERTIFICATE'' (cert_der f1)) 600 = cert_der f1"
    using pem_to_der_block_gen [of "''CERTIFICATE''" "cert_der f1" 600] assms(11) by simp
  have ne: "cert_der f1 \<noteq> []" by (simp add: cert_der_def asn1_seq_def)
  obtain jwt2 where j2: "x5c_token env 1 (snprintf_str 32 n) PROV_RENEWAL (cert_der f1) priv1 = Done (Inr jwt2)"
      "token_of env 1 PROV_RENEWAL (snprintf_str 32 n) (cert_der f1) priv1 jwt2"
    using x5c_token_ok [OF assms(1,2,11) n(2) prov_lengths(2,4)] by blast
  then have "sign_with_first_cert cfg lfs fs env (snprintf_str 32 n) (pem_block ''CERTIFICATE'' (cert_der f1)) priv1 t1 (pem_block ''CERTIFICATE REQUEST'' csr2) =
      Done (Inr (pem_block ''CERTIFICATE'' (cert_der f2), chain2, t2))"
    using sign_step [OF ca assms(3,8,10) n(1) j2(2)] ne by (simp add: sign_with_first_cert_def der Let_def)
  then show ?thesis using n(3) n2 s1 by (simp add: obtain_first_def)
qed

text \<open>(C3) First issuance end to end: with usable bootstrap assets (signer certificate up to 597 bytes), a
  working signer and an authority that answers the two sign requests when their tokens are the right
  ones (the first for the provisioner device-bootstrap, with the bootstrap certificate and signed with the
  bootstrap key; the second for device-renewal, with the certificate just issued and signed with its
  key), provisioning succeeds; the device files are the second
  certificate, its chain, its private key and its expiry, the bootstrap certificate and key are
  gone, and the CA file is unchanged.\<close>

theorem bootstrap_end_to_end:
  assumes "littlefs_ok lfs" and "writable lfs" and "crypto_ok (pe_crypto env)" and "\<forall>d h. uECC_sign (pe_crypto env) d h \<noteq> None"
    and "\<not> LIFETIME_MODE_TEST_EXPLICIT cfg" and "bootstrap_assets lfs fs bs_cert bs_priv"
    and "csr_of cfg env 0 pub1 priv1 csr1" and "csr_of cfg env 1 pub2 priv2 csr2"
    and "sign_answers cfg lfs fs env 0 ''device-bootstrap'' bs_cert bs_priv csr1 f1 chain1"
    and "sign_answers cfg lfs fs env 1 ''device-renewal'' (cert_der f1) priv1 csr2 f2 chain2"
    and "expires_at f1 t1" and "expires_at f2 t2" and "length (cert_der f1) \<le> 597"
  shows "\<exists>fs'. provision_cert cfg lfs env False fs = Done (Inr (), fs') \<and>
    device_files lfs fs' priv2 (pem_block ''CERTIFICATE'' (cert_der f2)) chain2 t2 \<and>
    \<not> lfs_exists lfs fs' PATH_BS_CERT \<and> \<not> lfs_exists lfs fs' PATH_BS_KEY \<and>
    lfs_read_string lfs fs' PATH_CA_CERT = lfs_read_string lfs fs PATH_CA_CERT"
proof -
  let ?leaf = "pem_block ''CERTIFICATE'' (cert_der f2)"
  have k: "length priv2 = 32" "length pub2 = 64" using assms(8) by (auto simp: csr_of_def)
  have leaf: "plain_text ?leaf" "?leaf \<noteq> []" "plain_text chain2"
    using plain_pem_block [of "''CERTIFICATE''"] assms(10) by (simp_all add: plain_text_def sign_answers_def) (simp add: pem_block_def)
  have o: "obtain_first cfg lfs fs env = Done (Inr (pub2, priv2, ?leaf, chain2, t2))"
    by (rule obtain_first_ok) (use assms in \<open>simp_all add: PROV_BOOTSTRAP_def PROV_RENEWAL_def\<close>)
  obtain fs1 where fs1: "save_device_assets lfs fs ?leaf chain2 priv2 pub2 t2 = Some (Inr (), fs1)"
      "lfs_read_string lfs fs1 = committed (new_files (lfs_read_string lfs fs) ?leaf chain2 priv2 pub2) t2"
    using save_device_assets_view [OF assms(1,2) k, of ?leaf chain2 fs t2] leaf by (auto simp: plain_text_def)
  let ?fs = "lfs_remove lfs (lfs_remove lfs fs1 PATH_BS_CERT) PATH_BS_KEY"
  have v: "lfs_read_string lfs ?fs = (lfs_read_string lfs fs1)(PATH_BS_CERT := None, PATH_BS_KEY := None)"
    using lfs_read_remove [OF assms(1)] by simp
  have "device_files lfs ?fs priv2 ?leaf chain2 t2"
    by (rule committed_device_files [OF assms(1) k]) (simp add: v fs1(2) path_ne)
  moreover have "provision_cert cfg lfs env False fs = Done (Inr (), ?fs)" using o fs1(1) by (simp add: provision_cert_def)
  moreover have "\<not> lfs_exists lfs ?fs PATH_BS_CERT" "\<not> lfs_exists lfs ?fs PATH_BS_KEY"
      "lfs_read_string lfs ?fs PATH_CA_CERT = lfs_read_string lfs fs PATH_CA_CERT"
    by (simp_all add: lfs_exists_iff [OF assms(1)] v path_ne fs1(2) committed_def new_files_def)
  ultimately show ?thesis by blast
qed


definition demo_bs_fs :: "path \<rightharpoonup> string" where
  "demo_bs_fs = [PATH_CA_CERT \<mapsto> ''ca'', PATH_BS_CERT \<mapsto> pem_block ''CERTIFICATE'' [0x30, 0x00],
     PATH_BS_KEY \<mapsto> key_pem (replicate 32 9) (replicate 64 1)]"

lemma demo_bs_assets: "bootstrap_assets map_lfs demo_bs_fs [0x30, 0x00] (replicate 32 9)"
proof -
  have r: "read_file map_lfs demo_bs_fs PATH_CA_CERT = ''ca''" "read_file map_lfs demo_bs_fs PATH_BS_CERT = pem_block ''CERTIFICATE'' [0x30, 0x00]"
      "read_file map_lfs demo_bs_fs PATH_BS_KEY = key_pem (replicate 32 9) (replicate 64 1)"
    by (simp_all add: read_file_def map_lfs_def demo_bs_fs_def path_ne)
  have k: "ec_priv_from_der (pem_to_der (key_pem (replicate 32 9) (replicate 64 1)) 200) = Some (replicate 32 9)"
      "key_pem (replicate 32 9) (replicate 64 1) \<noteq> []"
    by (rule key_pem_reads_back; simp)+
  moreover have "ec_priv_from_der [] = None" by (simp add: ec_priv_from_der.simps)
  ultimately have "pem_to_der (key_pem (replicate 32 9) (replicate 64 1)) 200 \<noteq> []" by auto
  moreover have "pem_to_der (pem_block ''CERTIFICATE'' [0x30, 0x00]) 600 = [0x30, 0x00]"
    using pem_to_der_block_gen [of "''CERTIFICATE''" "[0x30, 0x00]" 600] by simp
  ultimately show ?thesis using k by (simp add: bootstrap_assets_def r pem_block_def)
qed

lemma demo_cert_short: "length (cert_der demo_cert) \<le> 597"
  by (simp add: cert_der_def asn1_seq_tlv tlv_length asn1_len_length cert_tbs_def cert_tail_def
      cert_validity_def demo_cert_def len_simps)

theorem bootstrap_end_to_end_witness:
  "\<exists>fs'. provision_cert config_example map_lfs demo_prov False demo_bs_fs = Done (Inr (), fs') \<and>
     \<not> lfs_exists map_lfs fs' PATH_BS_KEY"
proof -
  obtain n csr where c: "cn_text config_example (pe_mac demo_prov) = Some n"
      "build_csr (pe_crypto demo_prov) 800 (snprintf_str 32 n) (replicate 64 7) (replicate 32 5) = Some csr" "csr \<noteq> []"
    using demo_prov_csr by blast
  have csr: "csr_of config_example demo_prov k (replicate 64 7) (replicate 32 5) csr" for k
    using c by (simp add: csr_of_def demo_prov_def)
  have ans: "sign_answers config_example map_lfs demo_bs_fs demo_prov k prov cert priv csr demo_cert ''inter''" for k prov cert priv
    using demo_ca_answers demo_cert_length by (simp add: sign_answers_def demo_prov_def plain_text_def demo_leaf_def)
  have e: "expires_at demo_cert 1767225600" by (simp add: expires_at_def demo_cert_def time_field_def)
  have "crypto_ok (pe_crypto demo_prov)" "\<forall>d h. uECC_sign (pe_crypto demo_prov) d h \<noteq> None"
      "\<not> LIFETIME_MODE_TEST_EXPLICIT config_example"
    by (simp_all add: demo_prov_def demo_env0_def crypto_ok_def demo_sign_def config_example_def)
  then show ?thesis
    using bootstrap_end_to_end [OF map_lfs_ok map_lfs_writable _ _ _ demo_bs_assets csr csr ans ans e e demo_cert_short] by blast
qed

section \<open>A full medium\<close>

text \<open>A file system map whose medium takes only the first \<open>n\<close> characters of the new certificate.\<close>

definition cut_lfs :: "nat \<Rightarrow> (path \<rightharpoonup> string) littlefs" where
  "cut_lfs n = map_lfs\<lparr>
     lfs_write_file := (\<lambda>fs p cs. fs(p \<mapsto> take (if p = NEW_CERT then n else length (concat cs)) (concat cs))),
     lfs_room := (\<lambda>fs p cs. if p = NEW_CERT then n else length (concat cs)) \<rparr>"

lemma cut_lfs_ok: "littlefs_ok (cut_lfs n)"
  by (auto simp: littlefs_ok_def cut_lfs_def map_lfs_def)

text \<open>Only an empty new file stops the installation: a certificate that was cut short while it was written
  replaces the old one, and the run reports success.\<close>

lemma short_write_installed:
  assumes "0 < n" "leaf \<noteq> []" "length priv = 32" "length pub = 64"
  shows "\<exists>fs'. save_device_assets (cut_lfs n) fs leaf chain priv pub t = Some (Inr (), fs') \<and> fs' PATH_DEV_CERT = Some (take n leaf)"
proof -
  obtain der where d: "build_ec_priv_der 200 priv pub = Some der" "length der \<le> 200" using key_der [OF assms(3,4)] by blast
  have c: "lfs_can_write (cut_lfs n) fs p" "lfs_read_string (cut_lfs n) fs = fs" for fs p by (simp_all add: cut_lfs_def map_lfs_def)
  have w: "lfs_write_file (cut_lfs n) fs NEW_CERT [leaf] = fs(NEW_CERT \<mapsto> take n leaf)"
    "p \<noteq> NEW_CERT \<Longrightarrow> lfs_write_file (cut_lfs n) fs p cs = fs(p \<mapsto> concat cs)" for fs p cs
    by (simp_all add: cut_lfs_def)
  have "put_buf 1024 (base64_encode der @ [NUL]) = Some (base64_encode der @ [NUL])" using d(2) by (simp add: put_buf_def len_simps)
  then obtain m where m: "write_new_files (cut_lfs n) fs leaf chain priv pub = Some m" "m NEW_CERT = Some (take n leaf)" "m NEW_CHAIN \<noteq> None"
      "m NEW_KEY \<noteq> None" "m NEW_KEY \<noteq> Some []"
    by (simp add: write_new_files_def d(1) print_file_def save_pem_def c w path_ne pem_begin_def)
  have "fs_apply (cut_lfs n) fs op = fs_apply map_lfs fs op" for fs op
    by (cases op) (simp_all add: cut_lfs_def map_lfs_def save_exp_def path_ne)
  then have "foldl (fs_apply (cut_lfs n)) m (commit_ops t) = committed m t"
    using commit_map [of m t] m(2-4) by (metis (no_types, lifting) ext option.distinct(1))
  moreover have "read_file (cut_lfs n) m NEW_CERT \<noteq> []" "read_file (cut_lfs n) m NEW_KEY \<noteq> []"
    using m assms(1,2) by (auto simp: read_file_def c split: option.splits)
  ultimately show ?thesis using m(1,2) by (simp add: save_device_assets_def committed_def path_ne)
qed

section \<open>Freedom from undefined behaviour\<close>

text \<open>
  What a provisioning run relies on: signatures and keys of the documented sizes, six bytes of MAC address,
  a clock before 2038, and an authority whose certificates have plausible dates before 2038
  (\<open>leaf_date_ok\<close>: with a later year the parser's 32-bit arithmetic overflows, and a day or month out of
  range is read from outside a table). Everything else of the answers is arbitrary.
\<close>

definition answer_of :: "(http_req \<Rightarrow> https_env) \<Rightarrow> string \<Rightarrow> bool" where
  "answer_of server body \<longleftrightarrow> (\<exists>rq status. read_response (he_events (server rq)) = Some (Inr (status, body)))"

definition prov_ok :: "prov_env \<Rightarrow> bool" where
  "prov_ok env \<longleftrightarrow> crypto_ok (pe_crypto env) \<and> 6 \<le> length (pe_mac env) \<and>
     (\<forall>k pub priv. pe_make_key env k = Some (pub, priv) \<longrightarrow> length pub = 64 \<and> length priv = 32) \<and>
     (\<forall>k. 0 \<le> pe_now env k \<and> pe_now env k < 2 ^ 31 - CERT_LIFETIME_TEST_SEC) \<and>
     (\<forall>k body. answer_of (pe_server env k) body \<longrightarrow> leaf_date_ok (json_extract body ''crt''))"

text \<open>The first issuance also needs the two signer certificates to fit the token's buffers.\<close>

definition first_fits :: "'f littlefs \<Rightarrow> 'f \<Rightarrow> prov_env \<Rightarrow> bool" where
  "first_fits lfs fs env \<longleftrightarrow> length (pem_to_der (read_file lfs fs PATH_BS_CERT) 600) \<le> 597 \<and>
     (\<forall>body. answer_of (pe_server env 0) body \<longrightarrow> length (pem_to_der (json_extract body ''crt'') 600) \<le> 597)"

definition servers_close :: "prov_env \<Rightarrow> bool" where
  "servers_close env \<longleftrightarrow> (\<forall>k rq. Closed \<in> set (he_events (pe_server env k rq)))"

abbreviation ok_if :: "('a \<Rightarrow> bool) \<Rightarrow> 'e + 'a \<Rightarrow> bool" where
  "ok_if Q \<equiv> case_sum (\<lambda>_. True) Q"

lemma exec_ok_and_then:
  "exec_ok fin (ok_if Q) m \<Longrightarrow> (\<And>a. Q a \<Longrightarrow> exec_ok fin (ok_if R) (k a)) \<Longrightarrow> exec_ok fin (ok_if R) (and_then m k)"
  unfolding and_then_def by (erule exec_ok_then) (auto split: sum.splits)

lemma stepca_https_safe:
  assumes "\<And>rq. fin \<Longrightarrow> Closed \<in> set (he_events (server rq))"
  shows "exec_ok fin (ok_if (\<lambda>(status, body). answer_of server body)) (awaited (stepca_https cfg lfs fs server m p b client))"
proof (rule exec_ok_awaited)
  show "stepca_https cfg lfs fs server m p b client \<noteq> None" if fin
    using read_response_ends [OF assms [OF that]] by (simp add: stepca_https_def Let_def)
  show "ok_if (\<lambda>(status, body). answer_of server body) r" if "stepca_https cfg lfs fs server m p b client = Some r" for r
    using that by (auto simp: stepca_https_def Let_def answer_of_def split: if_splits sum.splits)
qed

lemma not_after_safe: "leaf_date_ok leaf \<Longrightarrow> exec_ok fin (ok_if (\<lambda>_. True)) (not_after_of leaf)"
  using parse_leaf_defined [of leaf] by (auto simp: not_after_of_def split: option.splits)

lemma leaf_safe:
  "answer_of server body \<Longrightarrow>
   exec_ok fin (ok_if (\<lambda>(leaf, chain). \<exists>body. answer_of server body \<and> leaf = json_extract body ''crt'')) (leaf_and_inter body)"
  by (auto simp: leaf_and_inter_def Let_def)

lemma status_safe:
  "(case r of (status, body) \<Rightarrow> answer_of server body) \<Longrightarrow> exec_ok fin (ok_if (answer_of server)) (check_status r)"
  by (auto simp: check_status_def)

lemma dated_safe:
  assumes "\<And>body. answer_of server body \<Longrightarrow> leaf_date_ok (json_extract body ''crt'')"
    "case p of (leaf, chain) \<Rightarrow> \<exists>body. answer_of server body \<and> leaf = json_extract body ''crt''"
  shows "exec_ok fin (ok_if (\<lambda>(leaf, chain, t). \<exists>body. answer_of server body \<and> leaf = json_extract body ''crt''))
    (case p of (leaf, chain) \<Rightarrow> and_then (not_after_of leaf) (\<lambda>t. Done (Inr (leaf, chain, t))))"
proof -
  obtain leaf chain where p: "p = (leaf, chain)" by (cases p)
  have "exec_ok fin (ok_if (\<lambda>_. True)) (not_after_of leaf)" using assms p by (intro not_after_safe) auto
  then show ?thesis unfolding p prod.case by (rule exec_ok_and_then) (use assms(2) p in auto)
qed

lemmas exchange_safe = exec_ok_and_then [OF stepca_https_safe exec_ok_and_then [OF status_safe exec_ok_and_then [OF leaf_safe]]]

lemma step_ca_rekey_safe:
  assumes "\<And>rq. fin \<Longrightarrow> Closed \<in> set (he_events (server rq))"
    "\<And>body. answer_of server body \<Longrightarrow> leaf_date_ok (json_extract body ''crt'')"
  shows "exec_ok fin (ok_if (\<lambda>(leaf, chain, t). \<exists>body. answer_of server body \<and> leaf = json_extract body ''crt''))
    (step_ca_rekey cfg lfs fs server csr dev key)"
  unfolding step_ca_rekey_def by (rule exchange_safe [OF assms(1)]) (assumption | rule dated_safe [OF assms(2)])+

lemma step_ca_sign_safe:
  assumes "\<And>rq. fin \<Longrightarrow> Closed \<in> set (he_events (server rq))"
    "\<And>body. answer_of server body \<Longrightarrow> leaf_date_ok (json_extract body ''crt'')"
    "LIFETIME_MODE_TEST_EXPLICIT cfg \<longrightarrow> 0 \<le> sign_expires now sna \<and> sign_expires now sna < 2 ^ 31"
  shows "exec_ok fin (ok_if (\<lambda>(leaf, chain, t). (\<exists>body. answer_of server body \<and> leaf = json_extract body ''crt'') \<and>
      (LIFETIME_MODE_TEST_EXPLICIT cfg \<longrightarrow> t = sign_expires now sna)))
    (step_ca_sign cfg lfs fs server now csr jwt sna)"
proof -
  let ?Q = "\<lambda>(leaf, chain, t). (\<exists>body. answer_of server body \<and> leaf = json_extract body ''crt'') \<and>
      (LIFETIME_MODE_TEST_EXPLICIT cfg \<longrightarrow> t = sign_expires now sna)"
  have ts: "exec_ok fin (\<lambda>_. True) (if LIFETIME_MODE_TEST_EXPLICIT cfg then checked (stepca_to_rfc3339_utc (sign_expires now sna) 32) else Done [])"
    using assms(3) rfc3339_length [of "sign_expires now sna"] by (auto simp: stepca_to_rfc3339_utc_def Let_def)
  have tail: "exec_ok fin (ok_if ?Q)
      (case p of (leaf, chain) \<Rightarrow> if LIFETIME_MODE_TEST_EXPLICIT cfg then Done (Inr (leaf, chain, sign_expires now sna))
         else and_then (not_after_of leaf) (\<lambda>t. Done (Inr (leaf, chain, t))))"
    if "case p of (leaf, chain) \<Rightarrow> \<exists>body. answer_of server body \<and> leaf = json_extract body ''crt''" for p
  proof (cases "LIFETIME_MODE_TEST_EXPLICIT cfg")
    case False
    have "exec_ok fin (ok_if ?Q) (case p of (leaf, chain) \<Rightarrow> and_then (not_after_of leaf) (\<lambda>t. Done (Inr (leaf, chain, t))))"
      by (rule exec_ok_mono [OF dated_safe [OF assms(2) that]]) (use False in \<open>auto split: sum.splits\<close>)
    then show ?thesis using False by simp
  qed (use that in \<open>auto split: prod.splits\<close>)
  show ?thesis
    unfolding step_ca_sign_def Let_def
    by (rule exec_ok_then [OF ts], rule exchange_safe [OF assms(1)]) (assumption | rule tail)+
qed

lemma gen_keypair_safe:
  assumes "prov_ok env"
  shows "exec_ok fin (ok_if (\<lambda>(pub, priv, cn, csr). length pub = 64 \<and> length priv = 32 \<and> length cn \<le> 31)) (gen_keypair_and_csr cfg env k)"
proof (cases "pe_make_key env k")
  case (Some kp)
  obtain pub priv where kp: "kp = (pub, priv)" by (cases kp)
  have l: "length pub = 64" "length priv = 32" using assms Some kp by (auto simp: prov_ok_def)
  obtain n where n: "cn_text cfg (pe_mac env) = Some n" using assms cn_text_ok [of "pe_mac env" cfg] by (auto simp: prov_ok_def)
  have cn: "length (snprintf_str 32 n) \<le> 31" using snprintf_str_length [of 32 n] by simp
  have "crypto_ok (pe_crypto env)" using assms by (simp add: prov_ok_def)
  then obtain csr where "build_csr (pe_crypto env) 800 (snprintf_str 32 n) pub priv = Some csr"
    using build_csr_defined [OF _ cn l(1)] by blast
  moreover from this have "length csr \<le> 800" by (rule build_csr_max)
  ultimately show ?thesis
    using Some kp l n cn by (auto simp: gen_keypair_and_csr_def der_to_pem_string_block Let_def)
qed (simp add: gen_keypair_and_csr_def)

lemma x5c_token_safe:
  assumes "prov_ok env" "length cert \<le> 597" "length cn \<le> 31" "length prov \<le> 16"
  shows "exec_ok fin (ok_if (\<lambda>_. True)) (x5c_token env k cn prov cert priv)"
  using build_x5c_jwt_fits [OF assms(2-4)] assms(1)
  by (auto simp: x5c_token_def prov_ok_def crypto_ok_def split: option.splits)

lemma prov_servers:
  assumes "prov_ok env" "fin \<longrightarrow> servers_close env"
  shows "fin \<Longrightarrow> Closed \<in> set (he_events (pe_server env k rq))"
    "answer_of (pe_server env k) body \<Longrightarrow> leaf_date_ok (json_extract body ''crt'')"
  using assms by (auto simp: prov_ok_def servers_close_def)

lemma obtain_renewed_safe:
  assumes "prov_ok env" "fin \<longrightarrow> servers_close env"
  shows "exec_ok fin (ok_if (\<lambda>(pub, priv, leaf, chain, t). length pub = 64 \<and> length priv = 32)) (obtain_renewed cfg lfs fs env)"
proof -
  note rekey = step_ca_rekey_safe [OF prov_servers [OF assms]]
  show ?thesis
    unfolding obtain_renewed_def
    by (rule exec_ok_and_then [OF gen_keypair_safe [OF assms(1)]])
      (auto simp: Let_def split: prod.splits intro!: exec_ok_and_then [OF rekey])
qed

lemma sign_with_bootstrap_safe:
  assumes "prov_ok env" "fin \<longrightarrow> servers_close env" "first_fits lfs fs env" "length cn \<le> 31"
  shows "exec_ok fin (ok_if (\<lambda>(leaf, t). length (pem_to_der leaf 600) \<le> 597 \<and>
      (LIFETIME_MODE_TEST_EXPLICIT cfg \<longrightarrow> t = pe_now env 0 + CERT_LIFETIME_TEST_SEC))) (sign_with_bootstrap cfg lfs fs env cn csr)"
proof -
  have "LIFETIME_MODE_TEST_EXPLICIT cfg \<longrightarrow> 0 \<le> sign_expires (pe_now env 0) 0 \<and> sign_expires (pe_now env 0) 0 < 2 ^ 31"
    using assms(1) by (auto simp: prov_ok_def sign_expires_def CERT_LIFETIME_TEST_SEC_def)
  note sign = step_ca_sign_safe [OF prov_servers [OF assms(1,2)] this]
  have "length (pem_to_der (read_file lfs fs PATH_BS_CERT) 600) \<le> 597" using assms(3) by (simp add: first_fits_def)
  note tok = x5c_token_safe [OF assms(1) this assms(4) prov_lengths(1)]
  show ?thesis
    unfolding sign_with_bootstrap_def Let_def
    by (auto split: option.splits prod.splits intro!: exec_ok_and_then [OF tok] exec_ok_and_then [OF sign])
      (use assms(3) in \<open>auto simp: first_fits_def sign_expires_def\<close>)
qed

lemma sign_with_first_cert_safe:
  assumes "prov_ok env" "fin \<longrightarrow> servers_close env" "length cn \<le> 31" "length (pem_to_der leaf 600) \<le> 597"
    "LIFETIME_MODE_TEST_EXPLICIT cfg \<longrightarrow> t = pe_now env 0 + CERT_LIFETIME_TEST_SEC"
  shows "exec_ok fin (ok_if (\<lambda>_. True)) (sign_with_first_cert cfg lfs fs env cn leaf priv t csr)"
proof -
  have "0 \<le> pe_now env k \<and> pe_now env k < 2 ^ 31 - 600" for k using assms(1) by (simp add: prov_ok_def CERT_LIFETIME_TEST_SEC_def)
  from this [of 0] this [of 1]
  have "LIFETIME_MODE_TEST_EXPLICIT cfg \<longrightarrow> 0 \<le> sign_expires (pe_now env 1) t \<and> sign_expires (pe_now env 1) t < 2 ^ 31"
    using assms(5) by (auto simp: sign_expires_def CERT_LIFETIME_TEST_SEC_def Let_def)
  note sign = step_ca_sign_safe [OF prov_servers [OF assms(1,2)] this]
  note tok = x5c_token_safe [OF assms(1,4,3) prov_lengths(2)]
  have "exec_ok fin (ok_if (\<lambda>_. True)) (and_then (x5c_token env 1 cn PROV_RENEWAL (pem_to_der leaf 600) priv) (\<lambda>jwt.
      step_ca_sign cfg lfs fs (pe_server env 1) (pe_now env 1) csr jwt t))"
    by (rule exec_ok_and_then [OF tok], rule exec_ok_mono [OF sign]) (auto split: sum.splits)
  then show ?thesis by (auto simp: sign_with_first_cert_def Let_def)
qed

lemma save_device_assets_defined:
  "length priv = 32 \<Longrightarrow> length pub = 64 \<Longrightarrow> save_device_assets lfs fs leaf chain priv pub t \<noteq> None"
proof -
  assume "length priv = 32" "length pub = 64"
  then obtain der where d: "build_ec_priv_der 200 priv pub = Some der" "length der \<le> 200" using key_der by blast
  have "put_buf 1024 (base64_encode der @ [NUL]) \<noteq> None" using d(2) by (simp add: put_buf_def len_simps)
  then show ?thesis
    using d(1) by (auto simp: save_device_assets_def write_new_files_def save_pem_def Let_def split: Option.bind_splits)
qed

lemma save_device_assets_safe:
  "length priv = 32 \<Longrightarrow> length pub = 64 \<Longrightarrow> exec_ok fin (\<lambda>_. True) (checked (save_device_assets lfs fs leaf chain priv pub t))"
  using save_device_assets_defined by (intro exec_ok_checked) simp

lemma provision_cert_safe:
  assumes "prov_ok env" "fin \<longrightarrow> servers_close env" "renew_mode \<or> first_fits lfs fs env"
  shows "exec_ok fin (\<lambda>_. True) (provision_cert cfg lfs env renew_mode fs)"
proof -
  have "exec_ok fin (ok_if (\<lambda>(pub, priv, leaf, chain, t). length pub = 64 \<and> length priv = 32)) (obtain_first cfg lfs fs env)"
    if "first_fits lfs fs env"
    unfolding obtain_first_def
    by (rule exec_ok_and_then [OF gen_keypair_safe [OF assms(1)]])
      (auto intro!: exec_ok_and_then [OF sign_with_bootstrap_safe [OF assms(1,2) that]]
        exec_ok_and_then [OF gen_keypair_safe [OF assms(1)]] exec_ok_and_then [OF sign_with_first_cert_safe [OF assms(1,2)]])
  then have "exec_ok fin (ok_if (\<lambda>(pub, priv, leaf, chain, t). length pub = 64 \<and> length priv = 32))
      (if renew_mode then obtain_renewed cfg lfs fs env else obtain_first cfg lfs fs env)"
    using assms(3) obtain_renewed_safe [OF assms(1,2), of cfg lfs fs] by auto
  then show ?thesis
    unfolding provision_cert_def
    by (rule exec_ok_then) (auto split: sum.splits intro!: exec_ok_then [OF save_device_assets_safe])
qed

lemma demo_read: "read_response (he_events demo_ca) = Some (Inr (201, ca_answer demo_leaf ''inter'' ''}''))"
proof -
  have "carries (he_events demo_ca) (''HTTP/1.1 '' @ fmt_u 201 @ '' Created'' @ CRLF @ header_lines [] @ ca_answer demo_leaf ''inter'' ''}'') [Closed]"
    unfolding demo_ca_def by (simp only: https_env.select_convs) (rule carries_exact, simp)
  from read_response_answer [OF this] show ?thesis by (simp add: headers_length_def)
qed

lemma demo_answer_of: "answer_of (pe_server demo_prov k) body \<Longrightarrow> json_extract body ''crt'' = demo_leaf"
proof -
  assume "answer_of (pe_server demo_prov k) body"
  then have b: "body = ca_answer demo_leaf ''inter'' ''}''" using demo_read by (auto simp: answer_of_def demo_prov_def)
  have p: "plain_text demo_leaf" unfolding demo_leaf_def by (rule plain_pem_block) (simp add: plain_text_def)
  then have "filter (\<lambda>c. c \<noteq> CR) demo_leaf = demo_leaf" by (auto simp: plain_text_def filter_id_conv)
  then show ?thesis using ca_answer_extract(1) [of demo_leaf "''inter''" "''}''"] p by (simp add: b plain_text_def)
qed

lemma demo_prov_ok: "prov_ok demo_prov"
proof -
  have "leaf_date_ok demo_leaf"
    unfolding demo_leaf_def using demo_cert_length by (intro leaf_date_pem [of 1767225600]) (simp_all add: time_field_def demo_cert_def)
  then show ?thesis
    using demo_answer_of by (simp add: prov_ok_def) (simp add: demo_prov_def demo_env0_def crypto_ok_def demo_sign_def CERT_LIFETIME_TEST_SEC_def)
qed

lemma demo_servers_close: "servers_close demo_prov"
  by (simp add: servers_close_def demo_prov_def demo_ca_def)

lemma demo_first_fits: "read_file lfs fs PATH_BS_CERT = [] \<Longrightarrow> first_fits lfs fs demo_prov"
proof -
  have "pem_to_der demo_leaf 600 = cert_der demo_cert"
    using pem_to_der_block_gen [of "''CERTIFICATE''" "cert_der demo_cert" 600] demo_cert_short by (simp add: demo_leaf_def)
  moreover have "pem_to_der [] 600 = []" by code_simp
  ultimately show "read_file lfs fs PATH_BS_CERT = [] \<Longrightarrow> ?thesis"
    using demo_answer_of [of 0] demo_cert_short by (auto simp: first_fits_def)
qed

end
