(* ===== verification/Sensor.thy ===== *)
theory Sensor
  imports Crypto_Pki
begin

text \<open>
  The occupancy sensor, \<open>sensor.cpp\<close>: the line buffer fed one character at a time from the serial
  port, the \<open>$DFHPD\<close> frame parser, the provisioning commands and the MQTT payload. The static
  variables of the file are the record \<open>sensor\<close>; its last field collects, in order, what the
  functions write to the two serial ports. Characters that arrive and clock readings are inputs.
\<close>

section \<open>State\<close>

datatype sensor_io =
    SensorBegin nat
  | SensorEnd
  | ToSensor string
  | ToConsole string
  | EventChanged int
  | SensorResponse string

record sensor =
  currentOccupancy :: int
  rx_buffer :: "char list"
  rx_index :: nat
  sio :: "sensor_io list"

definition RX_BUF_SIZE :: nat where "RX_BUF_SIZE = 64"

definition sensor_init :: sensor where
  "sensor_init = \<lparr> currentOccupancy = 0, rx_buffer = replicate RX_BUF_SIZE NUL, rx_index = 0, sio = [] \<rparr>"

definition emit :: "sensor_io \<Rightarrow> sensor \<Rightarrow> sensor" where
  "emit e s = s\<lparr>sio := sio s @ [e]\<rparr>"

section \<open>Operations\<close>

definition setup_sensor :: "sensor \<Rightarrow> sensor" where
  "setup_sensor s = emit (SensorBegin 9600) s"

definition sensor_release :: "sensor \<Rightarrow> sensor" where
  "sensor_release s = emit SensorEnd s"

text \<open>
  The wait loop: each sample is the value of \<open>millis()\<close> and the characters then available.
\<close>

definition send_sensor_cmd :: "string \<Rightarrow> u32 \<Rightarrow> u32 \<Rightarrow> (u32 \<times> string) list \<Rightarrow> sensor \<Rightarrow> sensor option" where
  "send_sensor_cmd cmd wait_ms t0 samples s = do {
     let s = emit (ToSensor cmd) s;
     let s = emit (ToSensor [CR, LF]) s;
     (body, rest) \<leftarrow> poll_while (\<lambda>(t, avail). t - t0 < wait_ms) samples;
     Some (emit (ToConsole (concat (map snd body))) s)
   }"

definition provision_cmds :: "config \<Rightarrow> (string \<times> u32) list" where
  "provision_cmds cfg =
     [(''sensorStop'', 1200),
      (''setSensitivity '' @ SENSOR_KEEP_SENS cfg @ '' '' @ SENSOR_TRIG_SENS cfg, 300),
      (''setLatency '' @ SENSOR_LATENCY_ON cfg @ '' '' @ SENSOR_LATENCY_OFF cfg, 300),
      (''setRange '' @ SENSOR_RANGE_MIN cfg @ '' '' @ SENSOR_RANGE_MAX cfg, 300),
      (''setTrigRange '' @ SENSOR_TRIG_RANGE cfg, 300),
      (''saveConfig'', 500),
      (''sensorStart'', 300)]"

text \<open>\<open>env i\<close> is the clock at the start of the \<open>i\<close>-th command and the samples of its wait loop.\<close>

fun send_all :: "(nat \<Rightarrow> u32 \<times> (u32 \<times> string) list) \<Rightarrow> nat \<Rightarrow> (string \<times> u32) list \<Rightarrow> sensor \<Rightarrow> sensor option" where
  "send_all env i [] s = Some s"
| "send_all env i ((cmd, w) # cmds) s = do {
     s \<leftarrow> send_sensor_cmd cmd w (fst (env i)) (snd (env i)) s;
     send_all env (Suc i) cmds s
   }"

definition provision_sensor ::
    "config \<Rightarrow> (nat \<Rightarrow> u32 \<times> (u32 \<times> string) list) \<Rightarrow> sensor \<Rightarrow> sensor option" where
  "provision_sensor cfg env s = send_all env 0 (provision_cmds cfg) s"

text \<open>The loop between the two commas; \<open>-1\<close> when neither digit occurs.\<close>

fun scan_flag :: "string \<Rightarrow> int" where
  "scan_flag [] = -1"
| "scan_flag (c # cs) = (if c = CHR ''1'' then 1 else if c = CHR ''0'' then 0 else scan_flag cs)"

definition parseSensorString :: "string \<Rightarrow> sensor \<Rightarrow> sensor" where
  "parseSensorString data s =
     (case strchr data (CHR '','') of
        None \<Rightarrow> s
      | Some firstComma \<Rightarrow>
          (case strchr (tl firstComma) (CHR '','') of
             None \<Rightarrow> s
           | Some secondComma \<Rightarrow>
               let newOccupancy = scan_flag (take (length (tl firstComma) - length secondComma) (tl firstComma)) in
               if newOccupancy \<noteq> -1 \<and> newOccupancy \<noteq> currentOccupancy s
               then emit (EventChanged newOccupancy) (s\<lparr>currentOccupancy := newOccupancy\<rparr>)
               else s))"

text \<open>The body of the receive loop for one character.\<close>

definition rx_char :: "sensor \<Rightarrow> char \<Rightarrow> sensor option" where
  "rx_char s c =
     (if c = LF then do {
        buf \<leftarrow> wr (rx_buffer s) (rx_index s) NUL;
        last \<leftarrow> (if rx_index s > 0 then rd buf (rx_index s - 1) else Some NUL);
        buf \<leftarrow> (if rx_index s > 0 \<and> last = CR then wr buf (rx_index s - 1) NUL else Some buf);
        first \<leftarrow> rd buf 0;
        let s = s\<lparr>rx_buffer := buf\<rparr>;
        let s = (if strncmp_eq (cstr buf) ''$DFHPD'' 6 then parseSensorString (cstr buf) s
                 else if rx_index s > 0 \<and> first \<noteq> CHR ''$'' then emit (SensorResponse (cstr buf)) s
                 else s);
        Some (s\<lparr>rx_index := 0\<rparr>)
      } else if rx_index s < RX_BUF_SIZE - 1 then do {
        buf \<leftarrow> wr (rx_buffer s) (rx_index s) c;
        Some (s\<lparr>rx_buffer := buf, rx_index := rx_index s + 1\<rparr>)
      } else Some s)"

text \<open>\<open>console\<close> is the character typed on the PC, if any; \<open>rx\<close> the characters the sensor port
  has available until its loop ends.\<close>

definition update_sensor :: "char option \<Rightarrow> string \<Rightarrow> sensor \<Rightarrow> sensor option" where
  "update_sensor console rx s =
     (let s = (case console of None \<Rightarrow> s | Some c \<Rightarrow> emit (ToSensor [c]) s)
      in run_steps rx_char s rx)"

definition read_occupancy :: "sensor \<Rightarrow> int" where
  "read_occupancy s = currentOccupancy s"

text \<open>\<open>strftime\<close> leaves the array indeterminate when the text does not fit.\<close>

definition to_rfc3339_utc :: "int \<Rightarrow> nat \<Rightarrow> string option" where
  "to_rfc3339_utc t out_size =
     (let s = strftime_rfc3339 (gmtime t) in if length s < out_size then Some s else None)"

definition payload_text :: "int \<Rightarrow> string \<Rightarrow> string \<Rightarrow> int \<Rightarrow> string" where
  "payload_text occupancy ts bssid rssi =
     ''{'' @ jfield ''occupied'' (if occupancy \<noteq> 0 then ''true'' else ''false'') @ '','' @
     jfield ''timestamp'' (jstr ts) @ '','' @ jfield ''bssid'' (jstr bssid) @ '','' @
     jfield ''rssi'' (fmt_d rssi) @ ''}''"

text \<open>The result is the C string in \<open>out\<close> and the returned length.\<close>

definition build_sensor_payload :: "nat \<Rightarrow> int \<Rightarrow> string \<Rightarrow> int \<Rightarrow> sensor \<Rightarrow> (string \<times> nat) option" where
  "build_sensor_payload out_size now bssid rssi s = do {
     ts \<leftarrow> to_rfc3339_utc now 32;
     let txt = payload_text (read_occupancy s) ts bssid rssi;
     Some (snprintf_str out_size txt, length txt)
   }"

section \<open>Specification of the line protocol\<close>

text \<open>
  What the sensor's text protocol means, without buffers: the second comma-separated field of a
  line that starts with \<open>$DFHPD\<close> carries the occupancy as its first character 0 or 1, provided a
  third field follows.
\<close>

definition frame_field :: "string \<Rightarrow> string option" where
  "frame_field line =
     (let r = tl (dropWhile (\<lambda>c. c \<noteq> CHR '','') line)
      in if CHR '','' \<in> set line \<and> CHR '','' \<in> set r then Some (takeWhile (\<lambda>c. c \<noteq> CHR '','') r) else None)"

definition frame_occupancy :: "string \<Rightarrow> int option" where
  "frame_occupancy line =
     (if take 6 line = ''$DFHPD'' then do {
        f \<leftarrow> frame_field line;
        c \<leftarrow> List.find (\<lambda>c. c = CHR ''0'' \<or> c = CHR ''1'') f;
        Some (if c = CHR ''1'' then 1 else 0)
      } else None)"

definition line_effect :: "int \<Rightarrow> string \<Rightarrow> int" where
  "line_effect occ line = (case frame_occupancy line of None \<Rightarrow> occ | Some v \<Rightarrow> v)"

text \<open>A received line is cut to 63 characters, loses one trailing CR and ends at a NUL.\<close>

definition strip_cr :: "string \<Rightarrow> string" where
  "strip_cr l = (if l \<noteq> [] \<and> last l = CR then butlast l else l)"

definition clean_line :: "string \<Rightarrow> string" where
  "clean_line l = cstr (strip_cr (take 63 l))"

fun full_lines :: "string \<Rightarrow> string \<Rightarrow> string list" where
  "full_lines acc [] = []"
| "full_lines acc (c # cs) = (if c = LF then acc # full_lines [] cs else full_lines (acc @ [c]) cs)"

text \<open>The abstract machine: the characters of the current line and the occupancy.\<close>

definition line_step :: "string \<times> int \<Rightarrow> char \<Rightarrow> string \<times> int" where
  "line_step st c =
     (if c = LF then ([], line_effect (snd st) (cstr (strip_cr (fst st))))
      else if length (fst st) < 63 then (fst st @ [c], snd st) else st)"

definition sensor_inv :: "sensor \<Rightarrow> bool" where
  "sensor_inv s \<longleftrightarrow> length (rx_buffer s) = RX_BUF_SIZE \<and> rx_index s < RX_BUF_SIZE \<and> currentOccupancy s \<in> {0, 1}"

definition sensor_abs :: "sensor \<Rightarrow> string \<times> int" where
  "sensor_abs s = (take (rx_index s) (rx_buffer s), currentOccupancy s)"

section \<open>Lemmas\<close>

lemma emit_fields [simp]:
  "currentOccupancy (emit e s) = currentOccupancy s" "rx_buffer (emit e s) = rx_buffer s"
  "rx_index (emit e s) = rx_index s" "sio (emit e s) = sio s @ [e]"
  by (simp_all add: emit_def)

lemma strchr_dropWhile:
  "strchr xs c = (if c \<in> set xs then Some (dropWhile (\<lambda>x. x \<noteq> c) xs) else None)"
  by (induction xs) auto

lemma take_before_dropWhile: "take (length xs - length (dropWhile P xs)) xs = takeWhile P xs"
  by (metis append_eq_conv_conj length_append add_diff_cancel_right' takeWhile_dropWhile_id)

lemma scan_flag_find:
  "scan_flag f = (case List.find (\<lambda>c. c = CHR ''0'' \<or> c = CHR ''1'') f of
     None \<Rightarrow> -1 | Some c \<Rightarrow> if c = CHR ''1'' then 1 else 0)"
  by (induction f) auto

lemma parseSensorString_frame:
  "take 6 data = ''$DFHPD'' \<Longrightarrow> currentOccupancy (parseSensorString data s) = line_effect (currentOccupancy s) data"
proof -
  assume h: "take 6 data = ''$DFHPD''"
  let ?r = "tl (dropWhile (\<lambda>c. c \<noteq> CHR '','') data)"
  show ?thesis
  proof (cases "CHR '','' \<in> set data \<and> CHR '','' \<in> set ?r")
    case True
    let ?f = "takeWhile (\<lambda>c. c \<noteq> CHR '','') ?r"
    have "take (length ?r - length (dropWhile (\<lambda>c. c \<noteq> CHR '','') ?r)) ?r = ?f" by (rule take_before_dropWhile)
    then have p: "parseSensorString data s = (let n = scan_flag ?f in
        if n \<noteq> -1 \<and> n \<noteq> currentOccupancy s then emit (EventChanged n) (s\<lparr>currentOccupancy := n\<rparr>) else s)"
      using True by (simp add: parseSensorString_def strchr_dropWhile del: length_tl)
    show ?thesis
      using h True unfolding p line_effect_def frame_occupancy_def frame_field_def
      by (simp add: Let_def scan_flag_find split: option.splits)
  next
    case False
    with h show ?thesis
      by (auto simp: parseSensorString_def strchr_dropWhile line_effect_def frame_occupancy_def frame_field_def)
  qed
qed

lemma parseSensorString_frame_rule [simp]:
  "rx_buffer (parseSensorString d s) = rx_buffer s" "rx_index (parseSensorString d s) = rx_index s"
  by (simp_all add: parseSensorString_def Let_def split: option.splits)

lemma line_effect_range: "occ \<in> {0, 1} \<Longrightarrow> line_effect occ l \<in> {0, 1}"
  by (auto simp: line_effect_def frame_occupancy_def split: option.splits if_splits Option.bind_splits)

lemma cstr_stored: "i < length buf \<Longrightarrow> cstr (buf[i := NUL]) = cstr (take i buf)"
proof -
  have "takeWhile (\<lambda>c. c \<noteq> NUL) (xs @ NUL # ys) = takeWhile (\<lambda>c. c \<noteq> NUL) xs" for xs ys
    by (induction xs) auto
  then show "i < length buf \<Longrightarrow> ?thesis" by (simp add: cstr_def upd_conv_take_nth_drop)
qed

text \<open>The C string in the buffer after a line end is the stripped line.\<close>

lemma cstr_line:
  assumes "i < length buf"
  defines "b \<equiv> buf[i := NUL]"
  shows "cstr (if i > 0 \<and> b ! (i - 1) = CR then b[i - 1 := NUL] else b) = cstr (strip_cr (take i buf))"
proof (cases "i > 0 \<and> b ! (i - 1) = CR")
  case True
  then have *: "take i buf \<noteq> []" "take i buf \<noteq> [] \<longrightarrow> last (take i buf) = CR" "butlast (take i buf) = take (i - 1) buf"
    using assms(1) last_conv_nth [of "take i buf"] unfolding b_def
    by (auto simp: butlast_take min_def)
  have "cstr (b[i - 1 := NUL]) = cstr (take (i - 1) b)"
    using assms(1) unfolding b_def by (intro cstr_stored) simp
  also have "take (i - 1) b = take (i - 1) buf" unfolding b_def by simp
  finally show ?thesis using True * by (simp add: strip_cr_def)
next
  case False
  then have "strip_cr (take i buf) = take i buf"
    using assms(1) unfolding b_def by (auto simp: strip_cr_def last_conv_nth min_def split: if_splits)
  then show ?thesis using False cstr_stored [OF assms(1)] unfolding b_def by auto
qed

lemma rx_char_sim:
  assumes "sensor_inv s"
  shows "\<exists>s'. rx_char s c = Some s' \<and> sensor_inv s' \<and> sensor_abs s' = line_step (sensor_abs s) c"
proof (cases "c = LF")
  case True
  let ?b = "(rx_buffer s)[rx_index s := NUL]"
  let ?b' = "if rx_index s > 0 \<and> ?b ! (rx_index s - 1) = CR then ?b[rx_index s - 1 := NUL] else ?b"
  have len: "rx_index s < length (rx_buffer s)" "length (rx_buffer s) = 64" using assms by (auto simp: sensor_inv_def RX_BUF_SIZE_def)
  let ?s = "s\<lparr>rx_buffer := ?b'\<rparr>"
  let ?s' = "if strncmp_eq (cstr ?b') ''$DFHPD'' 6 then parseSensorString (cstr ?b') ?s
     else if rx_index s > 0 \<and> ?b' ! 0 \<noteq> CHR ''$'' then emit (SensorResponse (cstr ?b')) ?s else ?s"
  have run: "rx_char s c = Some (?s'\<lparr>rx_index := 0\<rparr>)"
    using len True by (simp add: rx_char_def mem_simps Let_def)
  have occ: "currentOccupancy ?s' = line_effect (currentOccupancy s) (cstr ?b')"
    by (auto simp: strncmp_eq_def parseSensorString_frame line_effect_def frame_occupancy_def)
  then have "sensor_inv (?s'\<lparr>rx_index := 0\<rparr>)"
    using assms line_effect_range [of "currentOccupancy s" "cstr ?b'"] by (auto simp: sensor_inv_def RX_BUF_SIZE_def)
  moreover have "sensor_abs (?s'\<lparr>rx_index := 0\<rparr>) = line_step (sensor_abs s) c"
    using True occ cstr_line [OF len(1)] by (simp add: sensor_abs_def line_step_def)
  ultimately show ?thesis using run by blast
next
  case False
  then show ?thesis
    using assms
    by (auto simp: rx_char_def sensor_inv_def sensor_abs_def line_step_def RX_BUF_SIZE_def mem_simps take_Suc_conv_app_nth)
qed

interpretation rx: step_refinement rx_char sensor_inv sensor_abs line_step
  by unfold_locales (rule rx_char_sim)

lemma line_steps_lines:
  "snd (foldl line_step (take 63 acc, occ) cs) = foldl line_effect occ (map clean_line (full_lines acc cs))"
proof (induction cs arbitrary: acc occ)
  case (Cons c cs)
  consider "c = LF" | "c \<noteq> LF" "length acc < 63" | "c \<noteq> LF" "63 \<le> length acc" by linarith
  then show ?case
  proof cases
    case 1
    then show ?thesis using Cons [of "[]"] by (simp add: line_step_def clean_line_def)
  next
    case 2
    then show ?thesis using Cons [of "acc @ [c]"] by (simp add: line_step_def)
  next
    case 3
    then show ?thesis using Cons [of "acc @ [c]"] by (simp add: line_step_def)
  qed
qed simp

lemma full_lines_concat: "\<forall>l\<in>set ls. LF \<notin> set l \<Longrightarrow> full_lines [] (concat (map (\<lambda>l. l @ [LF]) ls)) = ls"
proof -
  have one: "LF \<notin> set l \<Longrightarrow> full_lines acc (l @ LF # cs) = (acc @ l) # full_lines [] cs" for l acc cs
    by (induction l arbitrary: acc) auto
  then show "\<forall>l\<in>set ls. LF \<notin> set l \<Longrightarrow> ?thesis" by (induction ls) auto
qed


lemma run_lines:
  assumes "sensor_inv s" and "rx_index s = 0"
  shows "\<exists>s'. run_steps rx_char s rx = Some s' \<and> sensor_inv s' \<and>
    sensor_abs s' = foldl line_step ([], currentOccupancy s) rx \<and>
    currentOccupancy s' = foldl line_effect (currentOccupancy s) (map clean_line (full_lines [] rx))"
proof -
  have "sensor_abs s = ([], currentOccupancy s)" using assms(2) by (simp add: sensor_abs_def)
  then obtain s' where s': "run_steps rx_char s rx = Some s'" "sensor_inv s'"
      "sensor_abs s' = foldl line_step ([], currentOccupancy s) rx"
    using rx.run_sim [OF assms(1), of rx] by auto
  have "currentOccupancy s' = snd (sensor_abs s')" by (simp add: sensor_abs_def)
  also have "\<dots> = foldl line_effect (currentOccupancy s) (map clean_line (full_lines [] rx))"
    using line_steps_lines [of "[]" "currentOccupancy s" rx] by (simp add: s'(3))
  finally show ?thesis using s' by blast
qed

lemma sensor_abs_empty: "sensor_inv s \<Longrightarrow> fst (sensor_abs s) = [] \<Longrightarrow> rx_index s = 0"
  by (auto simp: sensor_abs_def sensor_inv_def RX_BUF_SIZE_def)

section \<open>Properties of the sensor\<close>

text \<open>(C12) The receive path, for every stream of characters and however it is split over calls: no call
  writes outside the 64-character buffer, the index stays below 64, the occupancy stays 0 or 1, and
  after the stream it is the occupancy carried by the last valid \<open>$DFHPD\<close> line, where lines end at
  LF, count up to 63 characters and may end in CR; other lines leave it alone.\<close>

theorem update_sensor_stream:
  assumes "sensor_inv s" and "rx_index s = 0"
  shows "\<exists>s'. update_sensor console rx s = Some s' \<and> sensor_inv s' \<and>
    read_occupancy s' = foldl line_effect (read_occupancy s) (map clean_line (full_lines [] rx)) \<and>
    (\<forall>rx1 rx2. rx = rx1 @ rx2 \<longrightarrow>
       Some s' = do { s1 \<leftarrow> update_sensor console rx1 s; update_sensor None rx2 s1 })"
proof -
  let ?s = "case console of None \<Rightarrow> s | Some c \<Rightarrow> emit (ToSensor [c]) s"
  have "sensor_inv ?s" "rx_index ?s = 0" "currentOccupancy ?s = currentOccupancy s"
    using assms by (simp_all add: sensor_inv_def split: option.splits)
  then obtain s' where s': "run_steps rx_char ?s rx = Some s'" "sensor_inv s'"
      "currentOccupancy s' = foldl line_effect (currentOccupancy s) (map clean_line (full_lines [] rx))"
    using run_lines [of ?s rx] by auto
  moreover have "Some s' = do { s1 \<leftarrow> update_sensor console rx1 s; update_sensor None rx2 s1 }" if "rx = rx1 @ rx2" for rx1 rx2
    using s'(1) unfolding that run_steps_append by (simp add: update_sensor_def Let_def)
  ultimately show ?thesis by (auto simp: update_sensor_def read_occupancy_def Let_def)
qed

definition demo_stream :: string where
  "demo_stream = ''Done'' @ [CR, LF] @ ''$DFHPD,1, , , *'' @ [CR, LF] @ ''$DFHPD,0, , , *''"

lemma sensor_init_inv: "sensor_inv sensor_init"
  by (simp add: sensor_inv_def sensor_init_def RX_BUF_SIZE_def)

theorem update_sensor_stream_witness:
  "\<exists>s'. update_sensor None demo_stream sensor_init = Some s' \<and> sensor_inv s' \<and> read_occupancy s' = 1"
proof -
  have "foldl line_effect (read_occupancy sensor_init) (map clean_line (full_lines [] demo_stream)) = 1"
    by (simp add: demo_stream_def read_occupancy_def sensor_init_def clean_line_def strip_cr_def cstr_def
        line_effect_def frame_occupancy_def frame_field_def)
  then show ?thesis
    using update_sensor_stream [OF sensor_init_inv, of None demo_stream] by (auto simp: sensor_init_def)
qed

lemma frame_line_occupancy:
  "c \<in> {CHR ''0'', CHR ''1''} \<Longrightarrow> frame_occupancy (''$DFHPD,'' @ c # '','' @ tail) = Some (if c = CHR ''1'' then 1 else 0)"
  by (auto simp: frame_occupancy_def frame_field_def)

text \<open>(C24) A complete frame as the sensor sends it sets the occupancy to the digit it carries, whatever
  was received or stored before, for every tail of the frame without LF or NUL within the 63
  characters the buffer keeps.\<close>

theorem update_sensor_frame:
  assumes "sensor_inv s" and "rx_index s = 0" and "c \<in> {CHR ''0'', CHR ''1''}"
    and "LF \<notin> set tail" and "NUL \<notin> set tail" and "length tail \<le> 53"
  shows "\<exists>s'. update_sensor None (''$DFHPD,'' @ c # '','' @ tail @ [CR, LF]) s = Some s' \<and>
    rx_index s' = 0 \<and> read_occupancy s' = (if c = CHR ''1'' then 1 else 0)"
proof -
  let ?l = "''$DFHPD,'' @ c # '','' @ tail"
  let ?rx = "''$DFHPD,'' @ c # '','' @ tail @ [CR, LF]"
  have rx: "?rx = concat (map (\<lambda>l. l @ [LF]) [?l @ [CR]])" by simp
  have fl: "full_lines [] ?rx = [?l @ [CR]]"
    unfolding rx by (rule full_lines_concat) (use assms(3,4) in auto)
  have "clean_line (?l @ [CR]) = ?l"
    using assms(3,5,6) by (auto simp: clean_line_def strip_cr_def)
  then have "line_effect occ (clean_line (?l @ [CR])) = (if c = CHR ''1'' then 1 else 0)" for occ
    using frame_line_occupancy [OF assms(3), of tail] by (simp add: line_effect_def)
  then obtain s' where s': "run_steps rx_char s ?rx = Some s'" "currentOccupancy s' = (if c = CHR ''1'' then 1 else 0)"
      "sensor_inv s'" "sensor_abs s' = foldl line_step ([], currentOccupancy s) ?rx"
    using run_lines [OF assms(1,2), of ?rx] unfolding fl by auto
  have "fst (sensor_abs s') = []" unfolding s'(4) rx by (simp add: line_step_def)
  then show ?thesis using s' sensor_abs_empty by (auto simp: update_sensor_def read_occupancy_def)
qed

theorem update_sensor_frame_witness:
  "\<exists>s'. update_sensor None (''$DFHPD,1, , , *'' @ [CR, LF]) sensor_init = Some s' \<and>
     rx_index s' = 0 \<and> read_occupancy s' = 1"
  using update_sensor_frame [OF sensor_init_inv, of "CHR ''1''" "'' , , *''"] by (simp add: sensor_init_def)

section \<open>Provisioning and payload\<close>

definition sent :: "sensor \<Rightarrow> string" where
  "sent s = concat (map (\<lambda>e. case e of ToSensor x \<Rightarrow> x | _ \<Rightarrow> []) (sio s))"

definition wait_elapses :: "u32 \<times> (u32 \<times> string) list \<Rightarrow> u32 \<Rightarrow> bool" where
  "wait_elapses env w \<longleftrightarrow> (\<exists>t \<in> fst ` set (snd env). w \<le> t - fst env)"

definition same_but_io :: "sensor \<Rightarrow> sensor \<Rightarrow> bool" where
  "same_but_io s s' \<longleftrightarrow> currentOccupancy s' = currentOccupancy s \<and> rx_buffer s' = rx_buffer s \<and> rx_index s' = rx_index s"

lemma sent_emit: "sent (emit e s) = sent s @ (case e of ToSensor x \<Rightarrow> x | _ \<Rightarrow> [])"
  by (simp add: sent_def)

lemma send_sensor_cmd_ends:
  assumes "wait_elapses env w"
  shows "\<exists>s'. send_sensor_cmd cmd w (fst env) (snd env) s = Some s' \<and> same_but_io s s' \<and> sent s' = sent s @ cmd @ [CR, LF]"
proof -
  from assms obtain t a where "(t, a) \<in> set (snd env)" "\<not> t - fst env < w"
    by (auto simp: wait_elapses_def not_less)
  then obtain body rest where "poll_while (\<lambda>(t, avail). t - fst env < w) (snd env) = Some (body, rest)"
    using poll_while_ends [of "(t, a)" "snd env" "\<lambda>(t, avail). t - fst env < w"] by auto
  then show ?thesis by (simp add: send_sensor_cmd_def sent_emit same_but_io_def)
qed

lemma send_all_ends:
  assumes "\<And>k. k < length cmds \<Longrightarrow> wait_elapses (env (i + k)) (snd (cmds ! k))"
  shows "\<exists>s'. send_all env i cmds s = Some s' \<and> same_but_io s s' \<and>
    sent s' = sent s @ concat (map (\<lambda>c. fst c @ [CR, LF]) cmds)"
  using assms
proof (induction cmds arbitrary: i s)
  case (Cons c cmds)
  obtain cmd w where c: "c = (cmd, w)" by (cases c)
  have "wait_elapses (env i) w" using Cons.prems [of 0] c by simp
  then obtain s1 where s1: "send_sensor_cmd cmd w (fst (env i)) (snd (env i)) s = Some s1" "same_but_io s s1"
      "sent s1 = sent s @ cmd @ [CR, LF]"
    using send_sensor_cmd_ends by blast
  have "wait_elapses (env (Suc i + k)) (snd (cmds ! k))" if "k < length cmds" for k
    using Cons.prems [of "Suc k"] that by simp
  with Cons.IH [of "Suc i" s1] s1 show ?case by (auto simp: c same_but_io_def)
qed (simp add: same_but_io_def)

text \<open>(C40) Provisioning: if in every wait loop the clock is at some point seen past the wait time, the
  function returns, leaves the receive buffer and the occupancy as they were, and has sent exactly
  the seven configured command lines, each ended by CR LF: stop first, the settings, then save and
  start.\<close>

theorem provision_sensor_sequence:
  assumes "\<forall>k < 7. wait_elapses (env k) (snd (provision_cmds cfg ! k))"
  shows "\<exists>s'. provision_sensor cfg env s = Some s' \<and> same_but_io s s' \<and>
    sent s' = sent s @ concat (map (\<lambda>c. c @ [CR, LF])
      [''sensorStop'', ''setSensitivity '' @ SENSOR_KEEP_SENS cfg @ '' '' @ SENSOR_TRIG_SENS cfg,
       ''setLatency '' @ SENSOR_LATENCY_ON cfg @ '' '' @ SENSOR_LATENCY_OFF cfg,
       ''setRange '' @ SENSOR_RANGE_MIN cfg @ '' '' @ SENSOR_RANGE_MAX cfg,
       ''setTrigRange '' @ SENSOR_TRIG_RANGE cfg, ''saveConfig'', ''sensorStart''])"
proof -
  have "length (provision_cmds cfg) = 7" by (simp add: provision_cmds_def)
  then obtain s' where s': "send_all env 0 (provision_cmds cfg) s = Some s'" "same_but_io s s'"
      "sent s' = sent s @ concat (map (\<lambda>c. fst c @ [CR, LF]) (provision_cmds cfg))"
    using send_all_ends [of "provision_cmds cfg" env 0 s] assms by auto
  then show ?thesis unfolding provision_sensor_def by (simp add: provision_cmds_def)
qed

theorem provision_sensor_sequence_witness:
  "\<exists>s'. provision_sensor config_example (\<lambda>i. (0xFFFFFFFF, [(100, ''Done''), (5000, [])])) sensor_init = Some s' \<and>
     take 12 (sent s') = ''sensorStop'' @ [CR, LF]"
proof -
  have e: "wait_elapses (0xFFFFFFFF, [(100, ''Done''), (5000, [])]) w" if "w \<in> {1200, 300, 500}" for w
    using that by (auto simp: wait_elapses_def)
  have "\<forall>c \<in> set (provision_cmds config_example). snd c \<in> {1200, 300, 500}" "length (provision_cmds config_example) = 7"
    by (simp_all add: provision_cmds_def)
  then have "snd (provision_cmds config_example ! k) \<in> {1200, 300, 500}" if "k < 7" for k
    using that by (simp only: nth_mem)
  with e have "\<forall>k < 7. wait_elapses (0xFFFFFFFF, [(100, ''Done''), (5000, [])]) (snd (provision_cmds config_example ! k))"
    by blast
  then show ?thesis
    using provision_sensor_sequence [of "\<lambda>i. (0xFFFFFFFF, [(100, ''Done''), (5000, [])])" config_example sensor_init]
    by (auto simp: sent_def sensor_init_def)
qed

lemma fmt_d_rssi: "- 999 \<le> r \<Longrightarrow> r \<le> 999 \<Longrightarrow> length (fmt_d r) \<le> 4"
  using fmt_u_length [of "nat r" 3] fmt_u_length [of "nat (- r)" 3] by (auto simp: fmt_d_def nat_less_iff)

lemma sensor_payload_fits:
  assumes "0 \<le> now" and "now < 2 ^ 31" and "length bssid \<le> 17" and "NUL \<notin> set bssid" and "\<bar>rssi\<bar> \<le> 999"
  shows "\<exists>ts txt. to_rfc3339_utc now 32 = Some ts \<and> length ts \<le> 20 \<and>
    txt = payload_text (currentOccupancy s) ts bssid rssi \<and>
    build_sensor_payload 160 now bssid rssi s = Some (txt, length txt) \<and> length txt < 160"
proof -
  let ?ts = "strftime_rfc3339 (gmtime now)"
  let ?txt = "payload_text (currentOccupancy s) ?ts bssid rssi"
  have ts: "to_rfc3339_utc now 32 = Some ?ts" "length ?ts \<le> 20"
    using rfc3339_length [OF assms(1,2)] by (simp_all add: to_rfc3339_utc_def)
  have "length (fmt_d rssi) \<le> 4" using assms(5) by (intro fmt_d_rssi) auto
  then have len: "length ?txt < 160"
    using ts(2) assms(3) by (simp add: payload_text_def jfield_def jstr_def)
  have "NUL \<notin> set ?txt"
    using assms(4) rfc3339_no_NUL [of "gmtime now"] fmt_d_no_NUL [of rssi]
    by (simp add: payload_text_def jfield_def jstr_def)
  then have "snprintf_str 160 ?txt = ?txt" using len by (intro snprintf_str_fits)
  then show ?thesis using ts len by (simp add: build_sensor_payload_def read_occupancy_def Let_def)
qed

lemma fmt_d_bare: "bare (fmt_d i)"
  using bare_digits [of 10] by (simp add: fmt_d_def fmt_u_def is_control_def)

lemma fmt_02_bare: "bare (fmt_02 i)"
  using fmt_d_bare by (simp add: fmt_02_def pad0_def) (simp add: bare_def is_control_def)

lemma rfc3339_bare: "bare (strftime_rfc3339 t)"
  by (simp add: strftime_rfc3339_def fmt_d_bare fmt_02_bare is_control_def)

text \<open>The payload as a JSON reader reads it.\<close>

definition payload_value :: "bool \<Rightarrow> string \<Rightarrow> string \<Rightarrow> int \<Rightarrow> json" where
  "payload_value occupied ts bssid rssi = JObj
     [(''occupied'', JBool occupied), (''timestamp'', JStr ts), (''bssid'', JStr bssid), (''rssi'', JInt rssi)]"

lemma payload_json:
  assumes "bare ts" "bare bssid"
  shows "json_of (payload_text occ ts bssid rssi) = Some (payload_value (occ \<noteq> 0) ts bssid rssi)"
proof -
  have "payload_text occ ts bssid rssi = render (payload_value (occ \<noteq> 0) ts bssid rssi)"
    using assms by (simp add: payload_text_def payload_value_def jfield_def jstr_def render_str_bare is_control_def)
  moreover have "json_ok (payload_value (occ \<noteq> 0) ts bssid rssi)"
    using assms bare_text_ok by (simp add: payload_value_def) (simp add: text_ok_def is_control_def)
  ultimately show ?thesis using json_of_render by metis
qed

text \<open>(C23) The payload: for a clock between 1970 and 2038, a BSSID text of at most 17 characters and an
  RSSI of at most three digits, the 160-byte buffer of the caller holds the whole JSON object and the
  returned length is the length of the text in the buffer. With a BSSID text that needs no escape (the
  core's are hexadecimal digits and colons) a strict JSON reader reads the object as \<open>occupied\<close> true exactly
  when the stored occupancy is not 0, the time as an RFC 3339 timestamp, the BSSID and the RSSI.\<close>

theorem build_sensor_payload_complete:
  assumes "0 \<le> now" and "now < 2 ^ 31" and "length bssid \<le> 17" and "NUL \<notin> set bssid" and "\<bar>rssi\<bar> \<le> 999"
  shows "\<exists>ts txt. to_rfc3339_utc now 32 = Some ts \<and> length ts \<le> 20 \<and>
    txt = payload_text (currentOccupancy s) ts bssid rssi \<and>
    build_sensor_payload 160 now bssid rssi s = Some (txt, length txt) \<and> length txt < 160 \<and>
    (bare bssid \<longrightarrow> json_of txt = Some (JObj
       [(''occupied'', JBool (currentOccupancy s \<noteq> 0)), (''timestamp'', JStr (strftime_rfc3339 (gmtime now))),
        (''bssid'', JStr bssid), (''rssi'', JInt rssi)]))"
proof -
  obtain ts p where t: "to_rfc3339_utc now 32 = Some ts" "length ts \<le> 20" "p = payload_text (currentOccupancy s) ts bssid rssi"
      "build_sensor_payload 160 now bssid rssi s = Some (p, length p)" "length p < 160"
    using sensor_payload_fits [OF assms] by blast
  have "ts = strftime_rfc3339 (gmtime now)" using t(1) by (simp add: to_rfc3339_utc_def Let_def split: if_splits)
  then show ?thesis using t payload_json [OF rfc3339_bare] by (auto simp: payload_value_def)
qed

theorem build_sensor_payload_complete_witness:
  "\<exists>txt. build_sensor_payload 160 1767225600 ''aa:bb:cc:dd:ee:ff'' (-67) (sensor_init\<lparr>currentOccupancy := 1\<rparr>) = Some (txt, length txt) \<and>
     json_of txt = Some (JObj [(''occupied'', JBool True), (''timestamp'', JStr (strftime_rfc3339 (gmtime 1767225600))),
       (''bssid'', JStr ''aa:bb:cc:dd:ee:ff''), (''rssi'', JInt (-67))])"
proof -
  have "bare ''aa:bb:cc:dd:ee:ff''" by (simp add: is_control_def)
  then show ?thesis
    using build_sensor_payload_complete [of 1767225600 "''aa:bb:cc:dd:ee:ff''" "-67" "sensor_init\<lparr>currentOccupancy := 1\<rparr>"] by auto
qed

end
