(* ===== verification/Mqtt_Session.thy ===== *)
theory Mqtt_Session
  imports Fs_Store Sensor
begin

text \<open>
  The broker session, \<open>mqtt_session.cpp\<close>. The static variables are the record \<open>mqtt\<close>. The BearSSL
  objects the code allocates with \<open>new\<close> live in a small heap, a map from addresses to the PEM text
  they were built from, and \<open>s_secure\<close> keeps raw pointers to them, so that a use after \<open>delete\<close>
  or a double \<open>delete\<close> is visible as \<open>None\<close>. What the network does is an input of each call.
\<close>

section \<open>State\<close>

text \<open>\<open>publish_calls\<close> lists the calls of \<open>s_mqtt.publish\<close>, topic and payload; the code only logs whether the
  client took the message.\<close>

type_synonym addr = nat

record mqtt =
  s_ca_list :: "addr option"
  s_dev_chain :: "addr option"
  s_dev_key :: "addr option"
  sec_anchors :: "addr option"
  sec_chain :: "addr option"
  sec_key :: "addr option"
  objs :: "addr \<rightharpoonup> string"
  next_addr :: addr
  s_cn :: string
  s_last_reconn :: u32
  s_current_ep :: nat
  mqtt_up :: bool
  publish_calls :: "(string \<times> string) list"

definition mqtt_init :: mqtt where
  "mqtt_init = \<lparr> s_ca_list = None, s_dev_chain = None, s_dev_key = None, sec_anchors = None, sec_chain = None,
     sec_key = None, objs = Map.empty, next_addr = 0, s_cn = [], s_last_reconn = 0, s_current_ep = 0,
     mqtt_up = False, publish_calls = [] \<rparr>"

text \<open>\<open>new\<close>, \<open>delete\<close>, and the handshake, which follows the three pointers.\<close>

definition new_obj :: "string \<Rightarrow> mqtt \<Rightarrow> addr \<times> mqtt" where
  "new_obj pem st = (next_addr st, st\<lparr>objs := (objs st)(next_addr st \<mapsto> pem), next_addr := Suc (next_addr st)\<rparr>)"

definition delete_obj :: "addr option \<Rightarrow> mqtt \<Rightarrow> mqtt option" where
  "delete_obj p st =
     (case p of None \<Rightarrow> Some st
      | Some a \<Rightarrow> if objs st a = None then None else Some (st\<lparr>objs := (objs st)(a := None)\<rparr>))"

definition valid_ptr :: "mqtt \<Rightarrow> addr option \<Rightarrow> bool" where
  "valid_ptr st p = (case p of None \<Rightarrow> True | Some a \<Rightarrow> objs st a \<noteq> None)"

definition tls_ready :: "mqtt \<Rightarrow> unit option" where
  "tls_ready st = (if valid_ptr st (sec_anchors st) \<and> valid_ptr st (sec_chain st) \<and> valid_ptr st (sec_key st) then Some () else None)"

text \<open>What the network does during one call, per endpoint slot.\<close>

record net =
  net_ip_ok :: "string \<Rightarrow> bool"
  net_tcp :: "nat \<Rightarrow> bool"
  net_tls :: "nat \<Rightarrow> bool"
  net_mqtt :: "nat \<Rightarrow> bool"

section \<open>Operations\<close>

definition current_cn :: "mqtt \<Rightarrow> string" where
  "current_cn st = s_cn st"

definition mqtt_session_connected :: "mqtt \<Rightarrow> bool" where
  "mqtt_session_connected st = mqtt_up st"

definition try_emqx_endpoint :: "config \<Rightarrow> net \<Rightarrow> nat \<Rightarrow> mqtt \<Rightarrow> (bool \<times> mqtt) option" where
  "try_emqx_endpoint cfg net idx st = do {
     ep \<leftarrow> rd (EMQX_ENDPOINTS cfg) idx;
     if \<not> net_ip_ok net (ep_ip ep) then Some (False, st)
     else if \<not> net_tcp net idx then Some (False, st)
     else do {
       tls_ok \<leftarrow> (if ENABLE_DIAG_TLS_PROBE cfg then do { _ \<leftarrow> tls_ready st; Some (net_tls net idx) } else Some True);
       if \<not> tls_ok then Some (False, st)
       else do {
         _ \<leftarrow> tls_ready st;
         let ok = net_mqtt net idx;
         Some (ok, st\<lparr>mqtt_up := ok\<rparr>)
       }
     }
   }"

definition derive_cn :: "config \<Rightarrow> bytes \<Rightarrow> mqtt \<Rightarrow> mqtt option" where
  "derive_cn cfg m st = do { t \<leftarrow> cn_text cfg m; Some (st\<lparr>s_cn := snprintf_str 32 t\<rparr>) }"

text \<open>The three \<open>if (p) { delete p; p = nullptr; }\<close> lines.\<close>

definition delete_assets :: "mqtt \<Rightarrow> mqtt option" where
  "delete_assets st = do {
     st \<leftarrow> delete_obj (s_ca_list st) st;
     let st = st\<lparr>s_ca_list := None\<rparr>;
     st \<leftarrow> delete_obj (s_dev_chain st) st;
     let st = st\<lparr>s_dev_chain := None\<rparr>;
     st \<leftarrow> delete_obj (s_dev_key st) st;
     Some (st\<lparr>s_dev_key := None\<rparr>)
   }"

definition load_assets :: "string \<Rightarrow> string \<Rightarrow> string \<Rightarrow> mqtt \<Rightarrow> mqtt" where
  "load_assets caPem fullChain keyPem st =
     (let (a, st) = new_obj caPem st; st = st\<lparr>s_ca_list := Some a\<rparr>;
          (b, st) = new_obj fullChain st; st = st\<lparr>s_dev_chain := Some b\<rparr>;
          (c, st) = new_obj keyPem st
      in st\<lparr>s_dev_key := Some c\<rparr>)"

text \<open>The round robin over all slots, \<open>i\<close> from 0 to the number of slots.\<close>

function round_robin :: "config \<Rightarrow> net \<Rightarrow> nat \<Rightarrow> mqtt \<Rightarrow> (bool \<times> mqtt) option" where
  "round_robin cfg net i st =
     (if i < EMQX_ENDPOINT_COUNT cfg then do {
        let idx = (s_current_ep st + i) mod EMQX_ENDPOINT_COUNT cfg;
        (ok, st) \<leftarrow> try_emqx_endpoint cfg net idx st;
        if ok then Some (True, st\<lparr>s_current_ep := idx\<rparr>) else round_robin cfg net (Suc i) st
      } else Some (False, st))"
  by pat_completeness auto
termination
  by (relation "measure (\<lambda>(cfg, net, i, st). EMQX_ENDPOINT_COUNT cfg - i)") auto

declare round_robin.simps [simp del]

definition setup_operational :: "config \<Rightarrow> 'f littlefs \<Rightarrow> 'f \<Rightarrow> bytes \<Rightarrow> net \<Rightarrow> mqtt \<Rightarrow> (bool \<times> mqtt) option" where
  "setup_operational cfg lfs fs m net st = do {
     let st = (if mqtt_up st then st\<lparr>mqtt_up := False\<rparr> else st);
     let caPem = read_file lfs fs PATH_CA_CERT;
     let certPem = read_file lfs fs PATH_DEV_CERT;
     let chainPem = read_file lfs fs PATH_DEV_CHAIN;
     let keyPem = read_file lfs fs PATH_DEV_KEY;
     if length caPem = 0 \<or> length certPem = 0 \<or> length keyPem = 0 then Some (False, st)
     else do {
       st \<leftarrow> delete_assets st;
       let st = load_assets caPem (certPem @ chainPem) keyPem st;
       st \<leftarrow> derive_cn cfg m st;
       let st = st\<lparr>sec_anchors := s_ca_list st, sec_chain := s_dev_chain st, sec_key := s_dev_key st\<rparr>;
       round_robin cfg net 0 st
     }
   }"

text \<open>The clock, the BSSID text and the RSSI are those \<open>build_sensor_payload\<close> reads.\<close>

definition publish_occupancy :: "config \<Rightarrow> int \<Rightarrow> string \<Rightarrow> int \<Rightarrow> sensor \<Rightarrow> mqtt \<Rightarrow> mqtt option" where
  "publish_occupancy cfg now bssid rssi sens st =
     (if \<not> mqtt_up st \<or> s_cn st = [] then Some st else do {
        let topic = snprintf_str 64 (MQTT_TOPIC_FMT (s_cn st));
        (payload, plen) \<leftarrow> build_sensor_payload 160 now bssid rssi sens;
        let st = st\<lparr>publish_calls := publish_calls st @ [(topic, payload)]\<rparr>;
        Some (if TEST_FOREIGN_TOPIC cfg
              then st\<lparr>publish_calls := publish_calls st @ [(snprintf_str 64 (MQTT_TOPIC_FMT FOREIGN_DEVICE_ID), payload)]\<rparr>
              else st)
      })"

definition mqtt_session_teardown :: "mqtt \<Rightarrow> mqtt option" where
  "mqtt_session_teardown st = do {
     let st = (if mqtt_up st then st\<lparr>mqtt_up := False\<rparr> else st);
     st \<leftarrow> delete_assets st;
     Some (st\<lparr>s_cn := []\<rparr>)
   }"

definition mqtt_session_loop :: "config \<Rightarrow> u32 \<Rightarrow> net \<Rightarrow> mqtt \<Rightarrow> mqtt option" where
  "mqtt_session_loop cfg now net st =
     (if mqtt_up st then Some st
      else if s_cn st = [] then Some st
      else if now - s_last_reconn st < 5000 then Some st
      else do {
        let st = st\<lparr>s_last_reconn := now\<rparr>;
        ep \<leftarrow> rd (EMQX_ENDPOINTS cfg) (s_current_ep st);
        if \<not> net_ip_ok net (ep_ip ep) then Some st
        else do {
          _ \<leftarrow> tls_ready st;
          let ok = net_mqtt net (s_current_ep st);
          let st = st\<lparr>mqtt_up := ok\<rparr>;
          Some (if \<not> ok then st\<lparr>s_current_ep := (s_current_ep st + 1) mod EMQX_ENDPOINT_COUNT cfg\<rparr> else st)
        }
      })"

text \<open>The connection may break at any time.\<close>

definition link_lost :: "mqtt \<Rightarrow> mqtt" where
  "link_lost st = st\<lparr>mqtt_up := False\<rparr>"

section \<open>Invariant\<close>

text \<open>
  Either none of the three objects exists and the heap is empty, or exactly the three owned objects
  are on the heap. Whenever a common name is set, which is what makes the other functions connect
  and publish, the secure client points to the owned objects.
\<close>

definition objects_ok :: "mqtt \<Rightarrow> bool" where
  "objects_ok st \<longleftrightarrow>
     (s_ca_list st = None \<and> s_dev_chain st = None \<and> s_dev_key st = None \<and> objs st = Map.empty) \<or>
     (\<exists>a b c. s_ca_list st = Some a \<and> s_dev_chain st = Some b \<and> s_dev_key st = Some c \<and>
        distinct [a, b, c] \<and> dom (objs st) = {a, b, c})"

definition client_ok :: "mqtt \<Rightarrow> bool" where
  "client_ok st \<longleftrightarrow> s_ca_list st \<noteq> None \<and> sec_anchors st = s_ca_list st \<and> sec_chain st = s_dev_chain st \<and> sec_key st = s_dev_key st"

definition mqtt_inv :: "config \<Rightarrow> mqtt \<Rightarrow> bool" where
  "mqtt_inv cfg st \<longleftrightarrow> s_current_ep st < EMQX_ENDPOINT_COUNT cfg \<and> objects_ok st \<and>
     (s_cn st \<noteq> [] \<longrightarrow> client_ok st) \<and> (mqtt_up st \<longrightarrow> s_cn st \<noteq> []) \<and> length (s_cn st) < 32"

lemma mqtt_init_inv: "0 < EMQX_ENDPOINT_COUNT cfg \<Longrightarrow> mqtt_inv cfg mqtt_init"
  by (simp add: mqtt_inv_def mqtt_init_def objects_ok_def)

lemma dom_three:
  assumes "dom f = {a, b, c}"
  shows "f a \<noteq> None" "f b \<noteq> None" "f c \<noteq> None" "f(a := None, b := None, c := None) = Map.empty"
proof -
  show "f a \<noteq> None" "f b \<noteq> None" "f c \<noteq> None" using assms by (simp_all add: dom_def set_eq_iff)
  show "f(a := None, b := None, c := None) = Map.empty" using assms by (auto simp: fun_eq_iff dom_def set_eq_iff)
qed

lemma tls_ready_ok: "objects_ok st \<Longrightarrow> client_ok st \<Longrightarrow> tls_ready st = Some ()"
  using dom_three [of "objs st"] by (auto simp: objects_ok_def client_ok_def tls_ready_def valid_ptr_def)

lemma delete_assets_ok:
  assumes "objects_ok st"
  shows "delete_assets st = Some (st\<lparr>s_ca_list := None, s_dev_chain := None, s_dev_key := None, objs := Map.empty\<rparr>)"
proof -
  consider "s_ca_list st = None" "s_dev_chain st = None" "s_dev_key st = None" "objs st = Map.empty"
    | a b c where "s_ca_list st = Some a" "s_dev_chain st = Some b" "s_dev_key st = Some c" "distinct [a, b, c]" "dom (objs st) = {a, b, c}"
    using assms by (auto simp: objects_ok_def)
  then show ?thesis
  proof cases
    case 1
    then show ?thesis by (cases st) (simp add: delete_assets_def delete_obj_def)
  next
    case 2
    note dom_three [OF 2(5)]
    then show ?thesis using 2 by (cases st) (simp add: delete_assets_def delete_obj_def Let_def)
  qed
qed

lemma load_assets_eq:
  assumes "objs st = Map.empty"
  defines "n \<equiv> next_addr st"
  shows "load_assets ca chain key st = st\<lparr>objs := [n \<mapsto> ca, Suc n \<mapsto> chain, Suc (Suc n) \<mapsto> key], next_addr := n + 3,
     s_ca_list := Some n, s_dev_chain := Some (Suc n), s_dev_key := Some (Suc (Suc n))\<rparr>"
  using assms by (cases st) (simp add: load_assets_def new_obj_def Let_def)

section \<open>Connecting\<close>

definition accepts :: "config \<Rightarrow> net \<Rightarrow> nat \<Rightarrow> bool" where
  "accepts cfg net idx \<longleftrightarrow> net_ip_ok net (ep_ip (EMQX_ENDPOINTS cfg ! idx)) \<and> net_tcp net idx \<and>
     (ENABLE_DIAG_TLS_PROBE cfg \<longrightarrow> net_tls net idx) \<and> net_mqtt net idx"

definition slots_from :: "config \<Rightarrow> nat \<Rightarrow> nat list" where
  "slots_from cfg cur = map (\<lambda>i. (cur + i) mod EMQX_ENDPOINT_COUNT cfg) [0..<EMQX_ENDPOINT_COUNT cfg]"

lemma try_emqx_endpoint_eq:
  "idx < EMQX_ENDPOINT_COUNT cfg \<Longrightarrow> tls_ready st = Some () \<Longrightarrow> \<not> mqtt_up st \<Longrightarrow>
   try_emqx_endpoint cfg net idx st = Some (accepts cfg net idx, st\<lparr>mqtt_up := accepts cfg net idx\<rparr>)"
  by (cases st) (auto simp: try_emqx_endpoint_def accepts_def EMQX_ENDPOINT_COUNT_def mem_simps Let_def)

lemma tls_ready_upd [simp]: "tls_ready (st\<lparr>mqtt_up := u\<rparr>) = tls_ready st" "tls_ready (st\<lparr>s_last_reconn := t\<rparr>) = tls_ready st"
  by (simp_all add: tls_ready_def valid_ptr_def split: option.splits)

lemma round_robin_find:
  assumes "tls_ready st = Some ()" "\<not> mqtt_up st"
  shows "round_robin cfg net i st =
    Some (case List.find (accepts cfg net) (map (\<lambda>i. (s_current_ep st + i) mod EMQX_ENDPOINT_COUNT cfg) [i..<EMQX_ENDPOINT_COUNT cfg]) of
            None \<Rightarrow> (False, st) | Some idx \<Rightarrow> (True, st\<lparr>mqtt_up := True, s_current_ep := idx\<rparr>))"
proof (induction "EMQX_ENDPOINT_COUNT cfg - i" arbitrary: i)
  case 0
  then show ?case by (simp add: round_robin.simps [of cfg net i])
next
  case (Suc k)
  then have i: "i < EMQX_ENDPOINT_COUNT cfg" by simp
  let ?idx = "(s_current_ep st + i) mod EMQX_ENDPOINT_COUNT cfg"
  have idx: "?idx < EMQX_ENDPOINT_COUNT cfg" using i by simp
  have same: "st\<lparr>mqtt_up := False\<rparr> = st" using assms(2) by (cases st) simp
  note IH = Suc.hyps(1) [of "Suc i"]
  show ?case
    using try_emqx_endpoint_eq [OF idx assms, of net] i IH Suc.hyps(2) same
    by (simp add: round_robin.simps [of cfg net i] Let_def upt_conv_Cons)
qed

text \<open>The whole of \<open>setup_operational\<close> when the assets are there.\<close>

definition session_of :: "config \<Rightarrow> 'f littlefs \<Rightarrow> 'f \<Rightarrow> bytes \<Rightarrow> mqtt \<Rightarrow> mqtt" where
  "session_of cfg lfs fs m st =
     (let n = next_addr st in st\<lparr>mqtt_up := False,
        objs := [n \<mapsto> read_file lfs fs PATH_CA_CERT,
                 Suc n \<mapsto> read_file lfs fs PATH_DEV_CERT @ read_file lfs fs PATH_DEV_CHAIN,
                 Suc (Suc n) \<mapsto> read_file lfs fs PATH_DEV_KEY], next_addr := n + 3,
        s_ca_list := Some n, s_dev_chain := Some (Suc n), s_dev_key := Some (Suc (Suc n)),
        s_cn := snprintf_str 32 (the (cn_text cfg m)),
        sec_anchors := Some n, sec_chain := Some (Suc n), sec_key := Some (Suc (Suc n))\<rparr>)"

definition assets_present :: "'f littlefs \<Rightarrow> 'f \<Rightarrow> bool" where
  "assets_present lfs fs \<longleftrightarrow> read_file lfs fs PATH_CA_CERT \<noteq> [] \<and> read_file lfs fs PATH_DEV_CERT \<noteq> [] \<and> read_file lfs fs PATH_DEV_KEY \<noteq> []"

lemma setup_operational_eq:
  assumes "objects_ok st" "6 \<le> length m"
  shows "setup_operational cfg lfs fs m net st =
    Some (if assets_present lfs fs
      then (let st' = session_of cfg lfs fs m st in
            case List.find (accepts cfg net) (slots_from cfg (s_current_ep st)) of
              None \<Rightarrow> (False, st') | Some idx \<Rightarrow> (True, st'\<lparr>mqtt_up := True, s_current_ep := idx\<rparr>))
      else (False, st\<lparr>mqtt_up := False\<rparr>))"
proof (cases "assets_present lfs fs")
  case False
  then show ?thesis by (cases st) (auto simp: setup_operational_def assets_present_def Let_def)
next
  case True
  obtain t where t: "cn_text cfg m = Some t" using cn_text_ok [OF assms(2)] by blast
  have m: "(if mqtt_up st then st\<lparr>mqtt_up := False\<rparr> else st) = st\<lparr>mqtt_up := False\<rparr>" by (cases st) simp
  have "objects_ok (st\<lparr>mqtt_up := False\<rparr>)" using assms(1) by (simp add: objects_ok_def)
  note d = delete_assets_ok [OF this]
  have "setup_operational cfg lfs fs m net st = round_robin cfg net 0 (session_of cfg lfs fs m st)"
    using True t unfolding setup_operational_def assets_present_def m
    by (simp add: Let_def d load_assets_eq derive_cn_def session_of_def)
  moreover have "tls_ready (session_of cfg lfs fs m st) = Some ()" "\<not> mqtt_up (session_of cfg lfs fs m st)"
      "s_current_ep (session_of cfg lfs fs m st) = s_current_ep st"
    by (simp_all add: session_of_def tls_ready_def valid_ptr_def Let_def)
  ultimately show ?thesis using True round_robin_find [of "session_of cfg lfs fs m st" cfg net 0] by (simp add: slots_from_def Let_def)
qed

lemma session_of_inv:
  assumes "mqtt_inv cfg st" "6 \<le> length m"
  shows "mqtt_inv cfg (session_of cfg lfs fs m st)" "s_cn (session_of cfg lfs fs m st) \<noteq> []" "client_ok (session_of cfg lfs fs m st)"
proof -
  obtain t where t: "cn_text cfg m = Some t" "t \<noteq> []" "hd t \<noteq> NUL" using cn_text_ok [OF assms(2)] by blast
  then show cn: "s_cn (session_of cfg lfs fs m st) \<noteq> []" using snprintf_str_not_Nil [of t 32] by (simp add: session_of_def Let_def)
  show cl: "client_ok (session_of cfg lfs fs m st)" by (simp add: session_of_def client_ok_def Let_def)
  have o: "objects_ok (session_of cfg lfs fs m st)" by (auto simp: session_of_def objects_ok_def Let_def)
  show "mqtt_inv cfg (session_of cfg lfs fs m st)"
    using assms(1) cn cl o snprintf_str_length [of 32] by (simp add: mqtt_inv_def session_of_def Let_def)
qed

lemma find_slot: "List.find P (slots_from cfg cur) = Some idx \<Longrightarrow> idx < EMQX_ENDPOINT_COUNT cfg \<and> P idx"
  by (auto simp: slots_from_def find_Some_iff)

lemma slots_from_set: "cur < EMQX_ENDPOINT_COUNT cfg \<Longrightarrow> set (slots_from cfg cur) = {..<EMQX_ENDPOINT_COUNT cfg}"
proof
  let ?n = "EMQX_ENDPOINT_COUNT cfg"
  assume c: "cur < ?n"
  then show "set (slots_from cfg cur) \<subseteq> {..<?n}" by (auto simp: slots_from_def)
  show "{..<?n} \<subseteq> set (slots_from cfg cur)"
  proof
    fix j
    assume "j \<in> {..<?n}"
    then have "(cur + (?n - cur + j) mod ?n) mod ?n = j" using c by (simp add: mod_add_right_eq)
    moreover have "(?n - cur + j) mod ?n < ?n" using c by simp
    ultimately show "j \<in> set (slots_from cfg cur)" unfolding slots_from_def by (metis (no_types, lifting) atLeastLessThan_upt atLeastLessThan_iff image_eqI le0 list.set_map)
  qed
qed

section \<open>Every operation keeps the invariant\<close>

lemma setup_operational_inv:
  assumes "mqtt_inv cfg st" "6 \<le> length m"
  shows "\<exists>ok st'. setup_operational cfg lfs fs m net st = Some (ok, st') \<and> mqtt_inv cfg st' \<and> ok = mqtt_up st'"
proof -
  have o: "objects_ok st" using assms(1) by (simp add: mqtt_inv_def)
  let ?s = "session_of cfg lfs fs m st"
  note s = session_of_inv [OF assms, of lfs fs]
  have u: "\<not> mqtt_up ?s" by (simp add: session_of_def Let_def)
  have "mqtt_inv cfg (?s\<lparr>mqtt_up := True, s_current_ep := idx\<rparr>)" if "idx < EMQX_ENDPOINT_COUNT cfg" for idx
    using s that by (simp add: mqtt_inv_def objects_ok_def client_ok_def)
  moreover have "mqtt_inv cfg (st\<lparr>mqtt_up := False\<rparr>)" using assms(1) by (simp add: mqtt_inv_def objects_ok_def client_ok_def)
  ultimately show ?thesis
    unfolding setup_operational_eq [OF o assms(2)] using s(1) u find_slot by (auto simp: Let_def split: option.split)
qed

lemma teardown_eq:
  "objects_ok st \<Longrightarrow> mqtt_session_teardown st =
     Some (st\<lparr>mqtt_up := False, s_ca_list := None, s_dev_chain := None, s_dev_key := None, objs := Map.empty, s_cn := []\<rparr>)"
proof -
  assume "objects_ok st"
  then have "objects_ok (st\<lparr>mqtt_up := False\<rparr>)" by (simp add: objects_ok_def)
  moreover have "(if mqtt_up st then st\<lparr>mqtt_up := False\<rparr> else st) = st\<lparr>mqtt_up := False\<rparr>" by (cases st) simp
  ultimately show ?thesis unfolding mqtt_session_teardown_def by (simp only: Let_def delete_assets_ok) simp
qed

lemma teardown_inv:
  "mqtt_inv cfg st \<Longrightarrow> \<exists>st'. mqtt_session_teardown st = Some st' \<and> mqtt_inv cfg st' \<and> objs st' = Map.empty \<and> s_cn st' = []"
  using teardown_eq [of st] by (simp add: mqtt_inv_def objects_ok_def)

lemma mqtt_session_loop_eq:
  assumes "mqtt_inv cfg st"
  shows "mqtt_session_loop cfg now net st =
    Some (if mqtt_up st \<or> s_cn st = [] \<or> now - s_last_reconn st < 5000 then st
      else if \<not> net_ip_ok net (ep_ip (EMQX_ENDPOINTS cfg ! s_current_ep st)) then st\<lparr>s_last_reconn := now\<rparr>
      else if net_mqtt net (s_current_ep st) then st\<lparr>s_last_reconn := now, mqtt_up := True\<rparr>
      else st\<lparr>s_last_reconn := now, mqtt_up := False, s_current_ep := (s_current_ep st + 1) mod EMQX_ENDPOINT_COUNT cfg\<rparr>)"
proof -
  have "s_cn st \<noteq> [] \<Longrightarrow> tls_ready st = Some ()" using assms tls_ready_ok by (simp add: mqtt_inv_def)
  then show ?thesis using assms by (simp add: mqtt_session_loop_def mqtt_inv_def EMQX_ENDPOINT_COUNT_def mem_simps Let_def)
qed

lemma mqtt_session_loop_inv:
  "mqtt_inv cfg st \<Longrightarrow> \<exists>st'. mqtt_session_loop cfg now net st = Some st' \<and> mqtt_inv cfg st'"
  unfolding mqtt_session_loop_eq by (auto simp: mqtt_inv_def objects_ok_def client_ok_def)

definition readings_ok :: "int \<Rightarrow> string \<Rightarrow> int \<Rightarrow> bool" where
  "readings_ok now bssid rssi \<longleftrightarrow> 0 \<le> now \<and> now < 2 ^ 31 \<and> length bssid \<le> 17 \<and> NUL \<notin> set bssid \<and> \<bar>rssi\<bar> \<le> 999"

lemma publish_inv:
  assumes "mqtt_inv cfg st" "readings_ok now bssid rssi"
  shows "\<exists>st'. publish_occupancy cfg now bssid rssi sens st = Some st' \<and> mqtt_inv cfg st'"
proof -
  obtain p where "build_sensor_payload 160 now bssid rssi sens = Some (p, length p)"
    using sensor_payload_fits [of now bssid rssi sens] assms(2) by (auto simp: readings_ok_def)
  then show ?thesis
    using assms(1) by (simp add: publish_occupancy_def Let_def mqtt_inv_def objects_ok_def client_ok_def)
qed

section \<open>The session as a state machine\<close>

datatype 'f mqtt_op =
    OpSetup 'f bytes net
  | OpLoop u32 net
  | OpPublish int string int sensor
  | OpTeardown
  | OpLost

fun mqtt_do :: "config \<Rightarrow> 'f littlefs \<Rightarrow> 'f mqtt_op \<Rightarrow> mqtt \<Rightarrow> mqtt option" where
  "mqtt_do cfg lfs (OpSetup fs m net) st = map_option snd (setup_operational cfg lfs fs m net st)"
| "mqtt_do cfg lfs (OpLoop now net) st = mqtt_session_loop cfg now net st"
| "mqtt_do cfg lfs (OpPublish now bssid rssi sens) st = publish_occupancy cfg now bssid rssi sens st"
| "mqtt_do cfg lfs OpTeardown st = mqtt_session_teardown st"
| "mqtt_do cfg lfs OpLost st = Some (link_lost st)"

fun op_ok :: "'f mqtt_op \<Rightarrow> bool" where
  "op_ok (OpSetup fs m net) = (6 \<le> length m)"
| "op_ok (OpPublish now bssid rssi sens) = readings_ok now bssid rssi"
| "op_ok _ = True"

inductive mqtt_reach :: "config \<Rightarrow> 'f littlefs \<Rightarrow> mqtt \<Rightarrow> bool" for cfg lfs where
  reach_init: "mqtt_reach cfg lfs mqtt_init"
| reach_step: "mqtt_reach cfg lfs st \<Longrightarrow> op_ok op \<Longrightarrow> mqtt_do cfg lfs op st = Some st' \<Longrightarrow> mqtt_reach cfg lfs st'"

lemma mqtt_do_inv: "mqtt_inv cfg st \<Longrightarrow> op_ok op \<Longrightarrow> \<exists>st'. mqtt_do cfg lfs op st = Some st' \<and> mqtt_inv cfg st'"
proof (cases op)
  case (OpSetup fs m net)
  then show "mqtt_inv cfg st \<Longrightarrow> op_ok op \<Longrightarrow> ?thesis" using setup_operational_inv [of cfg st m lfs fs net] by auto
next
  case (OpLoop now net)
  then show "mqtt_inv cfg st \<Longrightarrow> ?thesis" using mqtt_session_loop_inv by simp
next
  case (OpPublish now bssid rssi sens)
  then show "mqtt_inv cfg st \<Longrightarrow> op_ok op \<Longrightarrow> ?thesis" using publish_inv by simp
next
  case OpTeardown
  then show "mqtt_inv cfg st \<Longrightarrow> ?thesis" using teardown_inv by fastforce
next
  case OpLost
  then show "mqtt_inv cfg st \<Longrightarrow> ?thesis" by (simp add: link_lost_def mqtt_inv_def objects_ok_def client_ok_def)
qed

lemma mqtt_reach_inv: "mqtt_reach cfg lfs st \<Longrightarrow> 0 < EMQX_ENDPOINT_COUNT cfg \<Longrightarrow> mqtt_inv cfg st"
proof (induction rule: mqtt_reach.induct)
  case reach_init
  then show ?case by (rule mqtt_init_inv)
next
  case (reach_step st op st')
  then show ?case using mqtt_do_inv [of cfg st op lfs] by auto
qed

section \<open>Properties of the session\<close>

text \<open>(C9) Memory safety of the session over every order of its operations, starting from power-up and
  with the link breaking at any moment: no operation is undefined, that is, no deleted object is used
  in a handshake or deleted again and no endpoint slot outside the table is read; nothing leaks, at
  most the three current objects exist; and while a connection is up the common name is set and the
  client uses the current objects.\<close>

theorem mqtt_session_safe:
  fixes st :: mqtt and lfs :: "'f littlefs"
  assumes "mqtt_reach cfg lfs st" and "0 < EMQX_ENDPOINT_COUNT cfg"
  shows "(\<forall>op. \<not> op_ok op \<or> mqtt_do cfg lfs op st \<noteq> None) \<and> card (dom (objs st)) \<le> 3 \<and> s_current_ep st < EMQX_ENDPOINT_COUNT cfg \<and>
    (\<not> mqtt_up st \<or> s_cn st \<noteq> [] \<and> client_ok st \<and> card (dom (objs st)) = 3)"
proof -
  have inv: "mqtt_inv cfg st" using assms by (rule mqtt_reach_inv)
  then have "\<forall>op. \<not> op_ok op \<or> mqtt_do cfg lfs op st \<noteq> None" using mqtt_do_inv by (metis option.distinct(1))
  moreover have "card (dom (objs st)) \<le> 3" "client_ok st \<Longrightarrow> card (dom (objs st)) = 3"
    using inv by (auto simp: mqtt_inv_def objects_ok_def client_ok_def)
  ultimately show ?thesis using inv by (auto simp: mqtt_inv_def)
qed

theorem mqtt_session_safe_witness:
  "mqtt_do config_example map_lfs OpTeardown mqtt_init \<noteq> None \<and> 0 < EMQX_ENDPOINT_COUNT config_example"
proof -
  have c: "0 < EMQX_ENDPOINT_COUNT config_example" by (simp add: EMQX_ENDPOINT_COUNT_def config_example_def)
  have "op_ok (OpTeardown :: (path \<rightharpoonup> string) mqtt_op)" by simp
  then show ?thesis using mqtt_session_safe [OF reach_init [of config_example map_lfs] c] c by blast
qed

text \<open>(C10) Entering operation: from any state with the invariant the function returns true exactly when the
  CA, certificate and key files are there and some broker slot accepts; it then stays on the first
  accepting slot in round-robin order from the current one, with a common name set. Whenever the
  files are there the client is set up to verify against the CA file and to present leaf plus
  intermediate with the device key; without them the client is left alone.\<close>

theorem setup_operational_correct:
  assumes "mqtt_inv cfg st" and "6 \<le> length m"
  shows "\<exists>ok st'. setup_operational cfg lfs fs m net st = Some (ok, st') \<and> mqtt_up st' = ok \<and>
    ok = (assets_present lfs fs \<and> (\<exists>slot < EMQX_ENDPOINT_COUNT cfg. accepts cfg net slot)) \<and>
    (ok \<longrightarrow> List.find (accepts cfg net) (slots_from cfg (s_current_ep st)) = Some (s_current_ep st') \<and> s_cn st' \<noteq> []) \<and>
    (if assets_present lfs fs
     then Option.bind (sec_anchors st') (objs st') = Some (read_file lfs fs PATH_CA_CERT) \<and>
       Option.bind (sec_chain st') (objs st') = Some (read_file lfs fs PATH_DEV_CERT @ read_file lfs fs PATH_DEV_CHAIN) \<and>
       Option.bind (sec_key st') (objs st') = Some (read_file lfs fs PATH_DEV_KEY)
     else st' = st\<lparr>mqtt_up := False\<rparr>)"
proof -
  have o: "objects_ok st" and c: "s_current_ep st < EMQX_ENDPOINT_COUNT cfg" using assms(1) by (simp_all add: mqtt_inv_def)
  note eq = setup_operational_eq [OF o assms(2), of cfg lfs fs net] and cn = session_of_inv(2) [OF assms, of lfs fs]
  show ?thesis
  proof (cases "assets_present lfs fs")
    case False
    then show ?thesis by (intro exI [of _ False]) (simp add: eq)
  next
    case True
    show ?thesis
    proof (cases "List.find (accepts cfg net) (slots_from cfg (s_current_ep st))")
      case None
      then have "\<not> (\<exists>slot < EMQX_ENDPOINT_COUNT cfg. accepts cfg net slot)"
        using slots_from_set [OF c] by (auto simp: find_None_iff)
      then show ?thesis using True None by (simp add: eq Let_def session_of_def)
    next
      case (Some idx)
      then show ?thesis using True find_slot [OF Some] cn by (auto simp: eq Let_def session_of_def)
    qed
  qed
qed

definition demo_fs :: "path \<rightharpoonup> string" where
  "demo_fs = [PATH_CA_CERT \<mapsto> ''ca'', PATH_DEV_CERT \<mapsto> ''leaf'', PATH_DEV_CHAIN \<mapsto> ''inter'', PATH_DEV_KEY \<mapsto> ''key'']"

definition demo_net :: net where
  "demo_net = \<lparr> net_ip_ok = (\<lambda>_. True), net_tcp = (\<lambda>i. i = 1), net_tls = (\<lambda>_. True), net_mqtt = (\<lambda>_. True) \<rparr>"

lemma demo_count: "0 < EMQX_ENDPOINT_COUNT config_example" "EMQX_ENDPOINT_COUNT config_example = 2"
  by (simp_all add: EMQX_ENDPOINT_COUNT_def config_example_def)

theorem setup_operational_correct_witness:
  "\<exists>st'. setup_operational config_example map_lfs demo_fs [0, 0, 0, 1, 2, 3] demo_net mqtt_init = Some (True, st') \<and>
     Option.bind (sec_chain st') (objs st') = Some ''leafinter''"
proof -
  have "assets_present map_lfs demo_fs" "read_file map_lfs demo_fs PATH_DEV_CERT @ read_file map_lfs demo_fs PATH_DEV_CHAIN = ''leafinter''"
    by (simp_all add: assets_present_def read_file_def map_lfs_def demo_fs_def path_defs)
  moreover have "accepts config_example demo_net 1" by (simp add: accepts_def demo_net_def config_example_def)
  ultimately show ?thesis
    using setup_operational_correct [OF mqtt_init_inv [OF demo_count(1)], of "[0, 0, 0, 1, 2, 3]" map_lfs demo_fs demo_net] demo_count(2)
    by auto
qed


section \<open>Reconnecting\<close>

text \<open>Call times at least five seconds apart, in the 32-bit clock of the device.\<close>

fun spaced :: "u32 \<Rightarrow> u32 list \<Rightarrow> bool" where
  "spaced t0 [] = True"
| "spaced t0 (t # ts) = (5000 \<le> t - t0 \<and> spaced t ts)"

abbreviation loop_at :: "config \<Rightarrow> net \<Rightarrow> mqtt \<Rightarrow> u32 \<Rightarrow> mqtt option" where
  "loop_at cfg net st t \<equiv> mqtt_session_loop cfg t net st"

lemma loop_stays_up: "mqtt_up st \<Longrightarrow> run_steps (loop_at cfg net) st ts = Some st"
  by (induction ts) (simp_all add: mqtt_session_loop_def)

lemma reconnect_reaches:
  assumes "mqtt_inv cfg st" "\<not> mqtt_up st" "s_cn st \<noteq> []"
    and "\<forall>ep \<in> set (EMQX_ENDPOINTS cfg). net_ip_ok net (ep_ip ep)"
    and "net_mqtt net ((s_current_ep st + k) mod EMQX_ENDPOINT_COUNT cfg)" "spaced (s_last_reconn st) ts" "k < length ts"
  shows "\<exists>st'. run_steps (loop_at cfg net) st ts = Some st' \<and> mqtt_up st'"
  using assms
proof (induction ts arbitrary: st k)
  case (Cons t ts)
  have c: "s_current_ep st < EMQX_ENDPOINT_COUNT cfg" using Cons.prems(1) by (simp add: mqtt_inv_def)
  then have ip: "net_ip_ok net (ep_ip (EMQX_ENDPOINTS cfg ! s_current_ep st))"
    using Cons.prems(4) by (simp add: EMQX_ENDPOINT_COUNT_def)
  have t: "\<not> t - s_last_reconn st < 5000" using Cons.prems(6) by (simp add: not_less)
  note eq = mqtt_session_loop_eq [OF Cons.prems(1), of t net]
  show ?case
  proof (cases "net_mqtt net (s_current_ep st)")
    case True
    then show ?thesis using Cons.prems ip t by (simp add: eq loop_stays_up)
  next
    case False
    let ?st = "st\<lparr>s_last_reconn := t, mqtt_up := False, s_current_ep := (s_current_ep st + 1) mod EMQX_ENDPOINT_COUNT cfg\<rparr>"
    have step: "mqtt_session_loop cfg t net st = Some ?st" using eq False Cons.prems(2,3) ip t by simp
    then have inv: "mqtt_inv cfg ?st" using mqtt_session_loop_inv [OF Cons.prems(1), of t net] by simp
    obtain j where j: "k = Suc j" using False Cons.prems(5) c by (cases k) auto
    have "net_mqtt net ((s_current_ep ?st + j) mod EMQX_ENDPOINT_COUNT cfg)"
      using Cons.prems(5) by (simp add: j mod_add_left_eq)
    then have "\<exists>st'. run_steps (loop_at cfg net) ?st ts = Some st' \<and> mqtt_up st'"
      using Cons.IH [OF inv] Cons.prems(3,4,6,7) j by simp
    then show ?thesis by (simp add: step)
  qed
qed simp

lemma slot_offset: "cur < n \<Longrightarrow> slot < n \<Longrightarrow> \<exists>k < n. (cur + k) mod n = (slot :: nat)"
proof -
  assume a: "cur < n" "slot < n"
  have "(cur + (n - cur + slot) mod n) mod n = (cur + (n - cur + slot)) mod n" by (rule mod_add_right_eq)
  also have "\<dots> = slot" using a by simp
  finally show ?thesis using a by (intro exI [of _ "(n - cur + slot) mod n"]) simp
qed

text \<open>(C17) Failover: while the connection is down in operation, if all configured addresses are valid and
  one broker accepts, then as many calls of the loop function as there are slots, five seconds or
  more apart, end with a connection, whichever slot was current.\<close>

theorem mqtt_failover:
  assumes "mqtt_inv cfg st" and "\<not> mqtt_up st" and "s_cn st \<noteq> []"
    and "\<forall>ep \<in> set (EMQX_ENDPOINTS cfg). net_ip_ok net (ep_ip ep)"
    and "slot < EMQX_ENDPOINT_COUNT cfg" and "net_mqtt net slot"
    and "spaced (s_last_reconn st) ts" and "length ts = EMQX_ENDPOINT_COUNT cfg"
  shows "\<exists>st'. run_steps (\<lambda>st t. mqtt_session_loop cfg t net st) st ts = Some st' \<and> mqtt_up st'"
proof -
  have "s_current_ep st < EMQX_ENDPOINT_COUNT cfg" using assms(1) by (simp add: mqtt_inv_def)
  then obtain k where "k < length ts" "(s_current_ep st + k) mod EMQX_ENDPOINT_COUNT cfg = slot"
    using slot_offset assms(5,8) by metis
  then show ?thesis using reconnect_reaches [OF assms(1-4), of k ts] assms(6,7) by simp
qed

definition demo_session :: mqtt where
  "demo_session = session_of config_example map_lfs demo_fs [0, 0, 0, 1, 2, 3] mqtt_init"

lemma demo_session_inv: "mqtt_inv config_example demo_session" "s_cn demo_session \<noteq> []"
  unfolding demo_session_def
  by (rule session_of_inv [OF mqtt_init_inv [OF demo_count(1)]], simp)+

theorem mqtt_failover_witness:
  "\<exists>st'. run_steps (\<lambda>st t. mqtt_session_loop config_example t (demo_net\<lparr>net_mqtt := (\<lambda>i. i = 1)\<rparr>) st) demo_session [6000, 12000] = Some st' \<and> mqtt_up st'"
proof (rule mqtt_failover [of config_example demo_session _ 1 "[6000, 12000]"])
  show "mqtt_inv config_example demo_session" "s_cn demo_session \<noteq> []" by (rule demo_session_inv)+
  show "\<not> mqtt_up demo_session" "spaced (s_last_reconn demo_session) [6000, 12000]"
    by (simp_all add: demo_session_def session_of_def mqtt_init_def Let_def)
qed (simp_all add: demo_net_def demo_count)

text \<open>(C35) A slot with an address text that does not parse stops the rotation: no number of calls leaves
  that slot or connects, although other slots may accept.\<close>

theorem mqtt_bad_slot_stuck:
  assumes "mqtt_inv cfg st" and "\<not> mqtt_up st"
    and "\<not> net_ip_ok net (ep_ip (EMQX_ENDPOINTS cfg ! s_current_ep st))"
  shows "\<exists>st'. run_steps (\<lambda>st t. mqtt_session_loop cfg t net st) st ts = Some st' \<and>
    \<not> mqtt_up st' \<and> s_current_ep st' = s_current_ep st"
  using assms
proof (induction ts arbitrary: st)
  case (Cons t ts)
  obtain st1 where st1: "mqtt_session_loop cfg t net st = Some st1" "mqtt_inv cfg st1"
    using mqtt_session_loop_inv [OF Cons.prems(1)] by blast
  then have "\<not> mqtt_up st1 \<and> s_current_ep st1 = s_current_ep st"
    using mqtt_session_loop_eq [OF Cons.prems(1), of t net] Cons.prems(2,3) by (auto split: if_splits)
  then show ?case using Cons.IH [of st1] st1 Cons.prems(3) by simp
qed simp

theorem mqtt_bad_slot_stuck_witness:
  "\<exists>st'. run_steps (\<lambda>st t. mqtt_session_loop config_example t (demo_net\<lparr>net_ip_ok := (\<lambda>_. False)\<rparr>) st) demo_session [6000, 12000] = Some st' \<and>
    \<not> mqtt_up st' \<and> s_current_ep st' = s_current_ep demo_session"
proof (rule mqtt_bad_slot_stuck)
  show "mqtt_inv config_example demo_session" by (rule demo_session_inv)
qed (simp_all add: demo_session_def session_of_def mqtt_init_def Let_def)

text \<open>(C22) Publishing, with plausible readings and a BSSID text that needs no escape: unless the connection
  is up and a name is set, nothing is handed to the MQTT client. Otherwise one message is, on the
  device's own topic \<open>sensors/<cn>/occupancy\<close>, complete in its 64-byte buffer, and only in the ACL test
  build a second one with the same payload on the foreign topic. A strict JSON reader reads the payload
  as \<open>occupied\<close> true exactly when the sensor says so, with the time, the BSSID and the RSSI. The session is
  otherwise left as it was.\<close>

theorem publish_occupancy_correct:
  assumes "mqtt_inv cfg st" and "readings_ok now bssid rssi" and "bare bssid" and "NUL \<notin> set (s_cn st)"
  shows "\<exists>payload. json_of payload = Some (JObj
       [(''occupied'', JBool (read_occupancy sens \<noteq> 0)), (''timestamp'', JStr (strftime_rfc3339 (gmtime now))),
        (''bssid'', JStr bssid), (''rssi'', JInt rssi)]) \<and>
    publish_occupancy cfg now bssid rssi sens st = Some (st\<lparr>publish_calls := publish_calls st @
      (if \<not> mqtt_up st \<or> s_cn st = [] then []
       else (''sensors/'' @ s_cn st @ ''/occupancy'', payload) #
         (if TEST_FOREIGN_TOPIC cfg then [(''sensors/device-ffffff/occupancy'', payload)] else []))\<rparr>)"
proof -
  obtain ts p where p: "build_sensor_payload 160 now bssid rssi sens = Some (p, length p)"
      "p = payload_text (currentOccupancy sens) ts bssid rssi" "to_rfc3339_utc now 32 = Some ts"
    using sensor_payload_fits [of now bssid rssi sens] assms(2) by (auto simp: readings_ok_def)
  have "ts = strftime_rfc3339 (gmtime now)" using p(3) by (simp add: to_rfc3339_utc_def Let_def split: if_splits)
  then have j: "json_of p = Some (payload_value (read_occupancy sens \<noteq> 0) (strftime_rfc3339 (gmtime now)) bssid rssi)"
    using payload_json [OF rfc3339_bare assms(3)] p(2) by (simp add: read_occupancy_def)
  have "length (s_cn st) < 32" using assms(1) by (simp add: mqtt_inv_def)
  then have own: "snprintf_str 64 (MQTT_TOPIC_FMT (s_cn st)) = ''sensors/'' @ s_cn st @ ''/occupancy''"
    using assms(4) snprintf_str_fits [of "MQTT_TOPIC_FMT (s_cn st)" 64] by (simp add: MQTT_TOPIC_FMT_def)
  have foreign: "snprintf_str 64 (MQTT_TOPIC_FMT FOREIGN_DEVICE_ID) = ''sensors/device-ffffff/occupancy''"
    by (simp add: MQTT_TOPIC_FMT_def FOREIGN_DEVICE_ID_def snprintf_str_fits)
  show ?thesis using p(1) j own foreign by (intro exI [of _ p]) (cases st, simp add: publish_occupancy_def payload_value_def Let_def)
qed

lemma demo_session_cn: "s_cn demo_session = ''device-010203''"
  by code_simp

theorem publish_occupancy_correct_witness:
  "\<exists>payload st'. publish_occupancy config_example 1767225600 ''aa:bb:cc:dd:ee:ff'' (-67) (sensor_init\<lparr>currentOccupancy := 1\<rparr>)
       (demo_session\<lparr>mqtt_up := True\<rparr>) = Some st' \<and> publish_calls st' = [(''sensors/device-010203/occupancy'', payload)] \<and>
     json_of payload = Some (JObj [(''occupied'', JBool True), (''timestamp'', JStr (strftime_rfc3339 (gmtime 1767225600))),
       (''bssid'', JStr ''aa:bb:cc:dd:ee:ff''), (''rssi'', JInt (-67))])"
proof -
  let ?st = "demo_session\<lparr>mqtt_up := True\<rparr>"
  have inv: "mqtt_inv config_example ?st"
    using demo_session_inv by (simp add: mqtt_inv_def objects_ok_def client_ok_def)
  have "readings_ok 1767225600 ''aa:bb:cc:dd:ee:ff'' (-67)" "bare ''aa:bb:cc:dd:ee:ff''" by (simp_all add: readings_ok_def is_control_def)
  moreover have "s_cn ?st = ''device-010203''" "publish_calls ?st = []" "mqtt_up ?st" "\<not> TEST_FOREIGN_TOPIC config_example"
    using demo_session_cn by (simp_all add: demo_session_def session_of_def mqtt_init_def Let_def config_example_def)
  ultimately show ?thesis
    using publish_occupancy_correct [OF inv, of 1767225600 "''aa:bb:cc:dd:ee:ff''" "-67" "sensor_init\<lparr>currentOccupancy := 1\<rparr>"]
    by (auto simp: read_occupancy_def)
qed

end
