(* ===== verification/Wifi_Session.thy ===== *)
theory Wifi_Session
  imports Config "HOL-Library.Multiset"
begin

text \<open>
  WiFi access point selection, \<open>wifi_session.cpp\<close>: the blacklist of dead access points that
  survives a soft reboot in RTC memory, the order in which the scanned access points are tried, and
  the loop that associates, probes the brokers and locks or rotates. Scan results, clock readings,
  link states and TCP connection results are inputs.
\<close>

section \<open>The blacklist\<close>

definition MAX_MATCH :: nat where "MAX_MATCH = 12"
definition RTC_MAGIC :: u32 where "RTC_MAGIC = 0x42424C31"
definition BL_CAP :: nat where "BL_CAP = 8"

record Bl =
  magic :: u32
  bl_count :: u32
  mac :: "bytes list"

text \<open>
  \<open>s_bl\<close> is the static variable, \<open>rtc\<close> the 56 bytes at \<open>RTC_OFFSET\<close> of the user memory seen as
  the same structure, \<open>link\<close> the scan index of the access point the station is associated with.
\<close>

record wifi =
  s_bl :: Bl
  rtc :: Bl
  link :: "nat option"

definition bl_load :: "wifi \<Rightarrow> wifi" where
  "bl_load st =
     (let b = rtc st in
      if magic b \<noteq> RTC_MAGIC \<or> bl_count b > of_nat BL_CAP
      then st\<lparr>s_bl := b\<lparr>magic := RTC_MAGIC, bl_count := 0\<rparr>\<rparr>
      else st\<lparr>s_bl := b\<rparr>)"

definition bl_save :: "wifi \<Rightarrow> wifi" where
  "bl_save st = st\<lparr>rtc := s_bl st\<rparr>"

function bl_has_from :: "Bl \<Rightarrow> bytes \<Rightarrow> nat \<Rightarrow> bool option" where
  "bl_has_from b m i =
     (if i < unat (bl_count b) then do {
        e \<leftarrow> rd (mac b) i;
        if e = m then Some True else bl_has_from b m (Suc i)
      } else Some False)"
  by pat_completeness auto
termination
  by (relation "measure (\<lambda>(b, m, i). unat (bl_count b) - i)") auto

declare bl_has_from.simps [simp del]

definition bl_has :: "wifi \<Rightarrow> bytes \<Rightarrow> bool option" where
  "bl_has st m = bl_has_from (s_bl st) m 0"

definition bl_add :: "wifi \<Rightarrow> bytes \<Rightarrow> wifi option" where
  "bl_add st m = do {
     h \<leftarrow> bl_has st m;
     if h then Some st
     else if bl_count (s_bl st) < of_nat BL_CAP then do {
       macs \<leftarrow> wr (mac (s_bl st)) (unat (bl_count (s_bl st))) m;
       Some (bl_save (st\<lparr>s_bl := (s_bl st)\<lparr>mac := macs, bl_count := bl_count (s_bl st) + 1\<rparr>\<rparr>))
     } else do {
       shifted \<leftarrow> rd_n (BL_CAP - 1) (drop 1 (mac (s_bl st)));
       macs \<leftarrow> put_buf BL_CAP (shifted @ drop (BL_CAP - 1) (mac (s_bl st)));
       macs \<leftarrow> wr macs (BL_CAP - 1) m;
       Some (bl_save (st\<lparr>s_bl := (s_bl st)\<lparr>mac := macs\<rparr>\<rparr>))
     }
   }"

section \<open>Reachability of a broker\<close>

text \<open>\<open>ip_ok\<close> is \<open>IPAddress::fromString\<close>, \<open>tcp\<close> whether the TCP connection to slot \<open>i\<close> opens.\<close>

fun probe_from :: "(string \<Rightarrow> bool) \<Rightarrow> (nat \<Rightarrow> bool) \<Rightarrow> nat \<Rightarrow> emqx_endpoint list \<Rightarrow> bool" where
  "probe_from ip_ok tcp i [] = False"
| "probe_from ip_ok tcp i (e # es) =
     (if \<not> ip_ok (ep_ip e) then probe_from ip_ok tcp (Suc i) es
      else if tcp i then True
      else probe_from ip_ok tcp (Suc i) es)"

definition probe_emqx :: "config \<Rightarrow> (string \<Rightarrow> bool) \<Rightarrow> (nat \<Rightarrow> bool) \<Rightarrow> bool" where
  "probe_emqx cfg ip_ok tcp = probe_from ip_ok tcp 0 (EMQX_ENDPOINTS cfg)"

section \<open>Choosing and trying access points\<close>

record ap =
  SSID :: string
  RSSI :: int
  BSSID :: bytes
  channel :: int

function match_ssid :: "config \<Rightarrow> ap list \<Rightarrow> nat \<Rightarrow> nat list \<Rightarrow> nat list" where
  "match_ssid cfg aps i order =
     (if i < length aps \<and> length order < MAX_MATCH
      then match_ssid cfg aps (Suc i) (if SSID (aps ! i) = WIFI_SSID cfg then order @ [i] else order)
      else order)"
  by pat_completeness auto
termination
  by (relation "measure (\<lambda>(cfg, aps, i, order). length aps - i)") auto

declare match_ssid.simps [simp del]

definition swap :: "'a list \<Rightarrow> nat \<Rightarrow> nat \<Rightarrow> 'a list" where
  "swap xs a b = xs[a := xs ! b, b := xs ! a]"

function sort_inner :: "ap list \<Rightarrow> nat \<Rightarrow> nat \<Rightarrow> nat \<Rightarrow> nat list \<Rightarrow> nat list" where
  "sort_inner aps m a b order =
     (if b < m
      then sort_inner aps m a (Suc b)
             (if RSSI (aps ! (order ! b)) > RSSI (aps ! (order ! a)) then swap order a b else order)
      else order)"
  by pat_completeness auto
termination
  by (relation "measure (\<lambda>(aps, m, a, b, order). m - b)") auto

function sort_outer :: "ap list \<Rightarrow> nat \<Rightarrow> nat \<Rightarrow> nat list \<Rightarrow> nat list" where
  "sort_outer aps m a order =
     (if a < m then sort_outer aps m (Suc a) (sort_inner aps m a (Suc a) order) else order)"
  by pat_completeness auto
termination
  by (relation "measure (\<lambda>(aps, m, a, order). m - a)") auto

declare sort_inner.simps [simp del] sort_outer.simps [simp del]

text \<open>The wait for the association: one sample is \<open>millis()\<close> and whether the link is up.\<close>

fun assoc_loop :: "u32 \<Rightarrow> (u32 \<times> bool) list \<Rightarrow> bool option" where
  "assoc_loop t0 [] = None"
| "assoc_loop t0 ((t, up) # samples) =
     (if t - t0 < WIFI_ASSOC_TIMEOUT_MS
      then if up then Some True else assoc_loop t0 samples
      else Some False)"

text \<open>What the outside does while the access point with scan index \<open>i\<close> is tried.\<close>

record wifi_env =
  we_ip_ok :: "string \<Rightarrow> bool"
  we_t0 :: "nat \<Rightarrow> u32"
  we_poll :: "nat \<Rightarrow> (u32 \<times> bool) list"
  we_tcp :: "nat \<Rightarrow> nat \<Rightarrow> bool"

definition all_blacklisted :: "wifi \<Rightarrow> ap list \<Rightarrow> nat list \<Rightarrow> bool option" where
  "all_blacklisted st aps order =
     foldr (\<lambda>i rest. do { h \<leftarrow> bl_has st (BSSID (aps ! i)); if \<not> h then Some False else rest }) order
       (Some (order \<noteq> []))"

text \<open>The blacklist functions work on an array, the association wait on samples: three outcomes.\<close>

fun try_aps :: "config \<Rightarrow> wifi_env \<Rightarrow> ap list \<Rightarrow> nat list \<Rightarrow> wifi \<Rightarrow> (nat option \<times> wifi) exec" where
  "try_aps cfg env aps [] st = Done (None, st)"
| "try_aps cfg env aps (i # order) st =
     (let bssid = BSSID (aps ! i) in
      exec_then (checked (bl_has st bssid)) (\<lambda>h.
      if h then try_aps cfg env aps order st
      else
        exec_then (awaited (assoc_loop (we_t0 env i) (we_poll env i))) (\<lambda>assoc.
        if \<not> assoc then try_aps cfg env aps order (st\<lparr>link := None\<rparr>)
        else if probe_emqx cfg (we_ip_ok env) (we_tcp env i) then Done (Some i, st\<lparr>link := Some i\<rparr>)
        else
          exec_then (checked (bl_add st bssid)) (\<lambda>st.
          try_aps cfg env aps order (st\<lparr>link := None\<rparr>)))))"

definition ap_order :: "config \<Rightarrow> ap list \<Rightarrow> nat list" where
  "ap_order cfg aps = (let order = match_ssid cfg aps 0 [] in sort_outer aps (length order) 0 order)"

text \<open>
  The function returns true exactly when an access point is locked; the model also says which.
  A scan that fails or finds nothing is the empty list.
\<close>

definition wifi_connect_best :: "config \<Rightarrow> wifi_env \<Rightarrow> ap list \<Rightarrow> wifi \<Rightarrow> (nat option \<times> wifi) exec" where
  "wifi_connect_best cfg env aps st =
     (let st = (bl_load st)\<lparr>link := None\<rparr> in
      if length aps = 0 then Done (None, st)
      else
        let order = ap_order cfg aps in
        exec_then (checked (all_blacklisted st aps order)) (\<lambda>all_bl.
        let st = (if all_bl then bl_save (st\<lparr>s_bl := (s_bl st)\<lparr>bl_count := 0\<rparr>\<rparr>) else st) in
        try_aps cfg env aps order st))"

section \<open>The blacklist as a bounded queue\<close>

definition fifo_push :: "nat \<Rightarrow> 'm list \<Rightarrow> 'm \<Rightarrow> 'm list" where
  "fifo_push cap xs m = (if m \<in> set xs then xs else if length xs < cap then xs @ [m] else tl xs @ [m])"

lemma fifo_push_length: "length xs \<le> cap \<Longrightarrow> 0 < cap \<Longrightarrow> length (fifo_push cap xs m) \<le> cap"
  by (auto simp: fifo_push_def)

lemma fifo_push_has: "m \<in> set (fifo_push cap xs m)"
  by (simp add: fifo_push_def)

lemma fifo_push_subset: "set (fifo_push cap xs m) \<subseteq> insert m (set xs)"
  by (cases xs) (auto simp: fifo_push_def)

text \<open>
  The contract the selection loop relies on: a list of dead access points that answers membership,
  whose add never fails and pushes into a queue of \<open>cap\<close> entries, dropping the oldest.
\<close>

locale dead_list =
  fixes has :: "'s \<Rightarrow> 'm \<Rightarrow> bool option" and add :: "'s \<Rightarrow> 'm \<Rightarrow> 's option" and ok :: "'s \<Rightarrow> bool"
    and entries :: "'s \<Rightarrow> 'm list" and cap :: nat
  assumes has_entries: "ok s \<Longrightarrow> has s m = Some (m \<in> set (entries s))"
    and add_entries: "ok s \<Longrightarrow> \<exists>s'. add s m = Some s' \<and> ok s' \<and> entries s' = fifo_push cap (entries s) m"
    and bounded: "ok s \<Longrightarrow> length (entries s) \<le> cap"
    and cap_pos: "0 < cap"
begin

lemma has_after_add:
  assumes "ok s"
  shows "\<exists>s'. add s m = Some s' \<and> ok s' \<and> has s' m = Some True"
proof -
  obtain s' where "add s m = Some s'" "ok s'" "entries s' = fifo_push cap (entries s) m"
    using add_entries [OF assms] by blast
  moreover have "m \<in> set (fifo_push cap (entries s) m)" by (rule fifo_push_has)
  ultimately show ?thesis using has_entries by simp
qed

text \<open>Below the capacity nothing that was recorded is forgotten.\<close>

lemma add_keeps:
  assumes "ok s" "length (entries s) < cap" "has s n = Some True"
  shows "\<exists>s'. add s m = Some s' \<and> ok s' \<and> has s' n = Some True"
proof -
  obtain s' where s': "add s m = Some s'" "ok s'" "entries s' = fifo_push cap (entries s) m"
    using add_entries [OF assms(1)] by blast
  have "n \<in> set (entries s)" using assms(1,3) has_entries by simp
  then have "n \<in> set (entries s')" using s'(3) assms(2) by (simp add: fifo_push_def)
  then show ?thesis using s' has_entries by simp
qed

end

sublocale dead_list \<subseteq> adds: step_refinement add ok entries "fifo_push cap"
  using add_entries by unfold_locales blast

definition bl_ok :: "wifi \<Rightarrow> bool" where
  "bl_ok st \<longleftrightarrow> length (mac (s_bl st)) = BL_CAP \<and> magic (s_bl st) = RTC_MAGIC \<and> unat (bl_count (s_bl st)) \<le> BL_CAP"

definition bl_entries :: "wifi \<Rightarrow> bytes list" where
  "bl_entries st = take (unat (bl_count (s_bl st))) (mac (s_bl st))"

lemma bl_has_from_set:
  assumes "length (mac b) = BL_CAP" "unat (bl_count b) \<le> BL_CAP"
  shows "bl_has_from b m i = Some (m \<in> set (drop i (take (unat (bl_count b)) (mac b))))"
proof (induction "unat (bl_count b) - i" arbitrary: i)
  case 0
  then show ?case by (simp add: bl_has_from.simps [of b m i])
next
  case (Suc k)
  then have i: "i < unat (bl_count b)" by simp
  then have "drop i (take (unat (bl_count b)) (mac b)) = mac b ! i # drop (Suc i) (take (unat (bl_count b)) (mac b))"
    using assms by (simp add: Cons_nth_drop_Suc [symmetric])
  with Suc i assms show ?case by (auto simp: bl_has_from.simps [of b m i] mem_simps)
qed

lemma bl_has_spec: "bl_ok st \<Longrightarrow> bl_has st m = Some (m \<in> set (bl_entries st))"
  using bl_has_from_set [of "s_bl st" m 0] by (simp add: bl_has_def bl_ok_def bl_entries_def)

lemma u32_less_8: "(c :: u32) < 8 \<longleftrightarrow> unat c < 8" "8 < c \<longleftrightarrow> 8 < unat c"
  by (simp_all add: word_less_nat_alt)

lemma bl_add_spec:
  assumes "bl_ok st"
  shows "\<exists>st'. bl_add st m = Some st' \<and> bl_ok st' \<and> bl_entries st' = fifo_push BL_CAP (bl_entries st) m \<and>
    link st' = link st \<and> (m \<in> set (bl_entries st) \<and> st' = st \<or> rtc st' = s_bl st')"
proof -
  let ?c = "bl_count (s_bl st)" and ?l = "mac (s_bl st)"
  have ok: "length ?l = 8" "unat ?c \<le> 8" "magic (s_bl st) = RTC_MAGIC" using assms by (auto simp: bl_ok_def BL_CAP_def)
  consider "m \<in> set (bl_entries st)" | "m \<notin> set (bl_entries st)" "unat ?c < 8" | "m \<notin> set (bl_entries st)" "unat ?c = 8"
    using ok(2) by linarith
  then show ?thesis
  proof cases
    case 1
    then show ?thesis using assms by (simp add: bl_add_def bl_has_spec fifo_push_def)
  next
    case 2
    have u: "unat (?c + 1) = Suc (unat ?c)" using 2(2) by (simp add: unat_word_ariths)
    let ?st = "bl_save (st\<lparr>s_bl := (s_bl st)\<lparr>mac := ?l[unat ?c := m], bl_count := ?c + 1\<rparr>\<rparr>)"
    have "bl_add st m = Some ?st"
      using assms ok 2 by (simp add: bl_add_def bl_has_spec BL_CAP_def u32_less_8 mem_simps)
    moreover have "bl_entries ?st = bl_entries st @ [m]"
      using ok 2(2) u by (simp add: bl_entries_def bl_save_def take_Suc_conv_app_nth)
    ultimately show ?thesis using ok 2 u by (auto simp: bl_ok_def BL_CAP_def bl_save_def fifo_push_def bl_entries_def)
  next
    case 3
    let ?macs = "(take 7 (drop 1 ?l) @ drop 7 ?l)[7 := m]"
    let ?st = "bl_save (st\<lparr>s_bl := (s_bl st)\<lparr>mac := ?macs\<rparr>\<rparr>)"
    have r: "bl_add st m = Some ?st"
      using assms ok 3 by (simp add: bl_add_def bl_has_spec BL_CAP_def u32_less_8 mem_simps)
    have m: "?macs = tl ?l @ [m]" using ok(1) by (auto simp: list_eq_iff_nth_eq nth_append nth_list_update nth_tl)
    then have "bl_entries ?st = tl (bl_entries st) @ [m]" using ok 3 by (simp add: bl_entries_def bl_save_def)
    moreover have "length (bl_entries st) = 8" using ok 3 by (simp add: bl_entries_def)
    ultimately show ?thesis using r m ok 3 by (auto simp: bl_ok_def BL_CAP_def bl_save_def fifo_push_def)
  qed
qed

interpretation bl: dead_list bl_has bl_add bl_ok bl_entries BL_CAP
proof unfold_locales
  show "bl_ok s \<Longrightarrow> bl_has s m = Some (m \<in> set (bl_entries s))" for s m by (rule bl_has_spec)
  show "bl_ok s \<Longrightarrow> \<exists>s'. bl_add s m = Some s' \<and> bl_ok s' \<and> bl_entries s' = fifo_push BL_CAP (bl_entries s) m" for s m
    using bl_add_spec by blast
qed (auto simp: bl_ok_def bl_entries_def BL_CAP_def)

lemma bl_load_ok: "length (mac (rtc st)) = BL_CAP \<Longrightarrow> bl_ok (bl_load st)"
  by (auto simp: bl_ok_def bl_load_def BL_CAP_def u32_less_8 Let_def)


section \<open>The order of the access points\<close>

abbreviation matches :: "config \<Rightarrow> ap list \<Rightarrow> nat \<Rightarrow> bool" where
  "matches cfg aps i \<equiv> SSID (aps ! i) = WIFI_SSID cfg"

lemma match_ssid_filter:
  "match_ssid cfg aps i order = order @ take (MAX_MATCH - length order) (filter (matches cfg aps) [i..<length aps])"
proof (induction "length aps - i" arbitrary: i order)
  case 0
  then show ?case by (simp add: match_ssid.simps [of cfg aps i])
next
  case (Suc k)
  then have i: "i < length aps" by simp
  then have u: "[i..<length aps] = i # [Suc i..<length aps]" by (simp add: upt_conv_Cons)
  have d: "length order < MAX_MATCH \<Longrightarrow> MAX_MATCH - length order = Suc (MAX_MATCH - Suc (length order))" by simp
  have "k = length aps - Suc i" using Suc(2) by simp
  note IH = Suc(1) [OF this]
  show ?case
    using i IH u d by (cases "length order < MAX_MATCH") (simp_all add: match_ssid.simps [of cfg aps i])
qed

lemma swap_mset: "a < length xs \<Longrightarrow> b < length xs \<Longrightarrow> mset (swap xs a b) = mset xs"
  unfolding swap_def by (rule mset_swap)

lemma sort_inner_spec:
  assumes "length xs = m" "a < m" "a < b" "\<forall>j. a < j \<and> j < b \<longrightarrow> RSSI (aps ! (xs ! j)) \<le> RSSI (aps ! (xs ! a))"
  defines "ys \<equiv> sort_inner aps m a b xs"
  shows "mset ys = mset xs \<and> (\<forall>i < a. ys ! i = xs ! i) \<and>
    (\<forall>j. a < j \<and> j < m \<longrightarrow> RSSI (aps ! (ys ! j)) \<le> RSSI (aps ! (ys ! a))) \<and>
    (\<forall>j. a \<le> j \<and> j < m \<longrightarrow> (\<exists>k. a \<le> k \<and> k < m \<and> ys ! j = xs ! k))"
  using assms(1-4) unfolding ys_def
proof (induction "m - b" arbitrary: b xs)
  case 0
  then show ?case by (auto simp: sort_inner.simps [of aps m a b])
next
  case (Suc n)
  then have b: "b < m" by simp
  let ?xs = "if RSSI (aps ! (xs ! b)) > RSSI (aps ! (xs ! a)) then swap xs a b else xs"
  have s: "sort_inner aps m a b xs = sort_inner aps m a (Suc b) ?xs"
    using b by (simp add: sort_inner.simps [of aps m a b])
  have l: "length ?xs = m" "mset ?xs = mset xs" using Suc.prems b swap_mset [of a xs b] by (simp add: swap_def, simp)
  have nth: "?xs ! j = (if RSSI (aps ! (xs ! b)) > RSSI (aps ! (xs ! a)) then (if j = b then xs ! a else if j = a then xs ! b else xs ! j) else xs ! j)"
    if "j < m" for j using that Suc.prems b by (simp add: swap_def nth_list_update)
  have mx: "\<forall>j. a < j \<and> j < Suc b \<longrightarrow> RSSI (aps ! (?xs ! j)) \<le> RSSI (aps ! (?xs ! a))"
  proof (intro allI impI)
    fix j
    assume j: "a < j \<and> j < Suc b"
    then have "j < b \<Longrightarrow> RSSI (aps ! (xs ! j)) \<le> RSSI (aps ! (xs ! a))" using Suc.prems(4) by blast
    then show "RSSI (aps ! (?xs ! j)) \<le> RSSI (aps ! (?xs ! a))"
      using nth [of j] nth [of a] j b Suc.prems(2,3) by (cases "j = b") (auto split: if_splits)
  qed
  have keep: "\<forall>i < a. ?xs ! i = xs ! i" using nth Suc.prems(2,3) by auto
  have origin: "\<exists>k. a \<le> k \<and> k < m \<and> ?xs ! j = xs ! k" if "a \<le> j" "j < m" for j
    using nth [OF that(2)] that b Suc.prems(2,3) by (cases "j = a"; cases "j = b") (auto intro: exI [of _ a] exI [of _ b] exI [of _ j])
  have IH: "mset (sort_inner aps m a (Suc b) ?xs) = mset ?xs \<and>
      (\<forall>i < a. sort_inner aps m a (Suc b) ?xs ! i = ?xs ! i) \<and>
      (\<forall>j. a < j \<and> j < m \<longrightarrow> RSSI (aps ! (sort_inner aps m a (Suc b) ?xs ! j)) \<le> RSSI (aps ! (sort_inner aps m a (Suc b) ?xs ! a))) \<and>
      (\<forall>j. a \<le> j \<and> j < m \<longrightarrow> (\<exists>k. a \<le> k \<and> k < m \<and> sort_inner aps m a (Suc b) ?xs ! j = ?xs ! k))"
    using Suc.hyps(2) Suc.prems(2,3) mx l(1) by (intro Suc.hyps(1)) auto
  then show ?case unfolding s using l(2) keep origin by (metis (no_types, lifting))
qed

lemma sort_outer_spec:
  assumes "length xs = m" "\<forall>i j. i < a \<and> i < j \<and> j < m \<longrightarrow> RSSI (aps ! (xs ! j)) \<le> RSSI (aps ! (xs ! i))"
  defines "ys \<equiv> sort_outer aps m a xs"
  shows "mset ys = mset xs \<and> (\<forall>i j. i < j \<and> j < m \<longrightarrow> RSSI (aps ! (ys ! j)) \<le> RSSI (aps ! (ys ! i)))"
  using assms(1,2) unfolding ys_def
proof (induction "m - a" arbitrary: a xs)
  case 0
  then have "\<not> a < m" by simp
  with 0 show ?case by (auto simp: sort_outer.simps [of aps m a])
next
  case (Suc n)
  then have a: "a < m" by simp
  let ?xs = "sort_inner aps m a (Suc a) xs"
  have I: "mset ?xs = mset xs" "\<forall>i < a. ?xs ! i = xs ! i"
      "\<forall>j. a < j \<and> j < m \<longrightarrow> RSSI (aps ! (?xs ! j)) \<le> RSSI (aps ! (?xs ! a))"
      "\<forall>j. a \<le> j \<and> j < m \<longrightarrow> (\<exists>k. a \<le> k \<and> k < m \<and> ?xs ! j = xs ! k)"
    using sort_inner_spec [OF Suc.prems(1) a, of "Suc a" aps] by auto
  have l: "length ?xs = m" using I(1) Suc.prems(1) by (metis size_mset)
  have "RSSI (aps ! (?xs ! j)) \<le> RSSI (aps ! (?xs ! i))" if h: "i < Suc a" "i < j" "j < m" for i j
  proof (cases "i = a")
    case False
    then have "i < a" using h by simp
    moreover obtain k where "k < m" "i < k" "?xs ! j = xs ! k"
    proof (cases "a \<le> j")
      case True
      then obtain k where "a \<le> k" "k < m" "?xs ! j = xs ! k" using I(4) h by blast
      with \<open>i < a\<close> that show ?thesis by simp
    qed (use I(2) h that in auto)
    ultimately show ?thesis using Suc.prems(2) I(2) by simp
  qed (use I(3) h in simp)
  then have "mset (sort_outer aps m (Suc a) ?xs) = mset ?xs \<and>
      (\<forall>i j. i < j \<and> j < m \<longrightarrow> RSSI (aps ! (sort_outer aps m (Suc a) ?xs ! j)) \<le> RSSI (aps ! (sort_outer aps m (Suc a) ?xs ! i)))"
    using Suc.hyps(2) l by (intro Suc.hyps(1)) auto
  then show ?case using a I(1) by (simp add: sort_outer.simps [of aps m a xs])
qed

lemma ap_order_mset: "mset (ap_order cfg aps) = mset (take MAX_MATCH (filter (matches cfg aps) [0..<length aps]))"
  using sort_outer_spec [of "match_ssid cfg aps 0 []" _ 0 aps] by (simp add: ap_order_def match_ssid_filter Let_def)

lemma ap_order_sorted: "sorted_wrt (\<lambda>i j. RSSI (aps ! j) \<le> RSSI (aps ! i)) (ap_order cfg aps)"
proof -
  let ?o = "match_ssid cfg aps 0 []"
  have "length (sort_outer aps (length ?o) 0 ?o) = length ?o"
    using sort_outer_spec [of ?o _ 0 aps] by (metis less_nat_zero_code size_mset)
  then show ?thesis using sort_outer_spec [of ?o _ 0 aps] by (simp add: ap_order_def Let_def sorted_wrt_iff_nth_less)
qed

lemma ap_order_set: "i \<in> set (ap_order cfg aps) \<Longrightarrow> i < length aps \<and> matches cfg aps i"
  using mset_eq_setD [OF ap_order_mset [of cfg aps]] by (auto dest: in_set_takeD)

lemma ap_order_distinct: "distinct (ap_order cfg aps)"
proof -
  have "distinct (take MAX_MATCH (filter (matches cfg aps) [0..<length aps]))" by simp
  then show ?thesis using ap_order_mset [of cfg aps] by (metis mset_eq_imp_distinct_iff)
qed

section \<open>The selection as a function of the environment\<close>

text \<open>
  \<open>ap_live\<close>: the access point associates in time and a broker answers behind it; \<open>ap_dead\<close>: it
  associates but no broker answers. \<open>select\<close> is the selection on the list of recorded dead access
  points, without buffers, memory or time.
\<close>

definition polls_end :: "wifi_env \<Rightarrow> nat \<Rightarrow> bool" where
  "polls_end env i \<longleftrightarrow> (\<exists>(t, up) \<in> set (we_poll env i). up \<or> WIFI_ASSOC_TIMEOUT_MS \<le> t - we_t0 env i)"

definition ap_assoc :: "wifi_env \<Rightarrow> nat \<Rightarrow> bool" where
  "ap_assoc env i \<longleftrightarrow> assoc_loop (we_t0 env i) (we_poll env i) = Some True"

definition ap_live :: "config \<Rightarrow> wifi_env \<Rightarrow> nat \<Rightarrow> bool" where
  "ap_live cfg env i \<longleftrightarrow> ap_assoc env i \<and> probe_emqx cfg (we_ip_ok env) (we_tcp env i)"

definition ap_dead :: "config \<Rightarrow> wifi_env \<Rightarrow> nat \<Rightarrow> bool" where
  "ap_dead cfg env i \<longleftrightarrow> ap_assoc env i \<and> \<not> probe_emqx cfg (we_ip_ok env) (we_tcp env i)"

fun select :: "(nat \<Rightarrow> bool) \<Rightarrow> (nat \<Rightarrow> bool) \<Rightarrow> (nat \<Rightarrow> bytes) \<Rightarrow> nat list \<Rightarrow> bytes list \<Rightarrow> nat option \<times> bytes list" where
  "select live dead key [] E = (None, E)"
| "select live dead key (i # order) E =
     (if key i \<in> set E then select live dead key order E
      else if live i then (Some i, E)
      else if dead i then select live dead key order (fifo_push BL_CAP E (key i))
      else select live dead key order E)"

text \<open>The list the selection starts from: what RTC memory holds, emptied when it would exclude
  every candidate.\<close>

definition start_entries :: "config \<Rightarrow> ap list \<Rightarrow> wifi \<Rightarrow> bytes list" where
  "start_entries cfg aps st =
     (let E = bl_entries (bl_load st) in
      if ap_order cfg aps \<noteq> [] \<and> (\<forall>i \<in> set (ap_order cfg aps). BSSID (aps ! i) \<in> set E) then [] else E)"

lemma assoc_loop_ends: "polls_end env i \<Longrightarrow> assoc_loop (we_t0 env i) (we_poll env i) = Some (ap_assoc env i)"
proof -
  have "(\<exists>(t, up) \<in> set xs. up \<or> WIFI_ASSOC_TIMEOUT_MS \<le> t - t0) \<Longrightarrow> \<exists>r. assoc_loop t0 xs = Some r" for t0 xs
    by (induction t0 xs rule: assoc_loop.induct) (auto simp: not_less)
  then have "polls_end env i \<Longrightarrow> \<exists>r. assoc_loop (we_t0 env i) (we_poll env i) = Some r"
    unfolding polls_end_def by blast
  then show "polls_end env i \<Longrightarrow> ?thesis" by (auto simp: ap_assoc_def)
qed

lemma all_blacklisted_spec:
  "bl_ok st \<Longrightarrow> all_blacklisted st aps order = Some (order \<noteq> [] \<and> (\<forall>i \<in> set order. BSSID (aps ! i) \<in> set (bl_entries st)))"
proof -
  assume ok: "bl_ok st"
  have "foldr (\<lambda>i rest. do { h \<leftarrow> bl_has st (BSSID (aps ! i)); if \<not> h then Some False else rest }) order (Some b) =
      Some (b \<and> (\<forall>i \<in> set order. BSSID (aps ! i) \<in> set (bl_entries st)))" for b
    by (induction order) (auto simp: bl.has_entries [OF ok])
  then show ?thesis unfolding all_blacklisted_def by blast
qed

text \<open>The memory is in step with the variable: loading it again gives the same list.\<close>

definition bl_synced :: "wifi \<Rightarrow> bool" where
  "bl_synced st \<longleftrightarrow> bl_entries (bl_load st) = bl_entries st \<and> length (mac (rtc st)) = BL_CAP"

lemma bl_synced_link [simp]: "bl_synced (st\<lparr>link := l\<rparr>) = bl_synced st" "bl_ok (st\<lparr>link := l\<rparr>) = bl_ok st"
    "bl_entries (st\<lparr>link := l\<rparr>) = bl_entries st"
  by (simp_all add: bl_synced_def bl_ok_def bl_entries_def bl_load_def Let_def)

lemma bl_saved_synced: "bl_ok st \<Longrightarrow> rtc st = s_bl st \<Longrightarrow> bl_synced st"
  by (auto simp: bl_synced_def bl_ok_def bl_entries_def bl_load_def BL_CAP_def u32_less_8 Let_def)

lemma try_aps_select:
  assumes "bl_ok st" "bl_synced st" "\<forall>i \<in> set order. polls_end env i"
  shows "\<exists>st'. try_aps cfg env aps order st =
      Done (fst (select (ap_live cfg env) (ap_dead cfg env) (\<lambda>i. BSSID (aps ! i)) order (bl_entries st)), st') \<and>
    bl_ok st' \<and> bl_synced st' \<and>
    bl_entries st' = snd (select (ap_live cfg env) (ap_dead cfg env) (\<lambda>i. BSSID (aps ! i)) order (bl_entries st)) \<and>
    (link st = None \<longrightarrow> link st' = fst (select (ap_live cfg env) (ap_dead cfg env) (\<lambda>i. BSSID (aps ! i)) order (bl_entries st)))"
  using assms
proof (induction order arbitrary: st)
  case (Cons i order)
  note a = assoc_loop_ends [of env i]
  show ?case
  proof (cases "BSSID (aps ! i) \<in> set (bl_entries st) \<or> \<not> ap_assoc env i")
    case True
    then show ?thesis
      using Cons.IH [of st] Cons.IH [of "st\<lparr>link := None\<rparr>"] Cons.prems a
      by (auto simp: bl.has_entries ap_live_def ap_dead_def)
  next
    case False
    then show ?thesis
    proof (cases "ap_live cfg env i")
      case True
      then show ?thesis using False Cons.prems a by (simp add: bl.has_entries ap_live_def)
    next
      case dead: False
      obtain st1 where st1: "bl_add st (BSSID (aps ! i)) = Some st1" "bl_ok st1"
          "bl_entries st1 = fifo_push BL_CAP (bl_entries st) (BSSID (aps ! i))" "rtc st1 = s_bl st1"
        using bl_add_spec [OF Cons.prems(1), of "BSSID (aps ! i)"] False by auto
      have "bl_synced st1" using st1 bl_saved_synced by blast
      then show ?thesis
        using Cons.IH [of "st1\<lparr>link := None\<rparr>"] st1 False dead Cons.prems a
        by (auto simp: bl.has_entries ap_live_def ap_dead_def)
    qed
  qed
qed simp

lemma wifi_connect_select:
  fixes cfg :: config
  assumes "length (mac (rtc st)) = BL_CAP" "\<forall>i < length aps. polls_end env i"
  defines "S \<equiv> select (ap_live cfg env) (ap_dead cfg env) (\<lambda>i. BSSID (aps ! i)) (ap_order cfg aps) (start_entries cfg aps st)"
  shows "\<exists>st'. wifi_connect_best cfg env aps st = Done (fst S, st') \<and> bl_ok st' \<and> bl_synced st' \<and>
    bl_entries st' = snd S \<and> link st' = fst S"
proof -
  let ?st = "(bl_load st)\<lparr>link := None\<rparr>"
  let ?o = "ap_order cfg aps"
  have ok: "bl_ok ?st" using bl_load_ok [OF assms(1)] by simp
  have sy: "bl_synced ?st"
    using assms(1) by (auto simp: bl_synced_def bl_entries_def bl_load_def BL_CAP_def Let_def)
  let ?all = "?o \<noteq> [] \<and> (\<forall>i \<in> set ?o. BSSID (aps ! i) \<in> set (bl_entries (bl_load st)))"
  have all: "all_blacklisted ?st aps ?o = Some ?all" using all_blacklisted_spec [OF ok, of aps ?o] by simp
  let ?st2 = "if ?all then bl_save (?st\<lparr>s_bl := (s_bl ?st)\<lparr>bl_count := 0\<rparr>\<rparr>) else ?st"
  have ok2: "bl_ok ?st2" using ok by (simp add: bl_ok_def bl_save_def)
  have sy2: "bl_synced ?st2" using sy bl_saved_synced [of "bl_save (?st\<lparr>s_bl := (s_bl ?st)\<lparr>bl_count := 0\<rparr>\<rparr>)"] ok
    by (auto simp: bl_ok_def bl_save_def)
  have e2: "bl_entries ?st2 = start_entries cfg aps st" by (simp add: start_entries_def bl_entries_def bl_save_def Let_def)
  have l2: "link ?st2 = None" by (simp add: bl_save_def)
  have p: "\<forall>i \<in> set ?o. polls_end env i" using assms(2) ap_order_set by blast
  show ?thesis
  proof (cases "length aps = 0")
    case True
    then have "?o = []" using ap_order_set [of _ cfg aps] by (cases ?o) auto
    then show ?thesis using True ok sy unfolding S_def by (simp add: wifi_connect_best_def Let_def start_entries_def)
  next
    case False
    then have "wifi_connect_best cfg env aps st = try_aps cfg env aps ?o ?st2"
      by (simp add: wifi_connect_best_def Let_def all)
    then show ?thesis using try_aps_select [OF ok2 sy2 p, of cfg aps] l2 unfolding S_def e2 by auto
  qed
qed

text \<open>Whether or not the waits end, nothing is read or written outside the blacklist.\<close>

lemma try_aps_defined: "bl_ok st \<Longrightarrow> try_aps cfg env aps order st \<noteq> Undefined"
proof (induction order arbitrary: st)
  case (Cons i order)
  obtain st1 where st1: "bl_add st (BSSID (aps ! i)) = Some st1" "bl_ok st1"
    using bl_add_spec [OF Cons.prems] by blast
  have "bl_ok (st\<lparr>link := None\<rparr>)" "bl_ok (st1\<lparr>link := None\<rparr>)" using Cons.prems st1(2) by simp_all
  then show ?case using Cons.IH Cons.prems st1(1) by (simp add: bl.has_entries exec_then_Undefined Let_def)
qed simp

lemma wifi_connect_best_defined: "length (mac (rtc st)) = BL_CAP \<Longrightarrow> wifi_connect_best cfg env aps st \<noteq> Undefined"
proof -
  assume "length (mac (rtc st)) = BL_CAP"
  then have ok: "bl_ok ((bl_load st)\<lparr>link := None\<rparr>)" using bl_load_ok by simp
  then have "bl_ok (bl_save (((bl_load st)\<lparr>link := None\<rparr>)\<lparr>s_bl := (s_bl (bl_load st))\<lparr>bl_count := 0\<rparr>\<rparr>))"
    by (simp add: bl_ok_def bl_save_def)
  then show ?thesis
    using ok try_aps_defined by (simp add: wifi_connect_best_def all_blacklisted_spec [OF ok] Let_def)
qed

section \<open>Facts about the selection\<close>

lemma select_some:
  assumes "select live dead key order E = (Some i, E')"
  shows "\<exists>pre post. order = pre @ i # post \<and> live i \<and>
     (\<forall>j \<in> set pre. live j \<longrightarrow> key j \<in> set E \<union> key ` {d \<in> set pre. dead d})"
  using assms
proof (induction order arbitrary: E)
  case (Cons k order)
  show ?case
  proof (cases "key k \<notin> set E \<and> live k")
    case True
    with Cons.prems have "k # order = [] @ i # order \<and> live i" by simp
    then show ?thesis by fastforce
  next
    case False
    let ?E = "if key k \<notin> set E \<and> dead k then fifo_push BL_CAP E (key k) else E"
    have "select live dead key order ?E = (Some i, E')" using Cons.prems False by (auto split: if_splits)
    then obtain pre post where p: "order = pre @ i # post" "live i"
        "\<forall>j \<in> set pre. live j \<longrightarrow> key j \<in> set ?E \<union> key ` {d \<in> set pre. dead d}"
      using Cons.IH by blast
    have "set ?E \<subseteq> set E \<union> key ` {d. d = k \<and> dead d}" using fifo_push_subset [of BL_CAP E "key k"] by auto
    then have "\<forall>j \<in> set (k # pre). live j \<longrightarrow> key j \<in> set E \<union> key ` {d \<in> set (k # pre). dead d}"
      using p(3) False by fastforce
    then show ?thesis using p(1,2) by (metis append_Cons)
  qed
qed simp

lemma select_none:
  "select live dead key order E = (None, E') \<Longrightarrow> j \<in> set order \<Longrightarrow> live j \<Longrightarrow>
   key j \<in> set E \<union> key ` {d \<in> set order. dead d}"
proof (induction order arbitrary: E)
  case (Cons k order)
  let ?E = "if key k \<notin> set E \<and> dead k then fifo_push BL_CAP E (key k) else E"
  have k: "key k \<in> set E \<or> \<not> live k" using Cons.prems by (auto split: if_splits)
  then have "select live dead key order ?E = (None, E')" using Cons.prems by (auto split: if_splits)
  then have "j \<in> set order \<Longrightarrow> key j \<in> set ?E \<union> key ` {d \<in> set order. dead d}" using Cons.IH Cons.prems(3) by blast
  moreover have "set ?E \<subseteq> set E \<union> key ` {d. d = k \<and> dead d}" using fifo_push_subset [of BL_CAP E "key k"] by auto
  ultimately show ?case using k Cons.prems by fastforce
qed simp

lemma select_entries:
  "set (snd (select live dead key order E)) \<subseteq> set E \<union> key ` {d \<in> set order. dead d}"
proof (induction order arbitrary: E)
  case (Cons k order)
  have "set (snd (select live dead key order (fifo_push BL_CAP E (key k)))) \<subseteq> insert (key k) (set E) \<union> key ` {d \<in> set order. dead d}"
    using Cons [of "fifo_push BL_CAP E (key k)"] fifo_push_subset [of BL_CAP E "key k"] by blast
  then show ?case using Cons [of E] by auto
qed simp

lemma select_length: "length E \<le> BL_CAP \<Longrightarrow> length (snd (select live dead key order E)) \<le> BL_CAP"
  by (induction order arbitrary: E) (auto simp: fifo_push_length BL_CAP_def)

lemma select_find:
  "distinct (map key order) \<Longrightarrow> \<forall>j \<in> set order. key j \<notin> set E \<Longrightarrow> fst (select live dead key order E) = List.find live order"
proof (induction order arbitrary: E)
  case (Cons k order)
  have "key j \<notin> set (fifo_push BL_CAP E (key k))" if "j \<in> set order" for j
    using that Cons.prems fifo_push_subset [of BL_CAP E "key k"] by (metis (no_types, lifting) distinct.simps(2) image_eqI insertE list.set_intros(2) list.set_map list.simps(9) subsetD)
  then show ?case using Cons by auto
qed simp

lemma select_stuck:
  "\<forall>j \<in> set order. key j \<in> set E \<or> \<not> live j \<and> \<not> dead j \<Longrightarrow> select live dead key order E = (None, E)"
  by (induction order) auto

section \<open>Properties of the selection\<close>

text \<open>(C21) The order in which access points are tried: the indices are those of the first twelve scanned
  access points with the configured SSID, each once, by falling signal strength.\<close>

theorem ap_order_correct:
  "mset (ap_order cfg aps) = mset (take MAX_MATCH (filter (\<lambda>i. SSID (aps ! i) = WIFI_SSID cfg) [0..<length aps])) \<and>
   sorted_wrt (\<lambda>i j. RSSI (aps ! i) \<ge> RSSI (aps ! j)) (ap_order cfg aps) \<and> distinct (ap_order cfg aps)"
  using ap_order_mset ap_order_sorted ap_order_distinct by blast

text \<open>(C19) The blacklist: whatever RTC memory holds (56 arbitrary bytes after a power cut), loading it
  gives a usable list of at most eight entries; any sequence of additions then behaves as a queue of
  eight that drops the oldest, never writes outside its array, and is in RTC memory, so that a soft
  reboot finds the same list.\<close>

theorem blacklist_is_bounded_queue:
  assumes "length (mac (rtc st)) = BL_CAP"
  shows "\<exists>st'. run_steps bl_add (bl_load st) ms = Some st' \<and>
    bl_entries st' = foldl (fifo_push BL_CAP) (bl_entries (bl_load st)) ms \<and> length (bl_entries st') \<le> BL_CAP \<and>
    bl_entries (bl_load st') = bl_entries st' \<and> (\<forall>m. bl_has st' m = Some (m \<in> set (bl_entries st')))"
proof -
  have synced: "bl_synced s \<Longrightarrow> bl_ok s \<Longrightarrow> run_steps bl_add s ns = Some s' \<Longrightarrow> bl_synced s'" for s ns s'
  proof (induction ns arbitrary: s)
    case (Cons n ns)
    obtain s1 where "bl_add s n = Some s1" "bl_ok s1" "s1 = s \<or> rtc s1 = s_bl s1"
      using bl_add_spec [OF Cons.prems(2), of n] by blast
    then show ?case using Cons bl_saved_synced by auto
  qed simp
  have ok: "bl_ok (bl_load st)" using assms by (rule bl_load_ok)
  moreover have "bl_synced (bl_load st)"
    using assms by (auto simp: bl_synced_def bl_entries_def bl_load_def BL_CAP_def Let_def)
  ultimately show ?thesis
    using bl.adds.run_sim [OF ok, of ms] synced bl.bounded bl.has_entries by (metis bl_synced_def)
qed

definition demo_rtc :: Bl where
  "demo_rtc = \<lparr> magic = 7, bl_count = 99, mac = replicate 8 (replicate 6 0) \<rparr>"

definition demo_wifi :: wifi where
  "demo_wifi = \<lparr> s_bl = demo_rtc, rtc = demo_rtc, link = None \<rparr>"

lemma demo_wifi_len: "length (mac (rtc demo_wifi)) = BL_CAP"
  by (simp add: demo_wifi_def demo_rtc_def BL_CAP_def)

lemma demo_wifi_entries: "bl_entries (bl_load demo_wifi) = []"
  by (simp add: bl_entries_def bl_load_def demo_wifi_def demo_rtc_def RTC_MAGIC_def)

theorem blacklist_is_bounded_queue_witness:
  "\<exists>st'. run_steps bl_add (bl_load demo_wifi) [[1, 2, 3, 4, 5, 6]] = Some st' \<and> bl_entries st' = [[1, 2, 3, 4, 5, 6]]"
  using blacklist_is_bounded_queue [OF demo_wifi_len, of "[[1, 2, 3, 4, 5, 6]]"]
  by (auto simp: demo_wifi_entries fifo_push_def BL_CAP_def)

text \<open>(C8) The whole of \<open>wifi_connect_best\<close>, from any contents of RTC memory and for any behaviour of the
  access points, provided every association wait ends: it returns; it reports a lock exactly when
  the station stays associated; the locked access point was scanned, carries the SSID, associated in
  time and a broker answered; every candidate with a stronger signal either was not live or was
  excluded by the list or by sharing its address with one found dead; without a lock the same holds
  of every candidate. Only access points that associated without a broker are added to the list.\<close>

theorem wifi_connect_best_correct:
  assumes "length (mac (rtc st)) = BL_CAP" and "\<forall>i < length aps. polls_end env i"
  shows "\<exists>r st'. wifi_connect_best cfg env aps st = Done (r, st') \<and> link st' = r \<and>
    (let order = ap_order cfg aps;
         excluded = (\<lambda>js j. BSSID (aps ! j) \<in> set (start_entries cfg aps st) \<union> (\<lambda>d. BSSID (aps ! d)) ` {d \<in> set js. ap_dead cfg env d})
     in (case r of
           Some i \<Rightarrow> \<exists>pre post. order = pre @ i # post \<and> i < length aps \<and> SSID (aps ! i) = WIFI_SSID cfg \<and>
             ap_live cfg env i \<and> (\<forall>j \<in> set pre. \<not> ap_live cfg env j \<or> excluded pre j)
         | None \<Rightarrow> \<forall>j \<in> set order. \<not> ap_live cfg env j \<or> excluded order j) \<and>
        (\<forall>m \<in> set (bl_entries st'). m \<in> set (start_entries cfg aps st) \<or>
           (\<exists>d \<in> set order. ap_dead cfg env d \<and> m = BSSID (aps ! d))))"
proof -
  let ?S = "select (ap_live cfg env) (ap_dead cfg env) (\<lambda>i. BSSID (aps ! i)) (ap_order cfg aps) (start_entries cfg aps st)"
  obtain st' where st': "wifi_connect_best cfg env aps st = Done (fst ?S, st')" "link st' = fst ?S" "bl_entries st' = snd ?S"
    using wifi_connect_select [OF assms] by blast
  have entries: "\<forall>m \<in> set (bl_entries st'). m \<in> set (start_entries cfg aps st) \<or>
           (\<exists>d \<in> set (ap_order cfg aps). ap_dead cfg env d \<and> m = BSSID (aps ! d))"
    using select_entries [of "ap_live cfg env" "ap_dead cfg env" "\<lambda>i. BSSID (aps ! i)" "ap_order cfg aps" "start_entries cfg aps st"]
    unfolding st'(3) by blast
  show ?thesis
  proof (cases "fst ?S")
    case None
    then have "?S = (None, snd ?S)" by (metis prod.collapse)
    from select_none [OF this] show ?thesis using None st' entries unfolding Let_def by auto
  next
    case (Some i)
    then have "?S = (Some i, snd ?S)" by (metis prod.collapse)
    from select_some [OF this] obtain pre post where p: "ap_order cfg aps = pre @ i # post" "ap_live cfg env i"
        "\<forall>j \<in> set pre. ap_live cfg env j \<longrightarrow> BSSID (aps ! j) \<in> set (start_entries cfg aps st) \<union> (\<lambda>i. BSSID (aps ! i)) ` {d \<in> set pre. ap_dead cfg env d}"
      by blast
    then have "i < length aps \<and> SSID (aps ! i) = WIFI_SSID cfg" using ap_order_set [of i cfg aps] by simp
    then show ?thesis using Some st' entries p unfolding Let_def by (simp, blast)
  qed
qed

definition demo_aps :: "ap list" where
  "demo_aps = [\<lparr> SSID = ''net'', RSSI = -70, BSSID = [1, 0, 0, 0, 0, 1], channel = 1 \<rparr>,
               \<lparr> SSID = ''net'', RSSI = -40, BSSID = [1, 0, 0, 0, 0, 2], channel = 6 \<rparr>]"

definition demo_site :: config where
  "demo_site = config_example\<lparr>WIFI_SSID := ''net''\<rparr>"

definition demo_env :: wifi_env where
  "demo_env = \<lparr> we_ip_ok = (\<lambda>s. True), we_t0 = (\<lambda>i. 0), we_poll = (\<lambda>i. [(100, False), (300, True)]),
     we_tcp = (\<lambda>i e. i = 0 \<and> e = 1) \<rparr>"

lemma demo_order: "ap_order demo_site demo_aps = [1, 0]"
  by (simp add: ap_order_def match_ssid_filter demo_site_def demo_aps_def MAX_MATCH_def Let_def upt_rec
      sort_outer.simps sort_inner.simps swap_def)

lemma demo_bssid: "BSSID (demo_aps ! 0) = [1, 0, 0, 0, 0, 1]" "BSSID (demo_aps ! Suc 0) = [1, 0, 0, 0, 0, 2]"
  by (simp_all add: demo_aps_def)

lemma demo_polls: "\<forall>i < length demo_aps. polls_end demo_env i"
  by (auto simp: polls_end_def demo_env_def)

lemma demo_live:
  "ap_live demo_site demo_env i \<longleftrightarrow> i = 0" "ap_dead demo_site demo_env i \<longleftrightarrow> i \<noteq> 0"
  by (auto simp: ap_live_def ap_dead_def ap_assoc_def demo_env_def demo_site_def probe_emqx_def config_example_def
      WIFI_ASSOC_TIMEOUT_MS_def)

theorem wifi_connect_best_correct_witness:
  "\<exists>st'. wifi_connect_best demo_site demo_env demo_aps demo_wifi = Done (Some 0, st') \<and> link st' = Some 0"
  using wifi_connect_best_correct [OF demo_wifi_len demo_polls, of demo_site]
  by (auto simp: demo_order demo_live start_entries_def demo_wifi_entries demo_bssid Let_def Cons_eq_append_conv
      split: option.splits)

text \<open>(C20) The escape hatch: with distinct addresses, when the list excludes none of the candidates or all
  of them (every broker was down and all access points were recorded as dead), the function locks
  the strongest live candidate, and fails only if there is none. So a site whose brokers come back
  is found again without a power cycle.\<close>

theorem wifi_escape_hatch:
  assumes "length (mac (rtc st)) = BL_CAP" and "\<forall>i < length aps. polls_end env i"
    and "distinct (map (\<lambda>i. BSSID (aps ! i)) (ap_order cfg aps))"
    and "(\<forall>i \<in> set (ap_order cfg aps). BSSID (aps ! i) \<in> set (bl_entries (bl_load st))) \<or>
         (\<forall>i \<in> set (ap_order cfg aps). BSSID (aps ! i) \<notin> set (bl_entries (bl_load st)))"
  shows "\<exists>st'. wifi_connect_best cfg env aps st = Done (List.find (ap_live cfg env) (ap_order cfg aps), st')"
proof -
  have "\<forall>i \<in> set (ap_order cfg aps). BSSID (aps ! i) \<notin> set (start_entries cfg aps st)"
    using assms(4) by (auto simp: start_entries_def Let_def)
  from select_find [OF assms(3) this] show ?thesis
    using wifi_connect_select [OF assms(1,2), of cfg] by metis
qed

definition demo_all_listed :: wifi where
  "demo_all_listed = demo_wifi\<lparr>rtc := \<lparr> magic = RTC_MAGIC, bl_count = 2,
     mac = [1, 0, 0, 0, 0, 2] # [1, 0, 0, 0, 0, 1] # replicate 6 (replicate 6 0) \<rparr>\<rparr>"

theorem wifi_escape_hatch_witness:
  "\<exists>st'. wifi_connect_best demo_site demo_env demo_aps demo_all_listed = Done (Some 0, st')"
proof -
  have e: "bl_entries (bl_load demo_all_listed) = [[1, 0, 0, 0, 0, 2], [1, 0, 0, 0, 0, 1]]"
    by (simp add: bl_entries_def bl_load_def demo_all_listed_def demo_wifi_def BL_CAP_def Let_def)
  have "length (mac (rtc demo_all_listed)) = BL_CAP" by (simp add: demo_all_listed_def BL_CAP_def)
  moreover have "distinct (map (\<lambda>i. BSSID (demo_aps ! i)) (ap_order demo_site demo_aps))"
    by (simp add: demo_order demo_bssid)
  moreover have "\<forall>i \<in> set (ap_order demo_site demo_aps). BSSID (demo_aps ! i) \<in> set (bl_entries (bl_load demo_all_listed))"
    by (simp add: demo_order demo_bssid e)
  ultimately show ?thesis
    using wifi_escape_hatch [of demo_all_listed demo_aps demo_env demo_site] demo_polls by (simp add: demo_order demo_live)
qed

text \<open>(C34) The escape hatch does not cover a mixed site: if every candidate is either on the list or never
  associates, and at least one is not on the list, the function fails and leaves the list as it is,
  although a listed access point may be live again; since a soft reboot loads the same list, the
  device stays offline for as long as the site looks like this.\<close>

theorem wifi_lockout:
  assumes "length (mac (rtc st)) = BL_CAP" and "\<forall>i < length aps. polls_end env i"
    and "\<forall>i \<in> set (ap_order cfg aps). BSSID (aps ! i) \<in> set (bl_entries (bl_load st)) \<or> \<not> ap_assoc env i"
    and "i \<in> set (ap_order cfg aps)" and "BSSID (aps ! i) \<notin> set (bl_entries (bl_load st))"
  shows "\<exists>st'. wifi_connect_best cfg env aps st = Done (None, st') \<and> bl_entries (bl_load st') = bl_entries (bl_load st)"
proof -
  have start: "start_entries cfg aps st = bl_entries (bl_load st)"
    using assms(4,5) by (auto simp: start_entries_def Let_def)
  have "select (ap_live cfg env) (ap_dead cfg env) (\<lambda>i. BSSID (aps ! i)) (ap_order cfg aps) (start_entries cfg aps st)
      = (None, bl_entries (bl_load st))"
    unfolding start using assms(3) by (intro select_stuck) (auto simp: ap_live_def ap_dead_def)
  then show ?thesis using wifi_connect_select [OF assms(1,2), of cfg] by (metis bl_synced_def fst_conv snd_conv)
qed

definition demo_listed :: wifi where
  "demo_listed = demo_wifi\<lparr>rtc := \<lparr> magic = RTC_MAGIC, bl_count = 1, mac = [1, 0, 0, 0, 0, 1] # replicate 7 (replicate 6 0) \<rparr>\<rparr>"

definition demo_weak_env :: wifi_env where
  "demo_weak_env = demo_env\<lparr>we_poll := (\<lambda>i. if i = 0 then [(300, True)] else [(300, False), (9000, False)])\<rparr>"

theorem wifi_lockout_witness:
  "\<exists>st'. wifi_connect_best demo_site demo_weak_env demo_aps demo_listed = Done (None, st') \<and>
     ap_live demo_site demo_weak_env 0"
proof -
  have e: "bl_entries (bl_load demo_listed) = [[1, 0, 0, 0, 0, 1]]"
    by (simp add: bl_entries_def bl_load_def demo_listed_def demo_wifi_def BL_CAP_def Let_def)
  have "length (mac (rtc demo_listed)) = BL_CAP" by (simp add: demo_listed_def BL_CAP_def)
  moreover have "\<forall>i < length demo_aps. polls_end demo_weak_env i"
    by (auto simp: polls_end_def demo_weak_env_def demo_env_def WIFI_ASSOC_TIMEOUT_MS_def)
  moreover have "\<forall>i \<in> set (ap_order demo_site demo_aps). BSSID (demo_aps ! i) \<in> set (bl_entries (bl_load demo_listed)) \<or> \<not> ap_assoc demo_weak_env i"
    by (simp add: demo_order e demo_bssid ap_assoc_def demo_weak_env_def demo_env_def WIFI_ASSOC_TIMEOUT_MS_def)
  moreover have "1 \<in> set (ap_order demo_site demo_aps)" "BSSID (demo_aps ! 1) \<notin> set (bl_entries (bl_load demo_listed))"
    by (simp_all add: demo_order e demo_bssid)
  ultimately have "\<exists>st'. wifi_connect_best demo_site demo_weak_env demo_aps demo_listed = Done (None, st')"
    using wifi_lockout by blast
  moreover have "ap_live demo_site demo_weak_env 0"
    by (simp add: ap_live_def ap_assoc_def demo_weak_env_def demo_env_def demo_site_def probe_emqx_def config_example_def
      WIFI_ASSOC_TIMEOUT_MS_def)
  ultimately show ?thesis by blast
qed

end
