(* ===== verification/Sketch.thy ===== *)
theory Sketch
  imports Stepca Mqtt_Session Wifi_Session
begin

text \<open>
  The sketch, \<open>arduino.ino\<close>: the mode decision at boot, \<open>setup\<close> and one pass of \<open>loop\<close>. The device
  state is the record of the components' states and of the static variables of \<open>loop\<close>. A pass either
  goes on or ends in \<open>ESP.restart()\<close>; after a restart only the file system and RTC memory survive. A step
  that also waits for the outside has the three outcomes of \<open>exec\<close>.
\<close>

section \<open>State\<close>

datatype Mode = MODE_BOOTSTRAP | MODE_RENEW | MODE_OPERATIONAL | MODE_FAIL

datatype outcome = Running | Restart

record 'f device =
  dev_fs :: 'f
  dev_wifi :: wifi
  dev_sensor :: sensor
  dev_mqtt :: mqtt
  last_pub :: u32
  last_chk :: u32
  last_log :: u32
  mqtt_down_since :: u32

text \<open>Power-up or reset: the static variables have their initial values.\<close>

definition boot :: "'f \<Rightarrow> wifi \<Rightarrow> 'f device" where
  "boot fs w = \<lparr> dev_fs = fs, dev_wifi = w, dev_sensor = sensor_init, dev_mqtt = mqtt_init,
     last_pub = 0, last_chk = 0, last_log = 0, mqtt_down_since = 0 \<rparr>"

section \<open>Mode decision\<close>

definition decide_mode :: "'f littlefs \<Rightarrow> 'f \<Rightarrow> int \<Rightarrow> Mode" where
  "decide_mode lfs fs now =
     (let hasDev = lfs_exists lfs fs PATH_DEV_CERT; hasBs = lfs_exists lfs fs PATH_BS_CERT in
      if \<not> hasDev \<and> hasBs then MODE_BOOTSTRAP
      else if \<not> hasDev \<and> \<not> hasBs then MODE_FAIL
      else
        let expiry = read_exp lfs fs in
        if expiry = 0 then MODE_OPERATIONAL
        else if now \<ge> expiry then (if hasBs then MODE_BOOTSTRAP else MODE_FAIL)
        else if now + RENEW_BEFORE_SEC \<ge> expiry then MODE_RENEW
        else MODE_OPERATIONAL)"

section \<open>setup\<close>

text \<open>The NTP wait: one sample is \<open>time(nullptr)\<close> and \<open>millis()\<close>; false stands for the reboot.\<close>

fun ntp_wait :: "u32 \<Rightarrow> (int \<times> u32) list \<Rightarrow> bool option" where
  "ntp_wait t0 [] = None"
| "ntp_wait t0 ((t, ms) # samples) =
     (if t < 1700000000 then (if ms - t0 > 60000 then Some False else ntp_wait t0 samples) else Some True)"

record setup_env =
  se_fs_begin :: bool
  se_aps :: "ap list"
  se_wifi :: wifi_env
  se_ntp_t0 :: u32
  se_ntp :: "(int \<times> u32) list"
  se_probe :: "http_req \<Rightarrow> https_env"
  se_now :: int
  se_sensor :: "nat \<Rightarrow> u32 \<times> (u32 \<times> string) list"
  se_prov :: prov_env
  se_mac :: bytes
  se_net :: net

definition enter_operational :: "config \<Rightarrow> 'f littlefs \<Rightarrow> setup_env \<Rightarrow> 'f device \<Rightarrow> (outcome \<times> 'f device) option" where
  "enter_operational cfg lfs env dev = do {
     (ok, q) \<leftarrow> setup_operational cfg lfs (dev_fs dev) (se_mac env) (se_net env) (dev_mqtt dev);
     Some (Running, dev\<lparr>dev_mqtt := q\<rparr>)
   }"

definition run_mode :: "config \<Rightarrow> 'f littlefs \<Rightarrow> setup_env \<Rightarrow> Mode \<Rightarrow> 'f device \<Rightarrow> (outcome \<times> 'f device) exec" where
  "run_mode cfg lfs env m dev =
     (case m of
        MODE_BOOTSTRAP \<Rightarrow>
          exec_then (awaited (provision_sensor cfg (se_sensor env) (dev_sensor dev))) (\<lambda>s.
          let dev = dev\<lparr>dev_sensor := sensor_release s\<rparr> in
          exec_then (provision_cert cfg lfs (se_prov env) False (dev_fs dev)) (\<lambda>(r, fs).
          Done (Restart, dev\<lparr>dev_fs := fs\<rparr>)))
      | MODE_RENEW \<Rightarrow>
          exec_then (provision_cert cfg lfs (se_prov env) True (dev_fs dev)) (\<lambda>(r, fs).
          checked (enter_operational cfg lfs env (dev\<lparr>dev_fs := fs\<rparr>)))
      | MODE_OPERATIONAL \<Rightarrow> checked (enter_operational cfg lfs env dev)
      | MODE_FAIL \<Rightarrow> Done (Running, dev))"

definition sketch_setup :: "config \<Rightarrow> 'f littlefs \<Rightarrow> setup_env \<Rightarrow> 'f device \<Rightarrow> (outcome \<times> 'f device) exec" where
  "sketch_setup cfg lfs env dev =
     (let dev = dev\<lparr>dev_sensor := setup_sensor (dev_sensor dev)\<rparr> in
      if \<not> se_fs_begin env then Done (Running, dev)
      else
        exec_then (wifi_connect_best cfg (se_wifi env) (se_aps env) (dev_wifi dev)) (\<lambda>(locked, w).
        let dev = dev\<lparr>dev_wifi := w\<rparr> in
        if locked = None then Done (Restart, dev)
        else
          exec_then (awaited (ntp_wait (se_ntp_t0 env) (se_ntp env))) (\<lambda>synced.
          if \<not> synced then Done (Restart, dev)
          else
            exec_then (if ENABLE_DIAG_STEPCA_PROBE cfg
              then awaited (probe_stepca_chain_only cfg lfs (dev_fs dev) (se_probe env)) else Done True) (\<lambda>_.
            run_mode cfg lfs env (decide_mode lfs (dev_fs dev) (se_now env)) dev))))"

section \<open>loop\<close>

text \<open>
  What one pass sees: \<open>le_lost k\<close> says whether the connection broke before the \<open>k\<close>-th time the pass
  looks at it (the watchdog, the session loop, the publisher, the renewal check).
\<close>

record loop_env =
  le_console :: "char option"
  le_rx :: string
  le_now_ms :: u32
  le_lost :: "nat \<Rightarrow> bool"
  le_now_ms2 :: u32
  le_net :: net
  le_time :: int
  le_bssid :: string
  le_rssi :: int
  le_prov :: prov_env
  le_mac :: bytes
  le_net2 :: net

definition lose :: "bool \<Rightarrow> 'f device \<Rightarrow> 'f device" where
  "lose b dev = (if b then dev\<lparr>dev_mqtt := link_lost (dev_mqtt dev)\<rparr> else dev)"

text \<open>The cast of a \<open>time_t\<close> difference to a 32-bit \<open>long\<close>.\<close>

definition to_long :: "int \<Rightarrow> int" where
  "to_long x = (x + 2 ^ 31) mod 2 ^ 32 - 2 ^ 31"

definition watchdog :: "u32 \<Rightarrow> 'f device \<Rightarrow> outcome \<times> 'f device" where
  "watchdog now_ms dev =
     (if mqtt_session_connected (dev_mqtt dev) then (Running, dev\<lparr>mqtt_down_since := 0\<rparr>)
      else if current_cn (dev_mqtt dev) \<noteq> [] then
        if mqtt_down_since dev = 0 then (Running, dev\<lparr>mqtt_down_since := (if now_ms \<noteq> 0 then now_ms else 1)\<rparr>)
        else if now_ms - mqtt_down_since dev > MQTT_DOWN_REBOOT_MS then (Restart, dev)
        else (Running, dev)
      else (Running, dev))"

definition publish_tick :: "config \<Rightarrow> loop_env \<Rightarrow> 'f device \<Rightarrow> 'f device option" where
  "publish_tick cfg env dev =
     (if le_now_ms env - last_pub dev > PUBLISH_INTERVAL_MS then do {
        q \<leftarrow> publish_occupancy cfg (le_time env) (le_bssid env) (le_rssi env) (dev_sensor dev) (dev_mqtt dev);
        Some (dev\<lparr>dev_mqtt := q, last_pub := le_now_ms env\<rparr>)
      } else Some dev)"

definition renew_now :: "config \<Rightarrow> 'f littlefs \<Rightarrow> loop_env \<Rightarrow> 'f device \<Rightarrow> (outcome \<times> 'f device) exec" where
  "renew_now cfg lfs env dev =
     exec_then (checked (mqtt_session_teardown (dev_mqtt dev))) (\<lambda>q.
     let dev = dev\<lparr>dev_mqtt := q\<rparr> in
     exec_then (provision_cert cfg lfs (le_prov env) True (dev_fs dev)) (\<lambda>(r, fs).
     let dev = dev\<lparr>dev_fs := fs\<rparr> in
     case r of
       Inr _ \<Rightarrow> Done (Restart, dev)
     | Inl e \<Rightarrow>
         exec_then (checked (setup_operational cfg lfs (dev_fs dev) (le_mac env) (le_net2 env) (dev_mqtt dev))) (\<lambda>(ok, q).
         Done (Running, dev\<lparr>dev_mqtt := q\<rparr>))))"

definition renew_check :: "config \<Rightarrow> 'f littlefs \<Rightarrow> loop_env \<Rightarrow> 'f device \<Rightarrow> (outcome \<times> 'f device) exec" where
  "renew_check cfg lfs env dev =
     (if le_now_ms env - last_chk dev > RENEW_CHECK_INTV_MS then
        let dev = lose (le_lost env 3) (dev\<lparr>last_chk := le_now_ms env\<rparr>) in
        if \<not> mqtt_session_connected (dev_mqtt dev) then Done (Running, dev)
        else
          let expiry = read_exp lfs (dev_fs dev) in
          if expiry \<noteq> 0 \<and> to_long (expiry - le_time env) \<le> RENEW_BEFORE_SEC then renew_now cfg lfs env dev
          else Done (Running, dev)
      else Done (Running, dev))"

definition sketch_loop :: "config \<Rightarrow> 'f littlefs \<Rightarrow> loop_env \<Rightarrow> 'f device \<Rightarrow> (outcome \<times> 'f device) exec" where
  "sketch_loop cfg lfs env dev =
     exec_then (checked (update_sensor (le_console env) (le_rx env) (dev_sensor dev))) (\<lambda>s.
     let now_ms = le_now_ms env;
         (o1, dev) = watchdog now_ms (lose (le_lost env 0) (dev\<lparr>dev_sensor := s\<rparr>)) in
     if o1 = Restart then Done (Restart, dev)
     else
       let dev = (if now_ms - last_log dev > 30000 then dev\<lparr>last_log := now_ms\<rparr> else dev);
           dev = lose (le_lost env 1) dev in
       exec_then (checked (mqtt_session_loop cfg (le_now_ms2 env) (le_net env) (dev_mqtt dev))) (\<lambda>q.
       let dev = lose (le_lost env 2) (dev\<lparr>dev_mqtt := q\<rparr>) in
       exec_then (checked (publish_tick cfg env dev)) (\<lambda>dev.
       renew_check cfg lfs env dev)))"

section \<open>Invariant of the device\<close>

definition dev_inv :: "config \<Rightarrow> 'f device \<Rightarrow> bool" where
  "dev_inv cfg dev \<longleftrightarrow> sensor_inv (dev_sensor dev) \<and> mqtt_inv cfg (dev_mqtt dev)"

text \<open>What the inputs of a pass are relied on for: plausible readings, six bytes of MAC address, and, for a
  renewal in this pass, what \<open>prov_ok\<close> says of keys, signatures, clock and the dates in certificates.
  Likewise for \<open>setup\<close>, with the sizes of the signer certificates for a first issuance.\<close>

definition loop_env_ok :: "loop_env \<Rightarrow> bool" where
  "loop_env_ok env \<longleftrightarrow> readings_ok (le_time env) (le_bssid env) (le_rssi env) \<and> 6 \<le> length (le_mac env) \<and> prov_ok (le_prov env)"

definition setup_env_ok :: "'f littlefs \<Rightarrow> 'f \<Rightarrow> setup_env \<Rightarrow> bool" where
  "setup_env_ok lfs fs env \<longleftrightarrow> 6 \<le> length (se_mac env) \<and> prov_ok (se_prov env) \<and> first_fits lfs fs (se_prov env)"

lemma boot_inv: "0 < EMQX_ENDPOINT_COUNT cfg \<Longrightarrow> dev_inv cfg (boot fs w)"
  by (simp add: dev_inv_def boot_def sensor_init_inv mqtt_init_inv)

lemma link_lost_inv: "mqtt_inv cfg q \<Longrightarrow> mqtt_inv cfg (link_lost q)"
  by (simp add: link_lost_def mqtt_inv_def objects_ok_def client_ok_def)

lemma lose_inv: "dev_inv cfg dev \<Longrightarrow> dev_inv cfg (lose b dev)"
  by (simp add: lose_def dev_inv_def link_lost_inv)

lemma update_sensor_inv:
  assumes "sensor_inv s"
  shows "\<exists>s'. update_sensor c xs s = Some s' \<and> sensor_inv s'"
proof -
  have "sensor_inv (case c of None \<Rightarrow> s | Some c \<Rightarrow> emit (ToSensor [c]) s)"
    using assms by (simp add: sensor_inv_def split: option.splits)
  then show ?thesis using rx.run_sim [of _ xs] by (auto simp: update_sensor_def Let_def)
qed

lemma watchdog_inv: "dev_inv cfg dev \<Longrightarrow> dev_inv cfg (snd (watchdog t dev))"
  by (simp add: watchdog_def dev_inv_def)

lemma publish_tick_inv:
  assumes "dev_inv cfg dev" "loop_env_ok env"
  shows "\<exists>dev'. publish_tick cfg env dev = Some dev' \<and> dev_inv cfg dev'"
proof -
  obtain q where "publish_occupancy cfg (le_time env) (le_bssid env) (le_rssi env) (dev_sensor dev) (dev_mqtt dev) = Some q" "mqtt_inv cfg q"
    using publish_inv [of cfg "dev_mqtt dev" "le_time env" "le_bssid env" "le_rssi env" "dev_sensor dev"] assms
    by (auto simp: dev_inv_def loop_env_ok_def)
  then show ?thesis using assms(1) by (simp add: publish_tick_def dev_inv_def)
qed

lemma renew_now_inv:
  assumes "dev_inv cfg dev" "loop_env_ok env" "fin \<longrightarrow> servers_close (le_prov env)"
  shows "exec_ok fin (\<lambda>(out, dev). dev_inv cfg dev) (renew_now cfg lfs env dev)"
proof -
  obtain q where q: "mqtt_session_teardown (dev_mqtt dev) = Some q" "mqtt_inv cfg q"
    using teardown_inv [of cfg "dev_mqtt dev"] assms(1) by (auto simp: dev_inv_def)
  have p: "exec_ok fin (\<lambda>_. True) (provision_cert cfg lfs (le_prov env) True (dev_fs dev))"
    by (rule provision_cert_safe) (use assms(2,3) in \<open>simp_all add: loop_env_ok_def\<close>)
  have s: "\<exists>ok q2. setup_operational cfg lfs fs (le_mac env) (le_net2 env) q = Some (ok, q2) \<and> mqtt_inv cfg q2" for fs
    using setup_operational_inv [OF q(2), of "le_mac env"] assms(2) by (fastforce simp: loop_env_ok_def)
  have "exec_ok fin (\<lambda>(out, dev). dev_inv cfg dev)
      (let dev = d\<lparr>dev_fs := fs\<rparr> in case r of Inr _ \<Rightarrow> Done (Restart, dev)
       | Inl e \<Rightarrow> exec_then (checked (setup_operational cfg lfs (dev_fs dev) (le_mac env) (le_net2 env) (dev_mqtt dev))) (\<lambda>(ok, q).
         Done (Running, dev\<lparr>dev_mqtt := q\<rparr>)))"
    if "d = dev\<lparr>dev_mqtt := q\<rparr>" for r :: "prov_error + unit" and fs d
    using s [of fs] assms(1) q(2) that by (cases r) (auto simp: dev_inv_def)
  then show ?thesis
    using q(1) by (auto simp: renew_now_def Let_def [of "dev\<lparr>dev_mqtt := q\<rparr>"] intro!: exec_ok_then [OF p])
qed

lemma renew_check_inv:
  assumes "dev_inv cfg dev" "loop_env_ok env" "fin \<longrightarrow> servers_close (le_prov env)"
  shows "exec_ok fin (\<lambda>(out, dev). dev_inv cfg dev) (renew_check cfg lfs env dev)"
proof -
  have "dev_inv cfg (lose (le_lost env 3) (dev\<lparr>last_chk := le_now_ms env\<rparr>))"
    using assms(1) by (intro lose_inv) (simp add: dev_inv_def)
  note d = this renew_now_inv [OF this assms(2,3), of lfs]
  show ?thesis using d assms(1) by (simp add: renew_check_def Let_def)
qed

lemma loop_inv:
  assumes "dev_inv cfg dev" "loop_env_ok env" "fin \<longrightarrow> servers_close (le_prov env)"
  shows "exec_ok fin (\<lambda>(out, dev). dev_inv cfg dev) (sketch_loop cfg lfs env dev)"
proof -
  obtain s where s: "update_sensor (le_console env) (le_rx env) (dev_sensor dev) = Some s" "sensor_inv s"
    using update_sensor_inv assms(1) by (meson dev_inv_def)
  let ?w = "watchdog (le_now_ms env) (lose (le_lost env 0) (dev\<lparr>dev_sensor := s\<rparr>))"
  have w: "dev_inv cfg (snd ?w)" using assms(1) s(2) by (intro watchdog_inv lose_inv) (simp add: dev_inv_def)
  obtain o1 d1 where od: "?w = (o1, d1)" by (cases ?w)
  let ?d = "lose (le_lost env 1) (if le_now_ms env - last_log d1 > 30000 then d1\<lparr>last_log := le_now_ms env\<rparr> else d1)"
  have d: "dev_inv cfg ?d" using w od by (intro lose_inv) (simp add: dev_inv_def)
  obtain q where q: "mqtt_session_loop cfg (le_now_ms2 env) (le_net env) (dev_mqtt ?d) = Some q" "mqtt_inv cfg q"
    using mqtt_session_loop_inv d by (meson dev_inv_def)
  have "dev_inv cfg (lose (le_lost env 2) (?d\<lparr>dev_mqtt := q\<rparr>))" using d q(2) by (intro lose_inv) (simp add: dev_inv_def)
  then obtain d2 where d2: "publish_tick cfg env (lose (le_lost env 2) (?d\<lparr>dev_mqtt := q\<rparr>)) = Some d2" "dev_inv cfg d2"
    using publish_tick_inv assms(2) by blast
  show ?thesis
    using renew_check_inv [OF d2(2) assms(2,3)] w s(1) od q(1) d2(1) by (simp add: sketch_loop_def Let_def)
qed

section \<open>A device without a connection\<close>

text \<open>A pass while the connection is down and does not come back: only the watchdog decides.\<close>

lemma loop_down:
  assumes "dev_inv cfg dev" "\<not> mqtt_up (dev_mqtt dev)" "s_cn (dev_mqtt dev) = [] \<or> (\<forall>i. \<not> net_mqtt (le_net env) i)"
  shows "\<exists>out dev'. sketch_loop cfg lfs env dev = Done (out, dev') \<and> dev_inv cfg dev' \<and> \<not> mqtt_up (dev_mqtt dev') \<and>
    s_cn (dev_mqtt dev') = s_cn (dev_mqtt dev) \<and> publish_calls (dev_mqtt dev') = publish_calls (dev_mqtt dev) \<and> dev_fs dev' = dev_fs dev \<and>
    out = fst (watchdog (le_now_ms env) dev) \<and> mqtt_down_since dev' = mqtt_down_since (snd (watchdog (le_now_ms env) dev))"
proof -
  obtain s where s: "update_sensor (le_console env) (le_rx env) (dev_sensor dev) = Some s" "sensor_inv s"
    using update_sensor_inv assms(1) by (meson dev_inv_def)
  have same: "lose b d = d" if "\<not> mqtt_up (dev_mqtt d)" for b and d :: "'a device"
    using that by (cases d; cases "dev_mqtt d") (simp add: lose_def link_lost_def)
  let ?d0 = "dev\<lparr>dev_sensor := s\<rparr>"
  let ?w = "watchdog (le_now_ms env) ?d0"
  have w: "fst ?w = fst (watchdog (le_now_ms env) dev)" "mqtt_down_since (snd ?w) = mqtt_down_since (snd (watchdog (le_now_ms env) dev))"
      "dev_mqtt (snd ?w) = dev_mqtt dev" "dev_fs (snd ?w) = dev_fs dev" "dev_sensor (snd ?w) = s"
    by (simp_all add: watchdog_def)
  obtain o1 d1 where od: "?w = (o1, d1)" by (cases ?w)
  let ?d = "if le_now_ms env - last_log d1 > 30000 then d1\<lparr>last_log := le_now_ms env\<rparr> else d1"
  obtain q where q: "mqtt_session_loop cfg (le_now_ms2 env) (le_net env) (dev_mqtt dev) = Some q" "mqtt_inv cfg q"
    using mqtt_session_loop_inv assms(1) by (meson dev_inv_def)
  have q': "\<not> mqtt_up q" "s_cn q = s_cn (dev_mqtt dev)" "publish_calls q = publish_calls (dev_mqtt dev)"
    using q(1) mqtt_session_loop_eq [of cfg "dev_mqtt dev" "le_now_ms2 env" "le_net env"] assms by (auto simp: dev_inv_def split: if_splits)
  let ?d2 = "?d\<lparr>dev_mqtt := q\<rparr>"
  let ?d3 = "if le_now_ms env - last_pub ?d2 > PUBLISH_INTERVAL_MS then ?d2\<lparr>dev_mqtt := q, last_pub := le_now_ms env\<rparr> else ?d2"
  have p: "publish_tick cfg env ?d2 = Some ?d3" using q' by (simp add: publish_tick_def publish_occupancy_def)
  let ?d4 = "if le_now_ms env - last_chk ?d3 > RENEW_CHECK_INTV_MS then ?d3\<lparr>last_chk := le_now_ms env\<rparr> else ?d3"
  have r: "renew_check cfg lfs env ?d3 = Done (Running, ?d4)"
    using q'(1) by (simp add: renew_check_def Let_def same mqtt_session_connected_def)
  show ?thesis
  proof (cases "o1 = Restart")
    case True
    have "sketch_loop cfg lfs env dev = Done (Restart, d1)" using s(1) od assms(2) True by (simp add: sketch_loop_def Let_def same)
    then show ?thesis using True w od assms s(2) by (auto simp: dev_inv_def)
  next
    case False
    then have o1: "o1 = Running" by (cases o1) auto
    have "dev_mqtt ?d = dev_mqtt dev" using w od by simp
    then have "sketch_loop cfg lfs env dev = renew_check cfg lfs env ?d3"
      using s(1) od assms(2) o1 q(1) q'(1) p by (simp add: sketch_loop_def Let_def same)
    then show ?thesis using r w od o1 q(2) q' s(2) by (auto simp: dev_inv_def)
  qed
qed

section \<open>A renewal that is due\<close>

text \<open>A pass with the connection up in which the hourly check finds the expiry within seven days, and the
  renewal succeeds: the device restarts with the new files.\<close>

lemma due_renewal:
  assumes "dev_inv cfg dev" "loop_env_ok env" "mqtt_up (dev_mqtt dev)" "\<forall>k. \<not> le_lost env k"
    "le_now_ms env - last_chk dev > RENEW_CHECK_INTV_MS" "read_exp lfs (dev_fs dev) \<noteq> 0"
    "to_long (read_exp lfs (dev_fs dev) - le_time env) \<le> RENEW_BEFORE_SEC"
    "provision_cert cfg lfs (le_prov env) True (dev_fs dev) = Done (Inr (), fs')"
  shows "\<exists>dev'. sketch_loop cfg lfs env dev = Done (Restart, dev') \<and> dev_fs dev' = fs'"
proof -
  obtain s where s: "update_sensor (le_console env) (le_rx env) (dev_sensor dev) = Some s" "sensor_inv s"
    using update_sensor_inv assms(1) by (meson dev_inv_def)
  have same: "lose (le_lost env k) d = d" for k and d :: "'a device" using assms(4) by (simp add: lose_def)
  let ?d1 = "dev\<lparr>dev_sensor := s, mqtt_down_since := 0\<rparr>"
  have w: "watchdog (le_now_ms env) (dev\<lparr>dev_sensor := s\<rparr>) = (Running, ?d1)"
    using assms(3) by (simp add: watchdog_def mqtt_session_connected_def)
  let ?d = "if le_now_ms env - last_log dev > 30000 then ?d1\<lparr>last_log := le_now_ms env\<rparr> else ?d1"
  have m: "mqtt_session_loop cfg (le_now_ms2 env) (le_net env) (dev_mqtt dev) = Some (dev_mqtt dev)"
    using assms(3) by (simp add: mqtt_session_loop_def)
  define dd where "dd = ?d"
  have d: "dev_inv cfg dd" "dev_mqtt dd = dev_mqtt dev" "dd\<lparr>dev_mqtt := dev_mqtt dev\<rparr> = dd" "dev_fs dd = dev_fs dev" "last_chk dd = last_chk dev"
    using assms(1) s(2) by (simp_all add: dd_def dev_inv_def)
  obtain q where q: "publish_occupancy cfg (le_time env) (le_bssid env) (le_rssi env) (dev_sensor dd) (dev_mqtt dev) = Some q" "mqtt_inv cfg q"
    using publish_inv [of cfg "dev_mqtt dev" "le_time env" "le_bssid env" "le_rssi env" "dev_sensor dd"] assms(1,2)
    by (auto simp: dev_inv_def loop_env_ok_def)
  have up: "mqtt_up q" using q(1) assms(3) by (auto simp: publish_occupancy_def Let_def split: if_splits Option.bind_splits)
  let ?d2 = "if le_now_ms env - last_pub dd > PUBLISH_INTERVAL_MS then dd\<lparr>dev_mqtt := q, last_pub := le_now_ms env\<rparr> else dd"
  have "publish_tick cfg env dd = Some ?d2" using q(1) d(2) by (simp add: publish_tick_def)
  moreover have "mqtt_up (dev_mqtt ?d2)" "mqtt_inv cfg (dev_mqtt ?d2)" "dev_fs ?d2 = dev_fs dev" "last_chk ?d2 = last_chk dev"
    using q(2) up assms(1,3) d by (simp_all add: dev_inv_def)
  ultimately obtain d2 where d2: "publish_tick cfg env dd = Some d2" "mqtt_up (dev_mqtt d2)" "mqtt_inv cfg (dev_mqtt d2)"
      "dev_fs d2 = dev_fs dev" "last_chk d2 = last_chk dev" by blast
  obtain q3 where q3: "mqtt_session_teardown (dev_mqtt d2) = Some q3" using teardown_inv [OF d2(3)] by blast
  let ?d3 = "d2\<lparr>last_chk := le_now_ms env\<rparr>"
  have "renew_check cfg lfs env d2 = renew_now cfg lfs env ?d3"
    using assms(5-7) d2 by (simp add: renew_check_def Let_def same mqtt_session_connected_def)
  also have "\<dots> = Done (Restart, ?d3\<lparr>dev_mqtt := q3, dev_fs := fs'\<rparr>)" using q3 d2(4) assms(8) by (simp add: renew_now_def Let_def)
  finally have r: "renew_check cfg lfs env d2 = Done (Restart, ?d3\<lparr>dev_mqtt := q3, dev_fs := fs'\<rparr>)" .
  have "sketch_loop cfg lfs env dev = renew_check cfg lfs env d2"
    using s(1) w m d2(1) d(2,3) by (auto simp: sketch_loop_def Let_def same dd_def split: if_splits)
  then show ?thesis using r by simp
qed

section \<open>Runs of the loop\<close>

fun run_loop :: "config \<Rightarrow> 'f littlefs \<Rightarrow> loop_env list \<Rightarrow> 'f device \<Rightarrow> (outcome \<times> 'f device) exec" where
  "run_loop cfg lfs [] dev = Done (Running, dev)"
| "run_loop cfg lfs (e # es) dev =
     exec_then (sketch_loop cfg lfs e dev) (\<lambda>(out, dev).
     if out = Restart then Done (Restart, dev) else run_loop cfg lfs es dev)"

lemma run_loop_inv:
  "dev_inv cfg dev \<Longrightarrow> \<forall>e \<in> set es. loop_env_ok e \<Longrightarrow> fin \<longrightarrow> (\<forall>e \<in> set es. servers_close (le_prov e)) \<Longrightarrow>
   exec_ok fin (\<lambda>(out, dev). dev_inv cfg dev) (run_loop cfg lfs es dev)"
proof (induction es arbitrary: dev)
  case (Cons e es)
  have "exec_ok fin (\<lambda>(out, dev). dev_inv cfg dev) (sketch_loop cfg lfs e dev)" using Cons.prems by (intro loop_inv) auto
  then show ?case unfolding run_loop.simps by (rule exec_ok_then) (use Cons in auto)
qed simp

lemma sketch_setup_inv:
  assumes "setup_env_ok lfs (dev_fs dev) env" "dev_inv cfg dev" "length (mac (rtc (dev_wifi dev))) = BL_CAP"
  shows "exec_ok False (\<lambda>(out, dev). dev_inv cfg dev) (sketch_setup cfg lfs env dev)"
proof -
  have prov: "sensor_inv s'" if "provision_sensor cfg ev s = Some s'" "sensor_inv s" for ev s s'
  proof -
    have "send_all ev i cmds s = Some s' \<Longrightarrow> sensor_inv s \<Longrightarrow> sensor_inv s'" for i cmds s
      by (induction ev i cmds s rule: send_all.induct)
        (auto simp: send_sensor_cmd_def sensor_inv_def split: Option.bind_splits)
    then show ?thesis using that by (simp add: provision_sensor_def)
  qed
  have op: "exec_ok False (\<lambda>(out, dev). dev_inv cfg dev) (checked (enter_operational cfg lfs env d))" if "dev_inv cfg d" for d
    using that setup_operational_inv [of cfg "dev_mqtt d" "se_mac env" lfs "dev_fs d" "se_net env"] assms(1)
    by (fastforce simp: enter_operational_def dev_inv_def setup_env_ok_def)
  have cert: "exec_ok False (\<lambda>_. True) (provision_cert cfg lfs (se_prov env) b (dev_fs dev))" for b
    by (rule provision_cert_safe) (use assms(1) in \<open>simp_all add: setup_env_ok_def\<close>)
  have mode: "exec_ok False (\<lambda>(out, dev). dev_inv cfg dev) (run_mode cfg lfs env m d)" if "dev_inv cfg d" "dev_fs d = dev_fs dev" for m d
  proof (cases m)
    case MODE_BOOTSTRAP
    have "exec_ok False sensor_inv (awaited (provision_sensor cfg (se_sensor env) (dev_sensor d)))"
      by (rule exec_ok_awaited) (use prov that(1) in \<open>auto simp: dev_inv_def\<close>)
    then show ?thesis
      unfolding run_mode_def MODE_BOOTSTRAP Let_def Mode.case
      by (rule exec_ok_then)
        (auto simp: that(2) intro!: exec_ok_then [OF cert], use that(1) in \<open>auto simp: dev_inv_def sensor_inv_def sensor_release_def\<close>)
  next
    case MODE_RENEW
    then show ?thesis
      using that op by (auto simp: run_mode_def intro!: exec_ok_then [OF cert]) (simp add: dev_inv_def)
  qed (use that op in \<open>simp_all add: run_mode_def\<close>)
  have "sensor_inv (setup_sensor (dev_sensor dev))" using assms(2) by (simp add: dev_inv_def sensor_inv_def setup_sensor_def)
  then have d: "dev_inv cfg (dev\<lparr>dev_sensor := setup_sensor (dev_sensor dev)\<rparr>)"
      "dev_inv cfg (dev\<lparr>dev_sensor := setup_sensor (dev_sensor dev), dev_wifi := w\<rparr>)" for w
    using assms(2) by (simp_all add: dev_inv_def)
  have wifi: "exec_ok False (\<lambda>_. True) (wifi_connect_best cfg (se_wifi env) (se_aps env) (dev_wifi dev))"
    using wifi_connect_best_defined [OF assms(3)] by (simp add: exec_ok_def split: exec.split)
  have wait: "exec_ok False (\<lambda>_. True) (awaited r)" for r :: "bool option" by (rule exec_ok_awaited) simp_all
  have probe: "exec_ok False (\<lambda>_. True) (if b then awaited r else Done True)" for b r using wait by simp
  show ?thesis
    unfolding sketch_setup_def Let_def
    by (auto simp: d intro!: exec_ok_then [OF wifi] exec_ok_then [OF wait] exec_ok_then [OF probe] mode)
qed

text \<open>(C1) Safety of the whole firmware. From reset, with any files and any contents of RTC memory, \<open>setup\<close> is
  free of undefined behaviour, and when it has returned (in any mode, with any outcome of issuance
  and connection) so is every sequence of passes of \<open>loop\<close>, renewals included: whatever arrives on the
  serial port, whatever the clocks and the network do, however often the connection breaks and
  whatever bytes the authority answers. Assumed are a clock before 2038, answers whose certificates
  have plausible dates before 2038, and signer certificates of at most 597 bytes for a first issuance;
  beyond these the X.509 layer is shown to overflow. A sequence of passes returns if the peers of its renewals close their connections in the
  end. Afterwards the receive index is inside its buffer, the occupancy is 0 or 1, the broker slot is inside its
  table and the TLS client never points to a deleted object while it is in use.\<close>

theorem firmware_safe:
  assumes "0 < EMQX_ENDPOINT_COUNT cfg" and "length (mac (rtc w)) = BL_CAP" and "setup_env_ok lfs fs senv"
    and "\<forall>e \<in> set es. loop_env_ok e"
  shows "sketch_setup cfg lfs senv (boot fs w) \<noteq> Undefined \<and>
    (\<forall>out dev. sketch_setup cfg lfs senv (boot fs w) = Done (out, dev) \<longrightarrow>
       run_loop cfg lfs es dev \<noteq> Undefined \<and>
       ((\<forall>e \<in> set es. servers_close (le_prov e)) \<longrightarrow> run_loop cfg lfs es dev \<noteq> Pending) \<and>
       (\<forall>out' dev'. run_loop cfg lfs es dev = Done (out', dev') \<longrightarrow> rx_index (dev_sensor dev') < 64 \<and>
          read_occupancy (dev_sensor dev') \<in> {0, 1} \<and> s_current_ep (dev_mqtt dev') < EMQX_ENDPOINT_COUNT cfg \<and>
          (current_cn (dev_mqtt dev') = [] \<or> tls_ready (dev_mqtt dev') = Some ())))"
proof -
  have s: "exec_ok False (\<lambda>(out, dev). dev_inv cfg dev) (sketch_setup cfg lfs senv (boot fs w))"
    by (rule sketch_setup_inv [OF _ boot_inv [OF assms(1)]]) (use assms(2,3) in \<open>simp_all add: boot_def\<close>)
  have run: "exec_ok fin (\<lambda>(out, dev). dev_inv cfg dev) (run_loop cfg lfs es dev)"
    if "sketch_setup cfg lfs senv (boot fs w) = Done (out, dev)" "fin \<longrightarrow> (\<forall>e \<in> set es. servers_close (le_prov e))" for out dev fin
    using run_loop_inv [OF _ assms(4) that(2)] s that(1) by simp
  have inv: "rx_index (dev_sensor d) < 64 \<and> read_occupancy (dev_sensor d) \<in> {0, 1} \<and>
      s_current_ep (dev_mqtt d) < EMQX_ENDPOINT_COUNT cfg \<and> (current_cn (dev_mqtt d) = [] \<or> tls_ready (dev_mqtt d) = Some ())"
    if "dev_inv cfg d" for d :: "'a device"
  proof -
    have m: "mqtt_inv cfg (dev_mqtt d)" "sensor_inv (dev_sensor d)" using that by (simp_all add: dev_inv_def)
    then have "s_cn (dev_mqtt d) \<noteq> [] \<Longrightarrow> tls_ready (dev_mqtt d) = Some ()" using tls_ready_ok by (simp add: mqtt_inv_def)
    then show ?thesis using m by (auto simp: sensor_inv_def RX_BUF_SIZE_def read_occupancy_def current_cn_def mqtt_inv_def)
  qed
  show ?thesis
  proof (intro conjI allI impI)
    show "sketch_setup cfg lfs senv (boot fs w) \<noteq> Undefined" using s by (rule exec_okD)
  next
    fix out dev assume d: "sketch_setup cfg lfs senv (boot fs w) = Done (out, dev)"
    note nf = run [OF d, of False, simplified]
    show "run_loop cfg lfs es dev \<noteq> Undefined" using nf by (rule exec_okD)
    show "run_loop cfg lfs es dev \<noteq> Pending" if "\<forall>e \<in> set es. servers_close (le_prov e)"
      using run [OF d, of True] that by (intro exec_okD(2)) simp
    fix out' dev' assume "run_loop cfg lfs es dev = Done (out', dev')"
    then have "dev_inv cfg dev'" using nf by simp
    note i = inv [OF this]
    show "rx_index (dev_sensor dev') < 64" "read_occupancy (dev_sensor dev') \<in> {0, 1}" "s_current_ep (dev_mqtt dev') < EMQX_ENDPOINT_COUNT cfg"
      "current_cn (dev_mqtt dev') = [] \<or> tls_ready (dev_mqtt dev') = Some ()" using i by blast+
  qed
qed

definition demo_live_fs :: "path \<rightharpoonup> string" where
  "demo_live_fs = demo_fs(PATH_DEV_EXP \<mapsto> fmt_u 1767225600)"

definition demo_setup :: setup_env where
  "demo_setup = \<lparr> se_fs_begin = True, se_aps = demo_aps, se_wifi = demo_env, se_ntp_t0 = 0,
     se_ntp = [(0, 100), (1766000000, 900)], se_probe = (\<lambda>_. demo_ca), se_now = 1766000000, se_sensor = (\<lambda>_. (0, [])),
     se_prov = demo_prov, se_mac = [0, 0, 0, 1, 2, 3], se_net = demo_net \<rparr>"

definition demo_pass :: loop_env where
  "demo_pass = \<lparr> le_console = None, le_rx = ''x'', le_now_ms = 400000, le_lost = (\<lambda>_. False), le_now_ms2 = 400000,
     le_net = demo_net\<lparr>net_mqtt := (\<lambda>_. False)\<rparr>, le_time = 1767225600, le_bssid = ''aa:bb:cc:dd:ee:ff'', le_rssi = -67,
     le_prov = demo_env0, le_mac = [0, 0, 0, 1, 2, 3], le_net2 = demo_net \<rparr>"

text \<open>A pass more than an hour after boot, within seven days of the expiry: the certificate is renewed.\<close>

definition demo_renewal :: loop_env where
  "demo_renewal = demo_pass\<lparr>le_now_ms := 4000000, le_net := demo_net, le_time := 1767000000, le_prov := demo_prov\<rparr>"

lemma demo_renewal_ok: "loop_env_ok demo_renewal" "servers_close (le_prov demo_renewal)"
  using demo_prov_ok demo_servers_close by (simp_all add: loop_env_ok_def demo_renewal_def demo_pass_def readings_ok_def)

lemma demo_site_count: "0 < EMQX_ENDPOINT_COUNT demo_site" "EMQX_ENDPOINT_COUNT demo_site = 2"
  using demo_count by (simp_all add: demo_site_def EMQX_ENDPOINT_COUNT_def)

lemma demo_live_exp: "read_exp map_lfs demo_live_fs = 1767225600"
  using read_exp_text [of map_lfs demo_live_fs 1767225600] by (simp add: demo_live_fs_def map_lfs_def ulong_def)

lemma demo_setup_runs:
  "\<exists>dev. sketch_setup demo_site map_lfs demo_setup (boot demo_live_fs demo_wifi) = Done (Running, dev) \<and>
     mqtt_up (dev_mqtt dev) \<and> dev_fs dev = demo_live_fs \<and> dev_inv demo_site dev \<and> last_chk dev = 0"
proof -
  obtain w where w: "wifi_connect_best demo_site demo_env demo_aps demo_wifi = Done (Some 0, w)"
    using wifi_connect_select [OF demo_wifi_len demo_polls, of demo_site]
    by (auto simp: demo_order demo_live start_entries_def demo_wifi_entries demo_bssid fifo_push_def BL_CAP_def)
  have r: "read_file map_lfs demo_live_fs PATH_DEV_EXP = fmt_u 1767225600" "lfs_exists map_lfs demo_live_fs PATH_DEV_CERT"
      "assets_present map_lfs demo_live_fs"
    by (simp_all add: assets_present_def read_file_def map_lfs_def demo_live_fs_def demo_fs_def path_ne)
  have m: "decide_mode map_lfs demo_live_fs 1766000000 = MODE_OPERATIONAL" using r(2) demo_live_exp by (simp add: decide_mode_def RENEW_BEFORE_SEC_def)
  let ?q = "(session_of demo_site map_lfs demo_live_fs [0, 0, 0, 1, 2, 3] mqtt_init)\<lparr>mqtt_up := True, s_current_ep := 1\<rparr>"
  have o: "objects_ok mqtt_init" using mqtt_init_inv [OF demo_site_count(1)] by (simp add: mqtt_inv_def)
  have "List.find (accepts demo_site demo_net) (slots_from demo_site (s_current_ep mqtt_init)) = Some 1"
    by (simp add: slots_from_def demo_site_count(2) upt_rec mqtt_init_def accepts_def demo_net_def demo_site_def config_example_def EMQX_ENDPOINT_COUNT_def)
  then have q: "setup_operational demo_site map_lfs demo_live_fs [0, 0, 0, 1, 2, 3] demo_net mqtt_init = Some (True, ?q)"
    using setup_operational_eq [OF o, of "[0, 0, 0, 1, 2, 3]" demo_site map_lfs demo_live_fs demo_net] r(3) by (simp add: Let_def)
  moreover have "mqtt_inv demo_site ?q"
    using setup_operational_inv [OF mqtt_init_inv [OF demo_site_count(1)], of "[0, 0, 0, 1, 2, 3]" map_lfs demo_live_fs demo_net] q by auto
  ultimately show ?thesis
    using w m sensor_init_inv
    by (simp add: sketch_setup_def demo_setup_def boot_def run_mode_def enter_operational_def demo_site_def config_example_def
      dev_inv_def sensor_inv_def setup_sensor_def Let_def)
qed

lemma demo_renewed: "\<exists>fs'. provision_cert demo_site map_lfs demo_prov True demo_live_fs = Done (Inr (), fs')"
proof -
  obtain n csr where c: "cn_text demo_site (pe_mac demo_prov) = Some n"
      "build_csr (pe_crypto demo_prov) 800 (snprintf_str 32 n) (replicate 64 7) (replicate 32 5) = Some csr" "csr \<noteq> []"
    using demo_prov_csr by (auto simp: demo_site_def cn_text_def cn_override_def)
  have r: "read_file map_lfs demo_live_fs PATH_CA_CERT \<noteq> []" "read_file map_lfs demo_live_fs PATH_DEV_CERT \<noteq> []"
      "read_file map_lfs demo_live_fs PATH_DEV_KEY \<noteq> []"
    by (simp_all add: read_file_def map_lfs_def demo_live_fs_def demo_fs_def path_ne)
  have o: "obtain_renewed demo_site map_lfs demo_live_fs demo_prov = Done (Inr (replicate 64 7, replicate 32 5, demo_leaf, ''inter'', 1767225600))"
    unfolding demo_leaf_def using demo_ca_answers demo_cert_length
    by (intro obtain_renewed_ok [OF _ c r]) (simp_all add: demo_prov_def demo_leaf_def plain_text_def time_field_def demo_cert_def)
  have "plain_text demo_leaf" unfolding demo_leaf_def by (rule plain_pem_block) (simp add: plain_text_def)
  then obtain fs' where "save_device_assets map_lfs demo_live_fs demo_leaf ''inter'' (replicate 32 5) (replicate 64 7) 1767225600 = Some (Inr (), fs')"
    using save_device_assets_view [OF map_lfs_ok map_lfs_writable, of "replicate 32 5" "replicate 64 7" demo_leaf "''inter''" demo_live_fs 1767225600]
    by (auto simp: plain_text_def demo_leaf_def pem_block_def)
  then show ?thesis using o by (simp add: provision_cert_def)
qed

text \<open>A device with a certificate boots, mounts its file system, finds the live access point, gets the time
  and is online; a later pass renews the certificate and restarts.\<close>

theorem firmware_safe_witness:
  "\<exists>dev dev'. sketch_setup demo_site map_lfs demo_setup (boot demo_live_fs demo_wifi) = Done (Running, dev) \<and> mqtt_up (dev_mqtt dev) \<and>
     run_loop demo_site map_lfs [demo_renewal] dev = Done (Restart, dev') \<and> rx_index (dev_sensor dev') < 64"
proof -
  obtain dev where d: "sketch_setup demo_site map_lfs demo_setup (boot demo_live_fs demo_wifi) = Done (Running, dev)" "mqtt_up (dev_mqtt dev)"
      "dev_fs dev = demo_live_fs" "dev_inv demo_site dev" "last_chk dev = 0"
    using demo_setup_runs by blast
  obtain dev' where l: "sketch_loop demo_site map_lfs demo_renewal dev = Done (Restart, dev')"
    using due_renewal [OF d(4) demo_renewal_ok(1) d(2), of map_lfs] demo_renewed d(3,5) demo_live_exp
    by (auto simp: demo_renewal_def demo_pass_def RENEW_CHECK_INTV_MS_def RENEW_BEFORE_SEC_def to_long_def)
  have "read_file map_lfs demo_live_fs PATH_BS_CERT = []"
    by (simp add: read_file_def map_lfs_def demo_live_fs_def demo_fs_def path_ne)
  then have env: "setup_env_ok map_lfs demo_live_fs demo_setup"
    using demo_prov_ok demo_first_fits by (simp add: setup_env_ok_def demo_setup_def)
  show ?thesis
    using firmware_safe [OF demo_site_count(1) demo_wifi_len env, of "[demo_renewal]"] demo_renewal_ok d(1,2) l by auto
qed


section \<open>The watchdog\<close>

lemma watchdog_counting:
  assumes "dev_inv cfg dev" "\<not> mqtt_up (dev_mqtt dev)" "s_cn (dev_mqtt dev) \<noteq> []" "mqtt_down_since dev = s" "s \<noteq> 0"
    and "\<forall>e \<in> set es. \<forall>i. \<not> net_mqtt (le_net e) i"
  shows "\<exists>dev'. run_loop cfg lfs es dev =
    Done (if \<exists>e \<in> set es. le_now_ms e - s > MQTT_DOWN_REBOOT_MS then Restart else Running, dev')"
  using assms
proof (induction es arbitrary: dev)
  case (Cons e es)
  obtain out d where d: "sketch_loop cfg lfs e dev = Done (out, d)" "dev_inv cfg d" "\<not> mqtt_up (dev_mqtt d)"
      "s_cn (dev_mqtt d) = s_cn (dev_mqtt dev)" "out = fst (watchdog (le_now_ms e) dev)"
      "mqtt_down_since d = mqtt_down_since (snd (watchdog (le_now_ms e) dev))"
    using loop_down [OF Cons.prems(1,2), of e lfs] Cons.prems(6) by auto
  have w: "watchdog (le_now_ms e) dev = (if le_now_ms e - s > MQTT_DOWN_REBOOT_MS then Restart else Running, dev)"
    using Cons.prems(2-5) by (simp add: watchdog_def mqtt_session_connected_def current_cn_def)
  show ?case
  proof (cases "le_now_ms e - s > MQTT_DOWN_REBOOT_MS")
    case True
    then show ?thesis using d(1,5) w by simp
  next
    case False
    have "mqtt_down_since d = s" using d(6) w Cons.prems(4) by simp
    then obtain dev' where "run_loop cfg lfs es d =
        Done (if \<exists>e \<in> set es. le_now_ms e - s > MQTT_DOWN_REBOOT_MS then Restart else Running, dev')"
      using Cons.IH [OF d(2,3)] d(4) Cons.prems(3,5,6) by auto
    then show ?thesis using d(1,5) w False by simp
  qed
qed simp

text \<open>(C11) The recovery watchdog: once an operational device is seen without connection in a pass at time
  \<open>t0\<close> and no broker accepts it again, the following passes restart it exactly when one of them runs
  more than \<open>MQTT_DOWN_REBOOT_MS\<close> (five minutes) later, counted in the wrapping 32-bit clock, also
  across a wrap and for \<open>t0 = 0\<close>.\<close>

theorem watchdog_restarts:
  assumes "dev_inv cfg dev" and "\<not> mqtt_up (dev_mqtt dev)" and "s_cn (dev_mqtt dev) \<noteq> []" and "mqtt_down_since dev = 0"
    and "\<forall>e \<in> set (e0 # es). \<forall>i. \<not> net_mqtt (le_net e) i"
  shows "\<exists>dev'. run_loop cfg lfs (e0 # es) dev =
    Done (if \<exists>e \<in> set es. le_now_ms e - (if le_now_ms e0 = 0 then 1 else le_now_ms e0) > 300000 then Restart else Running, dev')"
proof -
  let ?s = "if le_now_ms e0 = 0 then 1 else le_now_ms e0"
  obtain out d where d: "sketch_loop cfg lfs e0 dev = Done (out, d)" "dev_inv cfg d" "\<not> mqtt_up (dev_mqtt d)"
      "s_cn (dev_mqtt d) = s_cn (dev_mqtt dev)" "out = fst (watchdog (le_now_ms e0) dev)"
      "mqtt_down_since d = mqtt_down_since (snd (watchdog (le_now_ms e0) dev))"
    using loop_down [OF assms(1,2), of e0 lfs] assms(5) by auto
  have "watchdog (le_now_ms e0) dev = (Running, dev\<lparr>mqtt_down_since := ?s\<rparr>)"
    using assms(2-4) by (simp add: watchdog_def mqtt_session_connected_def current_cn_def)
  then have o: "out = Running" and s: "mqtt_down_since d = ?s" using d(5,6) by auto
  have "?s \<noteq> 0" by simp
  have "\<exists>dev'. run_loop cfg lfs es d =
      Done (if \<exists>e \<in> set es. le_now_ms e - ?s > MQTT_DOWN_REBOOT_MS then Restart else Running, dev')"
    by (rule watchdog_counting [OF d(2,3) _ s]) (use d(4) assms(3,5) \<open>?s \<noteq> 0\<close> in simp_all)
  then show ?thesis using d(1) o by (simp add: MQTT_DOWN_REBOOT_MS_def)
qed

definition demo_down :: "(path \<rightharpoonup> string) device" where
  "demo_down = (boot demo_dev_fs demo_wifi)\<lparr>dev_mqtt := demo_session\<rparr>"

theorem watchdog_restarts_witness:
  "\<exists>dev'. run_loop config_example map_lfs [demo_pass, demo_pass\<lparr>le_now_ms := 700001\<rparr>] demo_down = Done (Restart, dev')"
proof -
  have i: "dev_inv config_example demo_down" using demo_session_inv sensor_init_inv by (simp add: dev_inv_def demo_down_def boot_def)
  have "\<not> mqtt_up (dev_mqtt demo_down)" "s_cn (dev_mqtt demo_down) \<noteq> []" "mqtt_down_since demo_down = 0"
    using demo_session_inv by (simp_all add: demo_down_def boot_def) (simp add: demo_session_def session_of_def Let_def)
  then show ?thesis
    using watchdog_restarts [OF i, of demo_pass "[demo_pass\<lparr>le_now_ms := 700001\<rparr>]" map_lfs] by (simp add: demo_pass_def)
qed

lemma idle_forever:
  assumes "dev_inv cfg dev" "\<not> mqtt_up (dev_mqtt dev)" "s_cn (dev_mqtt dev) = []"
  shows "\<exists>dev'. run_loop cfg lfs es dev = Done (Running, dev') \<and> \<not> mqtt_up (dev_mqtt dev') \<and>
    publish_calls (dev_mqtt dev') = publish_calls (dev_mqtt dev) \<and> dev_fs dev' = dev_fs dev"
  using assms
proof (induction es arbitrary: dev)
  case (Cons e es)
  obtain out d where d: "sketch_loop cfg lfs e dev = Done (out, d)" "dev_inv cfg d" "\<not> mqtt_up (dev_mqtt d)"
      "s_cn (dev_mqtt d) = []" "publish_calls (dev_mqtt d) = publish_calls (dev_mqtt dev)" "dev_fs d = dev_fs dev"
      "out = fst (watchdog (le_now_ms e) dev)"
    using loop_down [OF Cons.prems(1,2), of e lfs] Cons.prems(3) by auto
  moreover have "out = Running" using d(7) Cons.prems(2,3) by (simp add: watchdog_def mqtt_session_connected_def current_cn_def)
  ultimately show ?case using Cons.IH [OF d(2,3,4)] by auto
qed simp

end
