(* ===== verification/Spec2Isabelle.thy ===== *)
theory Spec2Isabelle
  imports Sketch
begin

text \<open>
  GikView end device: a verification of the ESP8266 firmware in \<open>src/end/arduino/\<close>.

  The program. GikView reports whether a room is occupied. Its C++ part is the firmware of the end
  device, an ESP8266 with a C4001 mmWave sensor. At boot the firmware picks a WiFi access point behind
  which a broker answers (\<open>wifi_session.cpp\<close>), sets its clock, and decides its mode from the files on
  the LittleFS flash (\<open>arduino.ino\<close>). Without a device certificate it obtains one from a step-ca
  authority in two steps, with an X5C token signed by its bootstrap certificate; a certificate near its
  expiry is renewed over mutual TLS (\<open>stepca.cpp\<close>, on top of \<open>crypto_pki.cpp\<close> and \<open>crypto_asn1.cpp\<close>
  for CSR, keys, tokens, DER, base64 and PEM, and \<open>fs_store.cpp\<close> for the files). In operation it keeps
  an MQTT session over mutual TLS with one of several EMQX brokers (\<open>mqtt_session.cpp\<close>), parses the
  sensor's serial lines and publishes the occupancy (\<open>sensor.cpp\<close>), restarts when the session does not
  recover, and renews its certificate.

  Theories, in the order of the code's layers.
  \<^item> \<open>Prelude\<close>: machine types, arrays with bounds, polling loops, the outcomes \<open>exec\<close> with their rules, runs
    of steps and the contract \<open>step_refinement\<close> (a step that may be undefined implements an abstract
    step), proof collections.
  \<^item> \<open>C_Library\<close>: what the firmware uses of the C library and of the Arduino \<open>String\<close>: string search,
    \<open>printf\<close> conversions, \<open>snprintf\<close>, \<open>strtoul\<close>, \<open>atol\<close>, \<open>gmtime\<close>, \<open>strftime\<close>, \<open>indexOf\<close>, \<open>trim\<close>.
  \<^item> \<open>Json_Text\<close>: JSON as the receivers of the firmware's messages read it, independent of the firmware: the
    data model, a strict reader \<open>json_of\<close> and a printer, with the round trip between them. The token, the
    requests to the authority and the published payload are specified by what \<open>json_of\<close> reads from them.
  \<^item> \<open>Config\<close>: \<open>config.example.h\<close>; the site's values are a record, the other constants definitions.
  \<^item> \<open>Crypto_Asn1\<close>: \<open>crypto_asn1.cpp\<close>, every function. The writers satisfy the contract \<open>der_writer\<close>, the
    two base64 alphabets the contract \<open>b64_alphabet\<close>. Shown: written elements are read back, the reader
    stays in bounds on all inputs, decoding inverts encoding, PEM text is read back, INTEGER values.
  \<^item> \<open>Crypto_Pki\<close>: \<open>crypto_pki.cpp\<close>, every function, with each static array as a bound. SHA-256 and ECDSA
    signing are parameters (record \<open>crypto\<close>). Shown: the CSR and the token have the intended contents, the
    token in unpadded base64url and with the claims a JSON reader finds, and
    overflow nothing within stated sizes, the key file is read back, the expiry parser returns the
    instant in the certificate, the calendar arithmetic inverts \<open>gmtime\<close> until 2038.
  \<^item> \<open>Fs_Store\<close>: \<open>fs_store.cpp\<close>. LittleFS is a parameter (record \<open>littlefs\<close>) with the documented behaviour
    \<open>littlefs_ok\<close>; a write may be cut short by a full medium (\<open>lfs_room\<close>). Shown: saved PEM and expiry
    files are read back where there is room, and disturb no other file.
  \<^item> \<open>Sensor\<close>: \<open>sensor.cpp\<close>. The receive loop on its 64-character array refines a line protocol without
    buffers (an interpretation of \<open>step_refinement\<close>); provisioning sends its commands in order; the
    payload fits its buffer and says in JSON what the sensor says.
  \<^item> \<open>Wifi_Session\<close>: \<open>wifi_session.cpp\<close>. The RTC blacklist satisfies the contract \<open>dead_list\<close> (a bounded
    queue); the exchange sort orders the candidates; the whole selection refines \<open>select\<close>, a function on
    lists, from which its guarantees and its one gap follow.
  \<^item> \<open>Mqtt_Session\<close>: \<open>mqtt_session.cpp\<close>, with the heap objects and raw pointers of the TLS client. The
    step relation \<open>mqtt_reach\<close> interleaves the operations and losses of the link; its invariant gives
    memory safety; connecting is a search in round-robin order; reconnecting fails over. What is handed to
    the MQTT client is recorded in \<open>publish_calls\<close>; whether the client sends it is not known to the code.
  \<^item> \<open>Stepca\<close>: \<open>stepca.cpp\<close>, with errors as values. A connection is the list of what the polls of the code
    find. Shown: the HTTP and JSON readers return what was sent, termination and where it fails, that
    a failed provisioning changes no file but the temporary ones, issuance and renewal end to end, with
    the tokens of both exchanges, the request bodies as JSON, and freedom from undefined behaviour under \<open>prov_ok\<close>.
  \<^item> \<open>Sketch\<close>: \<open>arduino.ino\<close>: \<open>decide_mode\<close>, \<open>setup\<close> (\<open>sketch_setup\<close>) and \<open>loop\<close> (\<open>sketch_loop\<close>), composed of the
    components' operations as the code composes them. Shown: safety of all runs and the watchdog.
  \<^item> This theory: the properties that span components: lifecycle, power cuts, failed renewals.

  Conventions. A function that works on fixed-size arrays or raw pointers returns an option whose
  \<open>None\<close> is undefined behaviour; safety is the theorem that it returns \<open>Some\<close>. A wait on the outside
  world takes the samples it sees as a list and is \<open>None\<close> if it has not ended within them: no bound or
  fuel is chosen, and the theorems that need an end assume a sample at which the wait ends. A function
  that does both (the access point selection, the authority client, \<open>setup\<close> and \<open>loop\<close>) has the type \<open>exec\<close>,
  which keeps the two apart: \<open>Undefined\<close>, \<open>Pending\<close> or \<open>Done\<close> with a result; \<open>checked\<close> and \<open>awaited\<close> take over the
  outcomes of the functions it calls. Tick
  counters are 32-bit words, so their differences wrap as in the code; \<open>time_t\<close> is an integer and the
  casts to 32 bits are written out. What the outside does in one call (network results, clock, random
  words, serial input) is an argument of the call. Plain diagnostic output on the serial console is left
  out, except where it is data of the sensor.

  Not modelled: TLS and MQTT themselves, LittleFS, the WiFi stack, SHA-256 and ECDSA (parameters of the
  model), exhaustion of the heap, and the rest of the repository, which is not C++: the edge services
  (Kubernetes manifests, Helm charts, Go), the web application and the documentation.

  Plan of the development: the codec and X.509 layers, files, sensor, access points, broker session,
  authority client and sketch are in place. Next: repeated boots as one transition system over files and
  RTC memory, with progress from boot to the first publication.
\<close>

section \<open>From issuance to the next boot\<close>

text \<open>(C16) The certificate lifecycle: on a device whose files are those an issuance or a renewal leaves
  behind, with expiry \<open>t\<close> and no bootstrap certificate, the next boot at time \<open>now\<close> goes straight to
  operation until seven days before the expiry, renews within the last seven days, and stops for
  re-flashing from the expiry on.\<close>

theorem mode_after_issue:
  assumes "littlefs_ok lfs" and "device_files lfs fs priv leaf chain t" and "leaf \<noteq> []" and "0 < t" and "t < 2 ^ 32"
    and "\<not> lfs_exists lfs fs PATH_BS_CERT"
  shows "decide_mode lfs fs now =
    (if t \<le> now then MODE_FAIL else if t - 7 * 24 * 3600 \<le> now then MODE_RENEW else MODE_OPERATIONAL)"
proof -
  have "read_file lfs fs PATH_DEV_CERT \<noteq> []" using assms(2,3) by (simp add: device_files_def)
  then have "lfs_exists lfs fs PATH_DEV_CERT"
    by (cases "lfs_read_string lfs fs PATH_DEV_CERT") (simp_all add: lfs_exists_iff [OF assms(1)] read_file_def)
  moreover have "read_exp lfs fs = t" using assms(2,4,5) by (simp add: device_files_def)
  ultimately show ?thesis using assms(4,6) by (auto simp: decide_mode_def RENEW_BEFORE_SEC_def Let_def)
qed

definition demo_issued :: "path \<rightharpoonup> string" where
  "demo_issued = committed (new_files Map.empty ''leaf'' ''inter'' (replicate 32 9) (replicate 64 1)) 1767225600"

lemma demo_issued_files: "device_files map_lfs demo_issued (replicate 32 9) ''leaf'' ''inter'' 1767225600"
  by (rule committed_device_files [OF map_lfs_ok, of _ "replicate 64 1" _ Map.empty])
    (simp_all add: demo_issued_def map_lfs_def)

theorem mode_after_issue_witness: "decide_mode map_lfs demo_issued 1767000000 = MODE_RENEW"
proof -
  have "\<not> lfs_exists map_lfs demo_issued PATH_BS_CERT"
    by (simp add: demo_issued_def committed_def new_files_def map_lfs_def path_ne)
  then show ?thesis
    using mode_after_issue [OF map_lfs_ok demo_issued_files, of 1767000000] by simp
qed

section \<open>Power cuts while the new files are put in place\<close>

lemma commit_prefix:
  fixes t :: int
  assumes "m NEW_CERT \<noteq> None" "m NEW_CHAIN \<noteq> None" "m NEW_KEY \<noteq> None" "k \<le> 7"
  defines "mk \<equiv> foldl (fs_apply map_lfs) m (take k (commit_ops t))"
  shows "mk PATH_DEV_CERT = (if k = 0 then m PATH_DEV_CERT else if k = 1 then None else m NEW_CERT) \<and>
    mk PATH_DEV_CHAIN = (if k \<le> 2 then m PATH_DEV_CHAIN else if k = 3 then None else m NEW_CHAIN) \<and>
    mk PATH_DEV_KEY = (if k \<le> 4 then m PATH_DEV_KEY else if k = 5 then None else m NEW_KEY) \<and>
    mk PATH_DEV_EXP = (if k \<le> 6 then m PATH_DEV_EXP else Some (fmt_u (ulong t))) \<and>
    mk PATH_BS_CERT = m PATH_BS_CERT \<and> mk PATH_BS_KEY = m PATH_BS_KEY \<and> mk PATH_CA_CERT = m PATH_CA_CERT"
proof -
  obtain a b c where m: "m NEW_CERT = Some a" "m NEW_CHAIN = Some b" "m NEW_KEY = Some c" using assms(1-3) by auto
  consider "k = 0" | "k = 1" | "k = 2" | "k = 3" | "k = 4" | "k = 5" | "k = 6" | "k = 7" using assms(4) by linarith
  then show ?thesis
    unfolding mk_def by cases (simp_all add: commit_ops_def map_lfs_def save_exp_def path_ne m)
qed

text \<open>(C31) What a power cut leaves after \<open>k\<close> of the seven operations that install the new files: the old
  certificate is gone before the new one has its name (\<open>k = 1\<close>), and until the sixth operation the
  new certificate stands beside the old key or none. Without a bootstrap certificate the boot after a
  cut at \<open>k = 1\<close> therefore ends in \<open>MODE_FAIL\<close> although complete new files are on the flash.\<close>

theorem commit_crash_points:
  assumes "littlefs_ok lfs" and "writable lfs" and "lfs_exists lfs fs ''/device-cert.pem.new''"
    and "lfs_exists lfs fs ''/device-chain.pem.new''" and "lfs_exists lfs fs ''/device-key.pem.new''" and "k \<le> 7"
  shows "let cut = foldl (fs_apply lfs) fs (take k (commit_ops t)); before = lfs_read_string lfs fs; after = lfs_read_string lfs cut in
    after PATH_DEV_CERT = (if k = 0 then before PATH_DEV_CERT else if k = 1 then None else before ''/device-cert.pem.new'') \<and>
    after PATH_DEV_KEY = (if k \<le> 4 then before PATH_DEV_KEY else if k = 5 then None else before ''/device-key.pem.new'') \<and>
    after PATH_DEV_EXP = (if k \<le> 6 then before PATH_DEV_EXP else Some (fmt_u (ulong t))) \<and>
    (k = 1 \<and> \<not> lfs_exists lfs fs PATH_BS_CERT \<longrightarrow> decide_mode lfs cut now = MODE_FAIL)"
proof -
  let ?cut = "foldl (fs_apply lfs) fs (take k (commit_ops t))"
  have v: "lfs_read_string lfs ?cut = foldl (fs_apply map_lfs) (lfs_read_string lfs fs) (take k (commit_ops t))"
    by (rule fs_applys_view [OF assms(1,2) commit_ops_proper])
  have n: "lfs_read_string lfs fs NEW_CERT \<noteq> None" "lfs_read_string lfs fs NEW_CHAIN \<noteq> None" "lfs_read_string lfs fs NEW_KEY \<noteq> None"
    using assms(3-5) by (simp_all add: lfs_exists_iff [OF assms(1)] new_path_defs)
  note p = commit_prefix [OF n assms(6), of t]
  have "decide_mode lfs ?cut now = MODE_FAIL" if "k = 1" "\<not> lfs_exists lfs fs PATH_BS_CERT"
  proof -
    have "\<not> lfs_exists lfs ?cut PATH_DEV_CERT" "\<not> lfs_exists lfs ?cut PATH_BS_CERT"
      using p that unfolding lfs_exists_iff [OF assms(1)] v by simp_all
    then show ?thesis by (simp add: decide_mode_def)
  qed
  then show ?thesis using p unfolding Let_def v by (simp add: new_path_defs)
qed

definition demo_staged :: "path \<rightharpoonup> string" where
  "demo_staged = new_files demo_dev_fs ''leaf2'' ''inter2'' (replicate 32 9) (replicate 64 1)"

theorem commit_crash_points_witness:
  "decide_mode map_lfs (foldl (fs_apply map_lfs) demo_staged (take 1 (commit_ops 1767225600))) 1700000001 = MODE_FAIL"
proof -
  have "lfs_exists map_lfs demo_staged ''/device-cert.pem.new''" "lfs_exists map_lfs demo_staged ''/device-chain.pem.new''"
      "lfs_exists map_lfs demo_staged ''/device-key.pem.new''" "\<not> lfs_exists map_lfs demo_staged PATH_BS_CERT"
    by (simp_all add: demo_staged_def new_files_def demo_dev_fs_def map_lfs_def path_defs new_path_defs)
  then show ?thesis
    using commit_crash_points [OF map_lfs_ok map_lfs_writable, of demo_staged 1 1767225600 1700000001] by (simp add: Let_def)
qed

text \<open>(C32) A power cut during the first installation, after the certificate has its name and before the key
  has: the device boots into operation with a certificate and no key, setting up the session fails
  before a name is set, and from then on no pass ever connects, publishes or restarts, for any inputs;
  the watchdog does not count because no name is set, and the bootstrap path is not taken because a
  device certificate exists.\<close>

theorem first_install_cut_is_silent:
  assumes "littlefs_ok lfs" and "writable lfs" and "lfs_exists lfs fs ''/device-cert.pem.new''"
    and "lfs_exists lfs fs ''/device-chain.pem.new''" and "lfs_exists lfs fs ''/device-key.pem.new''"
    and "\<not> lfs_exists lfs fs PATH_DEV_KEY" and "\<not> lfs_exists lfs fs PATH_DEV_EXP" and "2 \<le> k" and "k \<le> 5"
    and "6 \<le> length (se_mac senv)" and "0 < EMQX_ENDPOINT_COUNT cfg"
  shows "let cut = foldl (fs_apply lfs) fs (take k (commit_ops t)) in
    decide_mode lfs cut now = MODE_OPERATIONAL \<and>
    (\<exists>dev. run_mode cfg lfs senv MODE_OPERATIONAL (boot cut w) = Done (Running, dev) \<and>
      (\<forall>es. \<exists>dev'. run_loop cfg lfs es dev = Done (Running, dev') \<and> publish_calls (dev_mqtt dev') = [] \<and>
         \<not> mqtt_up (dev_mqtt dev') \<and> dev_fs dev' = cut))"
proof -
  let ?cut = "foldl (fs_apply lfs) fs (take k (commit_ops t))"
  have v: "lfs_read_string lfs ?cut = foldl (fs_apply map_lfs) (lfs_read_string lfs fs) (take k (commit_ops t))"
    by (rule fs_applys_view [OF assms(1,2) commit_ops_proper])
  have n: "lfs_read_string lfs fs NEW_CERT \<noteq> None" "lfs_read_string lfs fs NEW_CHAIN \<noteq> None" "lfs_read_string lfs fs NEW_KEY \<noteq> None"
    using assms(3-5) by (simp_all add: lfs_exists_iff [OF assms(1)] new_path_defs)
  have k7: "k \<le> 7" using assms(9) by simp
  note p = commit_prefix [OF n k7, of t]
  have files: "lfs_exists lfs ?cut PATH_DEV_CERT" "lfs_read_string lfs ?cut PATH_DEV_KEY = None" "lfs_read_string lfs ?cut PATH_DEV_EXP = None"
    using p n(1) assms(6-9) unfolding lfs_exists_iff [OF assms(1)] v by auto
  have mode: "decide_mode lfs ?cut now = MODE_OPERATIONAL"
    using files by (simp add: decide_mode_def read_exp_def read_file_def)
  have na: "\<not> assets_present lfs ?cut" using files(2) by (simp add: assets_present_def read_file_def)
  let ?d = "boot ?cut w"
  have inv: "dev_inv cfg ?d" by (rule boot_inv [OF assms(11)])
  then have "objects_ok (dev_mqtt ?d)" by (simp add: dev_inv_def mqtt_inv_def)
  then have "setup_operational cfg lfs ?cut (se_mac senv) (se_net senv) (dev_mqtt ?d) = Some (False, (dev_mqtt ?d)\<lparr>mqtt_up := False\<rparr>)"
    using setup_operational_eq [OF _ assms(10), of "dev_mqtt ?d" cfg lfs ?cut "se_net senv"] na by (simp only: if_False)
  then have run: "run_mode cfg lfs senv MODE_OPERATIONAL ?d = Done (Running, ?d)"
    by (simp add: run_mode_def enter_operational_def boot_def mqtt_init_def)
  have d: "\<not> mqtt_up (dev_mqtt ?d)" "s_cn (dev_mqtt ?d) = []" "publish_calls (dev_mqtt ?d) = []" "dev_fs ?d = ?cut"
    by (simp_all add: boot_def mqtt_init_def)
  have "\<exists>dev'. run_loop cfg lfs es ?d = Done (Running, dev') \<and> publish_calls (dev_mqtt dev') = [] \<and>
         \<not> mqtt_up (dev_mqtt dev') \<and> dev_fs dev' = ?cut" for es
    using idle_forever [OF inv d(1,2), of lfs es] d(3,4) by auto
  then show ?thesis using mode run unfolding Let_def by blast
qed

theorem first_install_cut_is_silent_witness:
  "let cut = foldl (fs_apply map_lfs) (new_files demo_bs_fs ''leaf'' ''inter'' (replicate 32 9) (replicate 64 1)) (take 2 (commit_ops 1767225600)) in
    decide_mode map_lfs cut 1700000001 = MODE_OPERATIONAL \<and>
    (\<exists>dev. run_mode config_example map_lfs demo_setup MODE_OPERATIONAL (boot cut demo_wifi) = Done (Running, dev) \<and>
      (\<exists>dev'. run_loop config_example map_lfs (replicate 100 demo_pass) dev = Done (Running, dev') \<and> publish_calls (dev_mqtt dev') = []))"
proof -
  let ?m = "new_files demo_bs_fs ''leaf'' ''inter'' (replicate 32 9) (replicate 64 1)"
  have "lfs_exists map_lfs ?m ''/device-cert.pem.new''" "lfs_exists map_lfs ?m ''/device-chain.pem.new''"
      "lfs_exists map_lfs ?m ''/device-key.pem.new''" "\<not> lfs_exists map_lfs ?m PATH_DEV_KEY" "\<not> lfs_exists map_lfs ?m PATH_DEV_EXP"
    by (simp_all add: new_files_def demo_bs_fs_def map_lfs_def path_defs new_path_defs)
  moreover have "6 \<le> length (se_mac demo_setup)" "(2 :: nat) \<le> 2" "(2 :: nat) \<le> 5" by (simp_all add: demo_setup_def)
  ultimately show ?thesis
    using first_install_cut_is_silent [OF map_lfs_ok map_lfs_writable, of ?m 2 demo_setup config_example 1767225600 1700000001 demo_wifi] demo_count(1)
    unfolding Let_def by blast
qed

section \<open>A renewal that fails\<close>

text \<open>(C13) Renewal in operation never takes a working device down for good: when the renewal window is
  reached and provisioning fails for any reason, the pass goes on with the old files unchanged, and if
  a broker slot still accepts them the session is up again at the end of the pass.\<close>

theorem failed_renewal_recovers:
  assumes "littlefs_ok lfs" and "dev_inv cfg dev" and "6 \<le> length (le_mac env)"
    and "provision_cert cfg lfs (le_prov env) True (dev_fs dev) = Done (Inl e, fs')"
    and "assets_present lfs (dev_fs dev)" and "slot < EMQX_ENDPOINT_COUNT cfg" and "accepts cfg (le_net2 env) slot"
  shows "\<exists>dev'. renew_now cfg lfs env dev = Done (Running, dev') \<and> mqtt_up (dev_mqtt dev') \<and> s_cn (dev_mqtt dev') \<noteq> [] \<and>
    (\<forall>q. q \<in> {''/device-cert.pem.new'', ''/device-chain.pem.new'', ''/device-key.pem.new''} \<or>
       lfs_read_string lfs (dev_fs dev') q = lfs_read_string lfs (dev_fs dev) q)"
proof -
  obtain q where q: "mqtt_session_teardown (dev_mqtt dev) = Some q" "mqtt_inv cfg q"
    using teardown_inv [of cfg "dev_mqtt dev"] assms(2) by (auto simp: dev_inv_def)
  have same: "lfs_read_string lfs fs' p = lfs_read_string lfs (dev_fs dev) p" if "p \<notin> {NEW_CERT, NEW_CHAIN, NEW_KEY}" for p
    using provision_failed_frame [OF assms(1,4) that] .
  then have "assets_present lfs fs'" using assms(5) by (simp add: assets_present_def read_file_def path_ne)
  moreover have "objects_ok q" "s_current_ep q < EMQX_ENDPOINT_COUNT cfg" using q(2) by (simp_all add: mqtt_inv_def)
  moreover obtain idx where "List.find (accepts cfg (le_net2 env)) (slots_from cfg (s_current_ep q)) = Some idx"
    using slots_from_set [OF \<open>s_current_ep q < EMQX_ENDPOINT_COUNT cfg\<close>] assms(6,7)
    by (metis find_None_iff lessThan_iff not_None_eq)
  ultimately have "setup_operational cfg lfs fs' (le_mac env) (le_net2 env) q =
      Some (True, (session_of cfg lfs fs' (le_mac env) q)\<lparr>mqtt_up := True, s_current_ep := idx\<rparr>)"
    using setup_operational_eq [OF _ assms(3), of q cfg lfs fs' "le_net2 env"] by (simp add: Let_def)
  then show ?thesis
    using q assms(4) same session_of_inv(2) [OF q(2) assms(3), of lfs fs'] by (auto simp: renew_now_def Let_def new_path_defs)
qed

definition demo_online :: "(path \<rightharpoonup> string) device" where
  "demo_online = (boot demo_dev_fs demo_wifi)\<lparr>dev_mqtt := demo_session\<lparr>mqtt_up := True\<rparr>\<rparr>"

theorem failed_renewal_recovers_witness:
  "\<exists>dev'. renew_now config_example map_lfs demo_pass demo_online = Done (Running, dev') \<and> mqtt_up (dev_mqtt dev')"
proof -
  have "dev_inv config_example demo_online"
    using demo_session_inv sensor_init_inv
    by (simp add: dev_inv_def demo_online_def boot_def mqtt_inv_def objects_ok_def client_ok_def)
  moreover have "provision_cert config_example map_lfs (le_prov demo_pass) True (dev_fs demo_online) = Done (Inl KeygenFail, dev_fs demo_online)"
    by (simp add: provision_cert_def obtain_renewed_def gen_keypair_and_csr_def demo_env0_def demo_pass_def)
  moreover have "assets_present map_lfs (dev_fs demo_online)"
    by (simp add: assets_present_def read_file_def map_lfs_def demo_online_def boot_def demo_dev_fs_def path_ne)
  moreover have "accepts config_example (le_net2 demo_pass) 1" "6 \<le> length (le_mac demo_pass)" "1 < EMQX_ENDPOINT_COUNT config_example"
    by (simp_all add: demo_count, simp_all add: accepts_def demo_net_def demo_pass_def config_example_def)
  ultimately show ?thesis using failed_renewal_recovers [OF map_lfs_ok] by blast
qed

end
